(* ===== verification/Prelude.thy ===== *)
theory Prelude
  imports Main "HOL-Library.Word"
begin

text \<open>
  The prelude of the development: the integer types of the C program at their x86-64 widths,
  the fact collections the component theories fill, and the generic lemmas on lists and words
  that several components share.

  A C \<open>int\<close> and an \<open>unsigned int\<close> are both \<open>32 word\<close>; \<open>sint\<close> reads the first and \<open>unat\<close>
  the second. \<open>size_t\<close>, \<open>long\<close> and \<open>time_t\<close> are \<open>64 word\<close>. A byte is a HOL \<open>char\<close>, which has
  exactly 256 values, so byte arrays and C strings are both \<open>char list\<close>.
\<close>

type_synonym c_int = "32 word"
type_synonym c_uint = "32 word"
type_synonym c_size = "64 word"
type_synonym c_time = "64 word"
type_synonym bytes = "char list"

text \<open>Facts that describe how a well-formedness predicate is preserved by an operation.\<close>

named_theorems wf_intros

text \<open>Sizes of the objects of the program (arrays, structs, buffers).\<close>

named_theorems size_simps

text \<open>Frame facts: the fields that an operation leaves alone.\<close>

named_theorems frame_simps

section \<open>Lists\<close>

lemma count_filter_update:
  assumes "i < length xs"
  shows "length (filter P (xs[i := y])) + (if P (xs ! i) then 1 else 0)
       = length (filter P xs) + (if P y then 1 else 0)"
  using assms
proof (induction xs arbitrary: i)
  case Nil
  then show ?case by simp
next
  case (Cons x xs)
  then show ?case by (cases i) auto
qed

lemma filter_update_on:
  "i < length xs \<Longrightarrow> \<not> P (xs ! i) \<Longrightarrow> P y \<Longrightarrow>
     length (filter P (xs[i := y])) = Suc (length (filter P xs))"
  using count_filter_update [of i xs P y] by simp

lemma filter_update_off:
  "i < length xs \<Longrightarrow> P (xs ! i) \<Longrightarrow> \<not> P y \<Longrightarrow>
     Suc (length (filter P (xs[i := y]))) = length (filter P xs)"
  using count_filter_update [of i xs P y] by simp

lemma filter_full_iff: "length (filter P xs) = length xs \<longleftrightarrow> (\<forall>x\<in>set xs. P x)"
proof (induction xs)
  case Nil
  then show ?case by simp
next
  case (Cons x xs)
  have "length (filter P xs) \<noteq> Suc (length xs)"
    using length_filter_le [of P xs] by linarith
  with Cons show ?case by (cases "P x") auto
qed

lemma filter_map_cong:
  "(\<And>x. x \<in> set xs \<Longrightarrow> P (f x) = P x) \<Longrightarrow> length (filter P (map f xs)) = length (filter P xs)"
  by (induction xs) auto

lemma take_drop_append:
  "length a = n \<Longrightarrow> take n (a @ b) = a" "length a = n \<Longrightarrow> drop n (a @ b) = b"
  by simp_all

lemma concat_map_length_const:
  "(\<And>x. x \<in> set xs \<Longrightarrow> length (f x) = w) \<Longrightarrow> length (concat (map f xs)) = length xs * w"
  by (induction xs) auto

text \<open>The first index of a list that satisfies a predicate: the \<open>for\<close> loop with a
  \<open>break\<close> that the program uses to search the transactions pool.\<close>

fun find_index :: "('a \<Rightarrow> bool) \<Rightarrow> 'a list \<Rightarrow> nat option" where
  "find_index P [] = None"
| "find_index P (x # xs) = (if P x then Some 0 else map_option Suc (find_index P xs))"

lemma find_index_Some:
  "find_index P xs = Some i \<Longrightarrow> i < length xs \<and> P (xs ! i) \<and> (\<forall>j < i. \<not> P (xs ! j))"
proof (induction xs arbitrary: i)
  case Nil
  then show ?case by simp
next
  case (Cons x xs)
  show ?case
  proof (cases "P x")
    case True
    with Cons.prems show ?thesis by simp
  next
    case False
    with Cons.prems obtain k where k: "find_index P xs = Some k" and i: "i = Suc k" by auto
    from Cons.IH [OF k] False show ?thesis
      by (auto simp: i nth_Cons split: nat.splits)
  qed
qed

lemma find_index_None: "find_index P xs = None \<longleftrightarrow> (\<forall>x\<in>set xs. \<not> P x)"
  by (induction xs) auto

lemma find_index_ex: "(\<exists>i. find_index P xs = Some i) \<longleftrightarrow> (\<exists>x\<in>set xs. P x)"
  using find_index_None [of P xs] by (cases "find_index P xs") auto

section \<open>Words\<close>

lemma unat_add_1:
  "unat (w :: 'a::len word) + 1 < 2 ^ LENGTH('a) \<Longrightarrow> unat (w + 1) = Suc (unat w)"
  by (simp add: unat_word_ariths)

lemma unat_pred:
  "0 < unat (w :: 'a::len word) \<Longrightarrow> unat (w - 1) = unat w - 1"
  by (simp add: unat_sub word_le_nat_alt)

lemma unat_32_bound [simp]: "unat (w :: 32 word) < 4294967296"
  using unsigned_less [of w] by simp

lemma unat_64_bound [simp]: "unat (w :: 64 word) < 18446744073709551616"
  using unsigned_less [of w] by simp

lemma unat_of_nat_32: "n < 4294967296 \<Longrightarrow> unat (word_of_nat n :: 32 word) = n"
  by (simp add: unsigned_of_nat take_bit_nat_eq_self)

lemma unat_of_nat_64: "n < 18446744073709551616 \<Longrightarrow> unat (word_of_nat n :: 64 word) = n"
  by (simp add: unsigned_of_nat take_bit_nat_eq_self)

lemma sint_32_lower: "- 2147483648 \<le> sint (w :: 32 word)"
  using sint_greater_eq [of w] by simp

lemma sint_32_upper: "sint (w :: 32 word) < 2147483648"
  using sint_less [of w] by simp

lemma sint_nonneg:
  assumes "0 \<le> sint (w :: 32 word)"
  shows "sint w = int (unat w)"
proof -
  have "uint w = take_bit 32 (sint w)" by (simp add: uint_sint)
  also have "\<dots> = sint w"
    using assms sint_32_upper [of w] by (simp add: take_bit_int_eq_self)
  finally show ?thesis by simp
qed

lemma sint_small:
  assumes "unat (w :: 32 word) < 2147483648"
  shows "sint w = int (unat w)"
proof -
  have "int (unat w) < int 2147483648" using assms by (simp only: of_nat_less_iff)
  then have "uint w < 2147483648" by simp
  moreover have z: "0 \<le> uint w" by simp
  moreover have "- 2147483648 \<le> uint w" using z by linarith
  ultimately have "signed_take_bit 31 (uint w) = uint w"
    using signed_take_bit_int_eq_self [of 31 "uint w"] by simp
  then show ?thesis by (simp add: sint_uint)
qed

lemma scast_nonneg:
  "0 \<le> sint (w :: 32 word) \<Longrightarrow> (scast w :: 64 word) = word_of_nat (unat w)"
  using sint_nonneg [of w] by (simp only: scast_eq) simp

lemma word_32_eq_sint: "(a :: 32 word) = b \<longleftrightarrow> sint a = sint b"
  by (rule iffI) (simp_all add: signed_word_eqI)

section \<open>Storing lists\<close>

text \<open>A client that stores a list of items one by one with an operation \<open>put\<close> that may refuse.\<close>

fun put_list :: "('a \<Rightarrow> 'p \<Rightarrow> 'p option) \<Rightarrow> 'a list \<Rightarrow> 'p \<Rightarrow> 'p option" where
  "put_list put [] p = Some p"
| "put_list put (x # xs) p = (case put x p of None \<Rightarrow> None | Some q \<Rightarrow> put_list put xs q)"

end
