(* ===== verification/Codec.thy ===== *)
theory Codec
  imports CStrings
begin

text \<open>
  Memory images of the fixed-width data the program copies with \<open>memcpy\<close>: little-endian
  integers and arrays of equal-sized elements. The locale \<open>fixed_codec\<close> is the interface between
  a type and its image (the width of an image, and that reading an image gives the value back);
  its client lemmas give the length, the injectivity and the indexed reading of an array of such
  images, once for the integers, the transactions and the blocks.
\<close>

section \<open>Little-endian integers\<close>

fun le_bytes :: "nat \<Rightarrow> nat \<Rightarrow> bytes" where
  "le_bytes 0 v = []"
| "le_bytes (Suc k) v = char_of (v mod 256) # le_bytes k (v div 256)"

fun le_val :: "bytes \<Rightarrow> nat" where
  "le_val [] = 0"
| "le_val (c # cs) = of_char c + 256 * le_val cs"

definition le32 :: "32 word \<Rightarrow> bytes" where
  "le32 w = le_bytes 4 (unat w)"

definition le64 :: "64 word \<Rightarrow> bytes" where
  "le64 w = le_bytes 8 (unat w)"

definition rd32 :: "bytes \<Rightarrow> 32 word" where
  "rd32 bs = word_of_nat (le_val (take 4 bs))"

definition rd64 :: "bytes \<Rightarrow> 64 word" where
  "rd64 bs = word_of_nat (le_val (take 8 bs))"

text \<open>Reading \<open>n\<close> consecutive elements of \<open>w\<close> bytes: the \<open>memcpy\<close> of a whole array.\<close>

fun rd_array :: "nat \<Rightarrow> (bytes \<Rightarrow> 'a) \<Rightarrow> nat \<Rightarrow> bytes \<Rightarrow> 'a list" where
  "rd_array w rd 0 bs = []"
| "rd_array w rd (Suc n) bs = rd (take w bs) # rd_array w rd n (drop w bs)"

lemma length_rd_array [simp]: "length (rd_array w rd n bs) = n"
  by (induction n arbitrary: bs) auto

lemma length_le_bytes [simp]: "length (le_bytes k v) = k"
  by (induction k arbitrary: v) auto

lemma le_val_le_bytes: "le_val (le_bytes k v) = v mod 256 ^ k"
proof (induction k arbitrary: v)
  case 0
  then show ?case by simp
next
  case (Suc k)
  then show ?case by (simp add: mod_mult2_eq)
qed

lemma length_le32 [simp, size_simps]: "length (le32 w) = 4"
  by (simp add: le32_def)

lemma length_le64 [simp, size_simps]: "length (le64 w) = 8"
  by (simp add: le64_def)

lemma rd32_le32 [simp]: "rd32 (le32 w) = w"
  using unat_32_bound [of w] by (simp add: rd32_def le32_def le_val_le_bytes)

lemma rd64_le64 [simp]: "rd64 (le64 w) = w"
  using unat_64_bound [of w] by (simp add: rd64_def le64_def le_val_le_bytes)

lemma rd32_append [simp]: "rd32 (le32 w @ r) = w"
  using rd32_le32 [of w] by (simp add: rd32_def)

lemma rd64_append [simp]: "rd64 (le64 w @ r) = w"
  using rd64_le64 [of w] by (simp add: rd64_def)

section \<open>The codec interface\<close>

locale fixed_codec =
  fixes enc :: "'a \<Rightarrow> bytes"
    and rd :: "bytes \<Rightarrow> 'a"
    and ok :: "'a \<Rightarrow> bool"
    and width :: nat
  assumes enc_width: "ok x \<Longrightarrow> length (enc x) = width"
    and rd_enc: "ok x \<Longrightarrow> rd (enc x) = x"
begin

lemma enc_inj: "ok x \<Longrightarrow> ok y \<Longrightarrow> enc x = enc y \<Longrightarrow> x = y"
  by (metis rd_enc)

lemma array_width: "(\<And>x. x \<in> set xs \<Longrightarrow> ok x) \<Longrightarrow> length (concat (map enc xs)) = length xs * width"
  by (rule concat_map_length_const) (simp add: enc_width)

lemma rd_array_enc:
  "(\<And>x. x \<in> set xs \<Longrightarrow> ok x) \<Longrightarrow> rd_array width rd (length xs) (concat (map enc xs) @ rest) = xs"
  by (induction xs) (auto simp: enc_width rd_enc)

lemma array_inj:
  assumes "\<And>x. x \<in> set xs \<Longrightarrow> ok x" and "\<And>y. y \<in> set ys \<Longrightarrow> ok y"
    and "length xs = length ys" and "concat (map enc xs) = concat (map enc ys)"
  shows "xs = ys"
  using rd_array_enc [OF assms(1), of xs "[]"] rd_array_enc [OF assms(2), of ys "[]"] assms(3,4)
  by simp

lemma append_inj:
  assumes "ok x" and "ok y" and "enc x @ r = enc y @ s"
  shows "x = y \<and> r = s"
proof -
  have "enc x = enc y \<and> r = s"
    using assms enc_width by (metis append_eq_append_conv)
  with assms(1,2) show ?thesis by (auto dest: enc_inj)
qed

end

text \<open>An interface of positive width fixes the number of elements too.\<close>

locale sized_codec = fixed_codec +
  assumes width_pos: "0 < width"
begin

lemma array_inj_any:
  assumes "\<And>x. x \<in> set xs \<Longrightarrow> ok x" and "\<And>y. y \<in> set ys \<Longrightarrow> ok y"
    and "concat (map enc xs) = concat (map enc ys)"
  shows "xs = ys"
proof (rule array_inj [OF assms(1,2)])
  have "length xs * width = length ys * width"
    using array_width [of xs] array_width [of ys] assms by metis
  with width_pos show "length xs = length ys" by simp
qed (use assms(3) in auto)

end

interpretation int32: sized_codec le32 rd32 "\<lambda>_. True" 4
  by unfold_locales simp_all

interpretation int64: sized_codec le64 rd64 "\<lambda>_. True" 8
  by unfold_locales simp_all

end
