(* ===== verification/Decimals.thy ===== *)
theory Decimals
  imports CStrings
begin

text \<open>
  Number formatting and parsing as the program uses it: \<open>%d\<close>, \<open>%u\<close> and \<open>%02x\<close> of the printf
  family, \<open>atoi\<close> and the \<open>%d\<close> of \<open>sscanf\<close>. \<open>strtol\<close> is the C library's: white space, an optional
  sign, digits, saturating at the ends of \<open>long\<close>; \<open>atoi\<close> and \<open>%d\<close> convert its result to \<open>int\<close>, as
  glibc does. Printing is injective and parsing a printed number gives it back.
\<close>

section \<open>Printing\<close>

definition digit_char :: "nat \<Rightarrow> char" where
  "digit_char d = char_of (48 + d)"

definition isdigit :: "char \<Rightarrow> bool" where
  "isdigit c \<longleftrightarrow> 48 \<le> (of_char c :: nat) \<and> (of_char c :: nat) \<le> 57"

definition isspace :: "char \<Rightarrow> bool" where
  "isspace c \<longleftrightarrow> (of_char c :: nat) = 32 \<or> (9 \<le> (of_char c :: nat) \<and> (of_char c :: nat) \<le> 13)"

definition digit_val :: "char \<Rightarrow> nat" where
  "digit_val c = of_char c - 48"

fun dec_nat :: "nat \<Rightarrow> string" where
  "dec_nat n = (if n < 10 then [digit_char n] else dec_nat (n div 10) @ [digit_char (n mod 10)])"

declare dec_nat.simps [simp del]

definition dec_int :: "int \<Rightarrow> string" where
  "dec_int i = (if i < 0 then CHR ''-'' # dec_nat (nat (- i)) else dec_nat (nat i))"

definition hex_digit :: "nat \<Rightarrow> char" where
  "hex_digit d = (if d < 10 then char_of (48 + d) else char_of (87 + d))"

definition hex_byte :: "char \<Rightarrow> string" where
  "hex_byte c = [hex_digit (of_char c div 16), hex_digit (of_char c mod 16)]"

lemma of_digit_char: "d < 10 \<Longrightarrow> (of_char (digit_char d) :: nat) = 48 + d"
  by (simp add: digit_char_def)

lemma isdigit_digit_char: "d < 10 \<Longrightarrow> isdigit (digit_char d)"
  by (simp add: isdigit_def of_digit_char)

lemma digit_val_digit_char: "d < 10 \<Longrightarrow> digit_val (digit_char d) = d"
  by (simp add: digit_val_def of_digit_char)

lemma isdigit_not_space: "isdigit c \<Longrightarrow> \<not> isspace c"
  by (auto simp: isdigit_def isspace_def)

lemma isdigit_not_sign: "isdigit c \<Longrightarrow> c \<noteq> CHR ''-'' \<and> c \<noteq> CHR ''+'' \<and> c \<noteq> NUL"
  by (auto simp: isdigit_def)

lemma dec_nat_nonempty [simp]: "dec_nat n \<noteq> []"
  by (subst dec_nat.simps) simp

lemma dec_nat_digits: "c \<in> set (dec_nat n) \<Longrightarrow> isdigit c"
proof (induction n rule: dec_nat.induct)
  case (1 n)
  then show ?case
    by (cases "n < 10") (auto simp: dec_nat.simps [of n] isdigit_digit_char)
qed

lemma dec_nat_length_le: "n < 10 ^ Suc k \<Longrightarrow> length (dec_nat n) \<le> Suc k"
proof (induction n arbitrary: k rule: dec_nat.induct)
  case (1 n)
  show ?case
  proof (cases "n < 10")
    case True
    then show ?thesis by (simp add: dec_nat.simps [of n])
  next
    case False
    with "1.prems" obtain j where k: "k = Suc j" by (cases k) auto
    with "1.prems" have "n div 10 < 10 ^ Suc j" by (simp add: less_mult_imp_div_less)
    with "1.IH" [OF False] have "length (dec_nat (n div 10)) \<le> Suc j" by blast
    with False k show ?thesis by (simp add: dec_nat.simps [of n])
  qed
qed

lemma dec_nat_length_32: "n < 4294967296 \<Longrightarrow> length (dec_nat n) \<le> 10"
  using dec_nat_length_le [of n 9] by simp

lemma dec_int_length_32: "\<bar>i\<bar> \<le> 2147483648 \<Longrightarrow> length (dec_int i) \<le> 11"
proof (cases "i < 0")
  case True
  moreover assume "\<bar>i\<bar> \<le> 2147483648"
  ultimately show ?thesis
    using dec_nat_length_32 [of "nat (- i)"] by (simp add: dec_int_def)
next
  case False
  moreover assume "\<bar>i\<bar> \<le> 2147483648"
  ultimately have "nat i < 4294967296" by linarith
  then have "length (dec_nat (nat i)) \<le> 10" by (rule dec_nat_length_32)
  with False show ?thesis by (simp add: dec_int_def)
qed

lemma dec_int_nonempty [simp]: "dec_int i \<noteq> []"
  by (simp add: dec_int_def)

lemma dec_int_chars: "c \<in> set (dec_int i) \<Longrightarrow> isdigit c \<or> c = CHR ''-''"
  by (auto simp: dec_int_def dest: dec_nat_digits split: if_splits)

lemma NUL_notin_dec_int [simp]: "NUL \<notin> set (dec_int i)"
  using dec_int_chars [of NUL i] by (auto simp: isdigit_def)

lemma NUL_notin_dec_nat [simp]: "NUL \<notin> set (dec_nat n)"
  using dec_nat_digits [of NUL n] by (auto simp: isdigit_def)

section \<open>Parsing\<close>

fun read_digits :: "nat \<Rightarrow> string \<Rightarrow> nat \<times> string" where
  "read_digits acc [] = (acc, [])"
| "read_digits acc (c # cs) =
     (if isdigit c then read_digits (10 * acc + digit_val c) cs else (acc, c # cs))"

definition long_sat :: "int \<Rightarrow> int" where
  "long_sat i = max (- (2 ^ 63)) (min (2 ^ 63 - 1) i)"

text \<open>\<open>strtol\<close>: the number and the rest of the input, or \<open>None\<close> when there is no number.\<close>

definition strtol :: "string \<Rightarrow> (int \<times> string) option" where
  "strtol s =
     (let t = dropWhile isspace s;
          neg = (t \<noteq> [] \<and> hd t = CHR ''-'');
          u = (if t \<noteq> [] \<and> (hd t = CHR ''-'' \<or> hd t = CHR ''+'') then tl t else t)
      in if u \<noteq> [] \<and> isdigit (hd u)
         then (case read_digits 0 u of (n, r) \<Rightarrow> Some (long_sat (if neg then - int n else int n), r))
         else None)"

definition atoi :: "bytes \<Rightarrow> c_int" where
  "atoi s = (case strtol (c_str s) of None \<Rightarrow> 0 | Some (i, _) \<Rightarrow> word_of_int i)"

lemma read_digits_dec_nat:
  "(case rest of [] \<Rightarrow> True | c # _ \<Rightarrow> \<not> isdigit c) \<Longrightarrow>
   read_digits acc (dec_nat n @ rest) = (acc * 10 ^ length (dec_nat n) + n, rest)"
proof (induction n arbitrary: acc rest rule: dec_nat.induct)
  case (1 n)
  have stop: "read_digits a rest = (a, rest)" for a
    using "1.prems" by (cases rest) auto
  show ?case
  proof (cases "n < 10")
    case True
    then show ?thesis
      by (simp add: dec_nat.simps [of n] isdigit_digit_char digit_val_digit_char stop)
  next
    case False
    have step: "read_digits a (xs @ ys) = (let (b, r) = read_digits a xs in
        if r = [] then read_digits b ys else (b, r @ ys))" for a xs ys
      by (induction a xs rule: read_digits.induct) auto
    have "read_digits acc (dec_nat (n div 10)) = (acc * 10 ^ length (dec_nat (n div 10)) + n div 10, [])"
      using "1.IH" [OF False, of "[]" acc] by simp
    with False show ?thesis
      by (simp add: dec_nat.simps [of n] step isdigit_digit_char digit_val_digit_char stop)
  qed
qed

lemma read_digits_0:
  assumes "case rest of [] \<Rightarrow> True | c # _ \<Rightarrow> \<not> isdigit c"
  shows "read_digits 0 (dec_nat n @ rest) = (n, rest)"
  using read_digits_dec_nat [OF assms, of 0 n] by simp

lemma hd_dec_nat: "isdigit (hd (dec_nat n @ r))"
  using dec_nat_digits [of "hd (dec_nat n)" n] by simp

text \<open>Parsing a printed number: the round trip behind \<open>TX-%d-%d\<close>, \<open>BLOCK-%d-%d\<close>, the miner
  ids of the statistics messages and the configuration file.\<close>

lemma strtol_dec_nat:
  assumes "case rest of [] \<Rightarrow> True | c # _ \<Rightarrow> \<not> isdigit c"
  shows "strtol (dec_nat n @ rest) = Some (long_sat (int n), rest)"
proof -
  let ?s = "dec_nat n @ rest"
  have h: "isdigit (hd ?s)" by (rule hd_dec_nat)
  then have "dropWhile isspace ?s = ?s"
    by (metis dropWhile_eq_self_iff isdigit_not_space)
  with h isdigit_not_sign [OF h] read_digits_0 [OF assms, of n] show ?thesis
    by (simp add: strtol_def Let_def)
qed

lemma strtol_dec_int:
  assumes "case rest of [] \<Rightarrow> True | c # _ \<Rightarrow> \<not> isdigit c"
  shows "strtol (dec_int i @ rest) = Some (long_sat i, rest)"
proof (cases "i < 0")
  case False
  with strtol_dec_nat [OF assms, of "nat i"] show ?thesis by (simp add: dec_int_def)
next
  case True
  let ?d = "dec_nat (nat (- i)) @ rest"
  have "isdigit (hd ?d)" by (rule hd_dec_nat)
  moreover have "\<not> isspace CHR ''-''" by (simp add: isspace_def)
  ultimately show ?thesis
    using True read_digits_0 [OF assms, of "nat (- i)"]
    by (simp add: strtol_def Let_def dec_int_def)
qed

lemma long_sat_id: "- (2 ^ 63) \<le> i \<Longrightarrow> i < 2 ^ 63 \<Longrightarrow> long_sat i = i"
  by (simp add: long_sat_def)

lemma atoi_dec_int:
  assumes "- 2147483648 \<le> i" and "i < 2147483648" and "NUL \<notin> set rest"
    and "case rest of [] \<Rightarrow> True | c # _ \<Rightarrow> \<not> isdigit c"
  shows "sint (atoi (dec_int i @ rest)) = i"
proof -
  have "c_str (dec_int i @ rest) = dec_int i @ rest"
    using assms(3) by (intro c_str_no_NUL) simp
  moreover have "long_sat i = i" using assms(1,2) by (intro long_sat_id) auto
  moreover have "signed_take_bit 31 i = i"
    using assms(1,2) by (intro signed_take_bit_int_eq_self) auto
  ultimately show ?thesis
    by (simp add: atoi_def strtol_dec_int [OF assms(4)] signed_of_int)
qed

lemma dec_nat_append_inj:
  assumes "case r of [] \<Rightarrow> True | c # _ \<Rightarrow> \<not> isdigit c"
    and "case r' of [] \<Rightarrow> True | c # _ \<Rightarrow> \<not> isdigit c"
    and "dec_nat x @ r = dec_nat y @ r'"
  shows "x = y \<and> r = r'"
proof -
  have "(x, r) = read_digits 0 (dec_nat x @ r)" by (rule read_digits_0 [OF assms(1), symmetric])
  also have "\<dots> = read_digits 0 (dec_nat y @ r')" by (simp only: assms(3))
  also have "\<dots> = (y, r')" by (rule read_digits_0 [OF assms(2)])
  finally show ?thesis by simp
qed

text \<open>A printed number is delimited by the first character that cannot continue it.\<close>

lemma dec_int_append_inj:
  assumes "case r of [] \<Rightarrow> True | c # _ \<Rightarrow> \<not> isdigit c"
    and "case r' of [] \<Rightarrow> True | c # _ \<Rightarrow> \<not> isdigit c"
    and "dec_int i @ r = dec_int j @ r'"
  shows "i = j \<and> r = r'"
proof -
  have minus: "CHR ''-'' # x \<noteq> dec_nat y @ z" for x y z
    using hd_dec_nat [of y z] isdigit_not_sign by (metis list.sel(1))
  show ?thesis
  proof (cases "i < 0"; cases "j < 0")
    assume "i < 0" and "j < 0"
    with assms(3) have "dec_nat (nat (- i)) @ r = dec_nat (nat (- j)) @ r'"
      by (simp add: dec_int_def)
    from dec_nat_append_inj [OF assms(1,2) this] \<open>i < 0\<close> \<open>j < 0\<close> show ?thesis by linarith
  next
    assume "\<not> i < 0" and "\<not> j < 0"
    with assms(3) have "dec_nat (nat i) @ r = dec_nat (nat j) @ r'"
      by (simp add: dec_int_def)
    from dec_nat_append_inj [OF assms(1,2) this] \<open>\<not> i < 0\<close> \<open>\<not> j < 0\<close> show ?thesis by linarith
  next
    assume "i < 0" and "\<not> j < 0"
    with assms(3) minus [of "dec_nat (nat (- i)) @ r" "nat j" r'] show ?thesis
      by (simp add: dec_int_def)
  next
    assume "\<not> i < 0" and "j < 0"
    with assms(3) minus [of "dec_nat (nat (- j)) @ r'" "nat i" r] show ?thesis
      by (simp add: dec_int_def)
  qed
qed

end
