(* ===== verification/SharedTypes.thy ===== *)
theory SharedTypes
  imports Codec Decimals
begin

text \<open>
  The data of \<open>include/Controller.h\<close>: the parameters of the simulation, transactions, the slots of
  the transactions pool, blocks, the ledger and the statistics messages, each struct a record and
  each \<open>char\<close> array a byte list. A pointer to an array of transactions is the list of the
  transactions. \<open>struct_size\<close> computes sizes and offsets from the declared fields by the x86-64
  layout rules (natural alignment, or none inside \<open>#pragma pack(1)\<close>), so that the byte-level
  facts of the other theories rest on the declarations and not on numbers.
\<close>

section \<open>Constants\<close>

definition TX_ID_LEN :: nat where "TX_ID_LEN = 64"
definition HASH_SIZE :: nat where "HASH_SIZE = 65"
definition TXB_ID_LEN :: nat where "TXB_ID_LEN = 64"
definition STATISTICS_MQ_SIZE :: nat where "STATISTICS_MQ_SIZE = 10"
definition STATISTICS_MQ_MSG_SIZE :: nat where "STATISTICS_MQ_MSG_SIZE = 1024"

lemmas array_lengths [size_simps] = TX_ID_LEN_def HASH_SIZE_def TXB_ID_LEN_def

section \<open>Structs\<close>

record Transaction =
  tx_id :: bytes
  reward :: c_int
  tx_value :: "32 word"  \<comment> \<open>the bits of the \<open>float\<close>\<close>
  tx_timestamp :: c_time

record PendingTransaction =
  filled :: c_int
  age :: c_uint
  tx :: Transaction

record TransactionPool =
  pool_size :: c_uint
  pool_count :: c_uint
  pool_num_miners :: c_uint
  pool_tpb :: c_uint
  slots :: "PendingTransaction list"

record TransactionBlock =
  txb_id :: bytes
  previous_block_hash :: bytes
  blk_timestamp :: c_time
  nonce :: c_uint
  transactions :: "Transaction list"

record Ledger =
  last_block_index :: c_uint
  last_block_hash :: bytes
  num_blocks :: c_uint
  ledger_count :: c_uint
  blocks :: "TransactionBlock list"

record StatisticsMessage =
  msg_txb_id :: bytes
  miner_id :: bytes
  block_index :: c_int
  earned_amount :: c_int
  msg_timestamp :: c_time

text \<open>The parameters that \<open>parse_config\<close> sets and every process inherits.\<close>

record Config =
  NUM_MINERS :: c_int
  TRANSACTION_POOL_SIZE :: c_int
  TRANSACTIONS_PER_BLOCK :: c_size
  BLOCKCHAIN_BLOCKS :: c_int

section \<open>Layout\<close>

definition align_up :: "nat \<Rightarrow> nat \<Rightarrow> nat" where
  "align_up n a = (n + a - 1) div a * a"

text \<open>The offsets of fields given as (size, alignment), and the padded size of the struct.\<close>

fun field_offsets :: "nat \<Rightarrow> (nat \<times> nat) list \<Rightarrow> nat list" where
  "field_offsets off [] = []"
| "field_offsets off ((sz, al) # fs) = align_up off al # field_offsets (align_up off al + sz) fs"

fun fields_end :: "nat \<Rightarrow> (nat \<times> nat) list \<Rightarrow> nat" where
  "fields_end off [] = off"
| "fields_end off ((sz, al) # fs) = fields_end (align_up off al + sz) fs"

definition struct_align :: "(nat \<times> nat) list \<Rightarrow> nat" where
  "struct_align fs = foldr max (map snd fs) 1"

definition struct_size :: "(nat \<times> nat) list \<Rightarrow> nat" where
  "struct_size fs = align_up (fields_end 0 fs) (struct_align fs)"

definition packed_size :: "(nat \<times> nat) list \<Rightarrow> nat" where
  "packed_size fs = sum_list (map fst fs)"

definition Transaction_fields :: "(nat \<times> nat) list" where
  "Transaction_fields = [(TX_ID_LEN, 1), (4, 4), (4, 4), (8, 8)]"

definition sizeof_Transaction :: nat where
  "sizeof_Transaction = struct_size Transaction_fields"

definition PendingTransaction_fields :: "(nat \<times> nat) list" where
  "PendingTransaction_fields = [(4, 4), (4, 4), (sizeof_Transaction, struct_align Transaction_fields)]"

definition sizeof_PendingTransaction :: nat where
  "sizeof_PendingTransaction = struct_size PendingTransaction_fields"

definition TransactionPoolSHM_fields :: "(nat \<times> nat) list" where
  "TransactionPoolSHM_fields = [(4, 4), (4, 4), (4, 4), (4, 4), (8, 8)]"

definition sizeof_TransactionPoolSHM :: nat where
  "sizeof_TransactionPoolSHM = struct_size TransactionPoolSHM_fields"

definition TransactionBlockSHM_fields :: "(nat \<times> nat) list" where
  "TransactionBlockSHM_fields = [(TXB_ID_LEN, 1), (HASH_SIZE, 1), (8, 8), (4, 4), (8, 8)]"

definition sizeof_TransactionBlockSHM :: nat where
  "sizeof_TransactionBlockSHM = struct_size TransactionBlockSHM_fields"

definition TransactionBlock_fields :: "(nat \<times> nat) list" where
  "TransactionBlock_fields = [(TXB_ID_LEN, 1), (HASH_SIZE, 1), (8, 8), (4, 4), (8, 8)]"

definition sizeof_TransactionBlock :: nat where
  "sizeof_TransactionBlock = packed_size TransactionBlock_fields"

definition LedgerSHM_fields :: "(nat \<times> nat) list" where
  "LedgerSHM_fields = [(4, 4), (HASH_SIZE, 1), (4, 4), (4, 4), (8, 8)]"

definition sizeof_LedgerSHM :: nat where
  "sizeof_LedgerSHM = struct_size LedgerSHM_fields"

definition StatisticsMessage_fields :: "(nat \<times> nat) list" where
  "StatisticsMessage_fields = [(TXB_ID_LEN, 1), (7, 1), (4, 4), (4, 4), (8, 8)]"

definition sizeof_StatisticsMessage :: nat where
  "sizeof_StatisticsMessage = packed_size StatisticsMessage_fields"

definition sizeof_pointer :: nat where "sizeof_pointer = 8"
definition sizeof_size_t :: nat where "sizeof_size_t = 8"

lemmas layout_defs = struct_size_def packed_size_def struct_align_def align_up_def
  Transaction_fields_def PendingTransaction_fields_def TransactionPoolSHM_fields_def
  TransactionBlockSHM_fields_def TransactionBlock_fields_def LedgerSHM_fields_def
  StatisticsMessage_fields_def TX_ID_LEN_def HASH_SIZE_def TXB_ID_LEN_def

lemma sizeof_Transaction [size_simps]: "sizeof_Transaction = 80"
  by (simp add: sizeof_Transaction_def layout_defs)

lemma sizeof_PendingTransaction [size_simps]: "sizeof_PendingTransaction = 88"
  by (simp add: sizeof_PendingTransaction_def layout_defs sizeof_Transaction)

lemma sizeof_TransactionPoolSHM [size_simps]: "sizeof_TransactionPoolSHM = 24"
  by (simp add: sizeof_TransactionPoolSHM_def layout_defs)

lemma sizeof_TransactionBlockSHM [size_simps]: "sizeof_TransactionBlockSHM = 160"
  by (simp add: sizeof_TransactionBlockSHM_def layout_defs)

lemma sizeof_TransactionBlock [size_simps]: "sizeof_TransactionBlock = 149"
  by (simp add: sizeof_TransactionBlock_def layout_defs)

lemma sizeof_LedgerSHM [size_simps]: "sizeof_LedgerSHM = 88"
  by (simp add: sizeof_LedgerSHM_def layout_defs)

lemma sizeof_StatisticsMessage [size_simps]: "sizeof_StatisticsMessage = 87"
  by (simp add: sizeof_StatisticsMessage_def layout_defs)

lemmas sizeof_words [size_simps] = sizeof_pointer_def sizeof_size_t_def

text \<open>\<open>get_transaction_block_size\<close>: it exits when the parameter has not been set.\<close>

definition get_transaction_block_size :: "c_size \<Rightarrow> c_size option" where
  "get_transaction_block_size tpb =
     (if tpb = 0 then None
      else Some (word_of_nat sizeof_TransactionBlock + tpb * word_of_nat sizeof_Transaction))"

section \<open>Memory images\<close>

text \<open>A \<open>Transaction\<close> has no padding, so its image is the concatenation of its fields.\<close>

definition tx_bytes :: "Transaction \<Rightarrow> bytes" where
  "tx_bytes t = tx_id t @ le32 (reward t) @ le32 (tx_value t) @ le64 (tx_timestamp t)"

definition rd_tx :: "bytes \<Rightarrow> Transaction" where
  "rd_tx bs =
     \<lparr>tx_id = take TX_ID_LEN bs,
      reward = rd32 (take 4 (drop TX_ID_LEN bs)),
      tx_value = rd32 (take 4 (drop (TX_ID_LEN + 4) bs)),
      tx_timestamp = rd64 (take 8 (drop (TX_ID_LEN + 8) bs))\<rparr>"

definition tx_sized :: "Transaction \<Rightarrow> bool" where
  "tx_sized t \<longleftrightarrow> length (tx_id t) = TX_ID_LEN"

lemma tx_offsets:
  "field_offsets 0 Transaction_fields = [0, TX_ID_LEN, TX_ID_LEN + 4, TX_ID_LEN + 8]"
  by (simp add: layout_defs)

interpretation tx: sized_codec tx_bytes rd_tx tx_sized sizeof_Transaction
proof unfold_locales
  fix t
  assume "tx_sized t"
  then have l: "length (tx_id t) = 64" by (simp add: tx_sized_def TX_ID_LEN_def)
  then show "length (tx_bytes t) = sizeof_Transaction"
    by (simp add: tx_bytes_def size_simps)
  from l show "rd_tx (tx_bytes t) = t"
    by (simp add: rd_tx_def tx_bytes_def TX_ID_LEN_def)
qed (simp add: size_simps)

text \<open>A zeroed transaction and block, and blocks whose arrays have the declared lengths.\<close>

definition zero_tx :: Transaction where
  "zero_tx = \<lparr>tx_id = replicate TX_ID_LEN NUL, reward = 0, tx_value = 0, tx_timestamp = 0\<rparr>"

definition zero_block :: "nat \<Rightarrow> TransactionBlock" where
  "zero_block n =
     \<lparr>txb_id = replicate TXB_ID_LEN NUL, previous_block_hash = replicate HASH_SIZE NUL,
      blk_timestamp = 0, nonce = 0, transactions = replicate n zero_tx\<rparr>"

definition block_sized :: "c_size \<Rightarrow> TransactionBlock \<Rightarrow> bool" where
  "block_sized tpb b \<longleftrightarrow>
     length (txb_id b) = TXB_ID_LEN \<and> length (previous_block_hash b) = HASH_SIZE \<and>
     length (transactions b) = unat tpb \<and> list_all tx_sized (transactions b)"

lemma tx_sized_zero [wf_intros]: "tx_sized zero_tx"
  by (simp add: tx_sized_def zero_tx_def)

lemma block_sized_zero [wf_intros]: "block_sized tpb (zero_block (unat tpb))"
  by (simp add: block_sized_def zero_block_def list_all_iff tx_sized_zero)

text \<open>Blocks as the miners build them: every array padded with NULs.\<close>

definition tx_padded :: "Transaction \<Rightarrow> bool" where
  "tx_padded t \<longleftrightarrow> padded TX_ID_LEN (tx_id t)"

definition block_padded :: "c_size \<Rightarrow> TransactionBlock \<Rightarrow> bool" where
  "block_padded tpb b \<longleftrightarrow>
     padded TXB_ID_LEN (txb_id b) \<and> padded HASH_SIZE (previous_block_hash b) \<and>
     length (transactions b) = unat tpb \<and> list_all tx_padded (transactions b)"

lemma tx_padded_sized [wf_intros]: "tx_padded t \<Longrightarrow> tx_sized t"
  by (simp add: tx_padded_def tx_sized_def padded_length)

lemma block_padded_sized [wf_intros]: "block_padded tpb b \<Longrightarrow> block_sized tpb b"
  by (auto simp: block_padded_def block_sized_def padded_length list_all_iff tx_padded_sized)

end
