(* ===== verification/ConfigFile.thy ===== *)
theory ConfigFile
  imports SharedTypes Decimals
begin

text \<open>
  The configuration (\<open>src/Controller.c\<close>: \<open>is_positive_integer\<close>, \<open>parse_config\<close> and the checks at
  the start of \<open>main\<close>). The file is a byte list, \<open>None\<close> when it cannot be opened. \<open>fscanf\<close> is the C
  library's for the formats used: a literal key, \<open>%s\<close>, and white space. A value that does not fit
  in the 128 bytes of \<open>buffer\<close> is the error \<open>BufferOverflow\<close>. The lemmas show that a printed
  configuration is read back, which values the checks let through, and what happens to numbers that
  do not fit in an \<open>int\<close>.
\<close>

section \<open>Parsing\<close>

fun is_positive_integer :: "bytes \<Rightarrow> bool" where
  "is_positive_integer [] = True"
| "is_positive_integer (c # cs) =
     (if c = NUL then True else if \<not> isdigit c then False else is_positive_integer cs)"

text \<open>\<open>fscanf(file, "KEY%s\n", buffer)\<close>: the token stored in the buffer and the rest of the file, or
  \<open>None\<close> when the result is not 1.\<close>

definition fscanf_field :: "string \<Rightarrow> bytes \<Rightarrow> (bytes \<times> bytes) option" where
  "fscanf_field key s =
     (if take (length key) s = key
      then let r = dropWhile isspace (drop (length key) s);
               token = takeWhile (\<lambda>c. \<not> isspace c) r
           in if token = [] then None
              else Some (token, dropWhile isspace (dropWhile (\<lambda>c. \<not> isspace c) r))
      else None)"

datatype Field = NumMiners | PoolSize | TxPerBlock | ChainBlocks

fun field_key :: "Field \<Rightarrow> string" where
  "field_key NumMiners = ''NUM_MINERS=''"
| "field_key PoolSize = ''TRANSACTION_POOL_SIZE=''"
| "field_key TxPerBlock = ''TRANSACTIONS_PER_BLOCK=''"
| "field_key ChainBlocks = ''BLOCKCHAIN_BLOCKS=''"

datatype ConfigError = OpenFailed | InvalidValue Field | BufferOverflow Field

text \<open>One field: the number and the rest of the file.\<close>

definition parse_field :: "Field \<Rightarrow> bytes \<Rightarrow> ConfigError + (c_int \<times> bytes)" where
  "parse_field f s =
     (case fscanf_field (field_key f) s of
        None \<Rightarrow> Inl (InvalidValue f)
      | Some (token, rest) \<Rightarrow>
          if 128 \<le> length token then Inl (BufferOverflow f)
          else if \<not> is_positive_integer token then Inl (InvalidValue f)
          else Inr (atoi token, rest))"

definition parse_config :: "bytes option \<Rightarrow> ConfigError + Config" where
  "parse_config file =
     (case file of
        None \<Rightarrow> Inl OpenFailed
      | Some s0 \<Rightarrow>
         (case parse_field NumMiners s0 of Inl e \<Rightarrow> Inl e | Inr (miners, s1) \<Rightarrow>
         (case parse_field PoolSize s1 of Inl e \<Rightarrow> Inl e | Inr (pool, s2) \<Rightarrow>
         (case parse_field TxPerBlock s2 of Inl e \<Rightarrow> Inl e | Inr (tpb, s3) \<Rightarrow>
         (case parse_field ChainBlocks s3 of Inl e \<Rightarrow> Inl e | Inr (nblocks, s4) \<Rightarrow>
            Inr \<lparr>NUM_MINERS = miners, TRANSACTION_POOL_SIZE = pool,
                 TRANSACTIONS_PER_BLOCK = scast tpb, BLOCKCHAIN_BLOCKS = nblocks\<rparr>)))))"

section \<open>The checks of main\<close>

datatype ConfigProblem = TooFewBlocks | NoMiners | EmptyPool | EmptyBlocks

definition check_config :: "Config \<Rightarrow> ConfigProblem option" where
  "check_config cfg =
     (if sint (BLOCKCHAIN_BLOCKS cfg) < 2 then Some TooFewBlocks
      else if sint (NUM_MINERS cfg) < 1 then Some NoMiners
      else if sint (TRANSACTION_POOL_SIZE cfg) < 1 then Some EmptyPool
      else if unat (TRANSACTIONS_PER_BLOCK cfg) < 1 then Some EmptyBlocks
      else None)"

definition startup :: "bytes option \<Rightarrow> (ConfigError + ConfigProblem) + Config" where
  "startup file =
     (case parse_config file of
        Inl e \<Rightarrow> Inl (Inl e)
      | Inr cfg \<Rightarrow> (case check_config cfg of Some p \<Rightarrow> Inl (Inr p) | None \<Rightarrow> Inr cfg))"

section \<open>Tokens\<close>

lemma is_positive_integer_iff: "is_positive_integer s \<longleftrightarrow> (\<forall>c\<in>set (c_str s). isdigit c)"
  by (induction s) (auto simp: c_str_def)

lemma is_positive_dec_nat: "is_positive_integer (dec_nat n)"
  using dec_nat_digits by (auto simp: is_positive_integer_iff c_str_no_NUL)

text \<open>A line with a printed number, followed by anything that starts with no white space.\<close>

definition config_line :: "Field \<Rightarrow> nat \<Rightarrow> bytes" where
  "config_line f n = field_key f @ dec_nat n @ [CHR 0x0A]"

lemma fscanf_field_line:
  assumes "rest = [] \<or> \<not> isspace (hd rest)"
  shows "fscanf_field (field_key f) (config_line f n @ rest) = Some (dec_nat n, rest)"
proof -
  let ?d = "dec_nat n"
  have nospace: "\<not> isspace c" if "c \<in> set ?d" for c
    using that dec_nat_digits isdigit_not_space by blast
  have nl: "isspace (CHR 0x0A)" by (simp add: isspace_def)
  have lead: "dropWhile isspace (?d @ CHR 0x0A # rest) = ?d @ CHR 0x0A # rest"
    using nospace by (cases ?d) simp_all
  have tok: "takeWhile (\<lambda>c. \<not> isspace c) (?d @ CHR 0x0A # rest) = ?d"
    using nospace nl by (simp add: takeWhile_tail)
  have "dropWhile (\<lambda>c. \<not> isspace c) (?d @ CHR 0x0A # rest) = CHR 0x0A # rest"
    using nospace nl by (subst dropWhile_append2) auto
  moreover have "dropWhile isspace (CHR 0x0A # rest) = rest"
    using nl assms by (cases rest) auto
  ultimately show ?thesis
    by (simp add: fscanf_field_def config_line_def Let_def lead tok)
qed

lemma length_dec_nat: "n < 10 ^ Suc k \<Longrightarrow> length (dec_nat n) \<le> Suc k"
proof (induction k arbitrary: n)
  case 0
  then show ?case by (subst dec_nat.simps) simp
next
  case (Suc k)
  then show ?case by (subst dec_nat.simps) (auto simp: less_mult_imp_div_less)
qed

lemma parse_field_line:
  assumes "rest = [] \<or> \<not> isspace (hd rest)" and "n < 10 ^ 100"
  shows "parse_field f (config_line f n @ rest) = Inr (atoi (dec_nat n), rest)"
  using length_dec_nat [of n 99] assms(2)
  by (simp add: parse_field_def fscanf_field_line [OF assms(1)] is_positive_dec_nat)

lemma atoi_dec_nat: "atoi (dec_nat n) = word_of_int (long_sat (int n))"
  using strtol_dec_nat [of "[]" n] by (simp add: atoi_def c_str_no_NUL)

definition config_text :: "nat \<Rightarrow> nat \<Rightarrow> nat \<Rightarrow> nat \<Rightarrow> bytes" where
  "config_text miners pool tpb nblocks =
     config_line NumMiners miners @ config_line PoolSize pool @ config_line TxPerBlock tpb @
     config_line ChainBlocks nblocks"

lemma key_not_space: "config_line f n @ rest = [] \<or> \<not> isspace (hd (config_line f n @ rest))"
  by (cases f) (simp_all add: config_line_def isspace_def)

lemma parse_config_text:
  assumes "miners < 10 ^ 100" and "pool < 10 ^ 100" and "tpb < 10 ^ 100" and "nblocks < 10 ^ 100"
  shows "parse_config (Some (config_text miners pool tpb nblocks)) =
    Inr \<lparr>NUM_MINERS = atoi (dec_nat miners), TRANSACTION_POOL_SIZE = atoi (dec_nat pool),
         TRANSACTIONS_PER_BLOCK = scast (atoi (dec_nat tpb)), BLOCKCHAIN_BLOCKS = atoi (dec_nat nblocks)\<rparr>"
proof -
  let ?l4 = "config_line ChainBlocks nblocks"
  have empty: "?l4 = [] \<or> \<not> isspace (hd ?l4)"
    using key_not_space [of ChainBlocks nblocks "[]"] by simp
  have 4: "parse_field ChainBlocks ?l4 = Inr (atoi (dec_nat nblocks), [])"
    using parse_field_line [of "[]" nblocks ChainBlocks] assms(4) by simp
  note 3 = parse_field_line [OF empty assms(3), of TxPerBlock]
  note 2 = parse_field_line [OF key_not_space assms(2), of PoolSize TxPerBlock tpb ?l4]
  note 1 = parse_field_line [OF key_not_space assms(1), of NumMiners PoolSize pool "config_line TxPerBlock tpb @ ?l4"]
  show ?thesis
    unfolding parse_config_def config_text_def option.case 1 2 3 4 sum.case prod.case ..
qed

section \<open>Properties\<close>

text \<open>C35: the configuration file is read back exactly. For values that fit in an \<open>int\<close> the file
  written in the format of \<open>config.cfg\<close> gives the four parameters, and the controller starts with
  them exactly when the chain has at least two blocks and the other values are positive.\<close>

theorem config_roundtrip:
  assumes "miners < 2147483648" and "pool < 2147483648" and "tpb < 2147483648" and "nblocks < 2147483648"
  shows "startup (Some (config_text miners pool tpb nblocks)) =
    (if nblocks < 2 then Inl (Inr TooFewBlocks)
     else if miners = 0 then Inl (Inr NoMiners)
     else if pool = 0 then Inl (Inr EmptyPool)
     else if tpb = 0 then Inl (Inr EmptyBlocks)
     else Inr \<lparr>NUM_MINERS = word_of_nat miners, TRANSACTION_POOL_SIZE = word_of_nat pool,
               TRANSACTIONS_PER_BLOCK = word_of_nat tpb, BLOCKCHAIN_BLOCKS = word_of_nat nblocks\<rparr>)"
proof -
  have big: "(2147483648 :: nat) \<le> 10 ^ 100" by simp
  have num: "atoi (dec_nat n) = word_of_nat n" "sint (word_of_nat n :: c_int) = int n"
    if "n < 2147483648" for n
    using that by (simp_all add: atoi_dec_nat long_sat_def signed_of_nat signed_take_bit_int_eq_self)
  have tpb: "scast (word_of_nat tpb :: c_int) = (word_of_nat tpb :: c_size)"
    "unat (word_of_nat tpb :: c_size) = tpb"
    using assms(3) num(2) [OF assms(3)] by (simp_all add: scast_eq unat_of_nat_64)
  have "parse_config (Some (config_text miners pool tpb nblocks)) =
    Inr \<lparr>NUM_MINERS = word_of_nat miners, TRANSACTION_POOL_SIZE = word_of_nat pool,
         TRANSACTIONS_PER_BLOCK = word_of_nat tpb, BLOCKCHAIN_BLOCKS = word_of_nat nblocks\<rparr>"
    using parse_config_text [of miners pool tpb nblocks] assms big num(1) tpb(1) by simp
  then show ?thesis
    using num(2) [OF assms(1)] num(2) [OF assms(2)] num(2) [OF assms(4)] tpb(2)
    by (simp add: startup_def check_config_def)
qed

theorem config_roundtrip_witness:
  "startup (Some (config_text 5 50 10 50000)) =
     Inr \<lparr>NUM_MINERS = 5, TRANSACTION_POOL_SIZE = 50, TRANSACTIONS_PER_BLOCK = 10, BLOCKCHAIN_BLOCKS = 50000\<rparr>
   \<and> startup (Some (config_text 5 50 0 50000)) = Inl (Inr EmptyBlocks)"
  using config_roundtrip [of 5 50 10 50000] config_roundtrip [of 5 50 0 50000] by simp

text \<open>The check for digits does not keep numbers out that do not fit in an \<open>int\<close>: they wrap around.
  With \<open>TRANSACTIONS_PER_BLOCK=4294967295\<close> the controller starts with \<open>2 ^ 64 - 1\<close> transactions per
  block, and a number of miners of \<open>2 ^ 32 + n\<close> is read as \<open>n\<close>.\<close>

theorem config_overflow_accepted:
  assumes "0 < n" and "n < 2147483648"
  shows "startup (Some (config_text (4294967296 + n) 50 4294967295 2)) =
    Inr \<lparr>NUM_MINERS = word_of_nat n, TRANSACTION_POOL_SIZE = 50, TRANSACTIONS_PER_BLOCK = - 1, BLOCKCHAIN_BLOCKS = 2\<rparr>"
proof -
  have big: "(4294967296 + 2147483648 :: nat) \<le> 10 ^ 100" by simp
  have n: "atoi (dec_nat (4294967296 + n)) = word_of_nat n" "sint (word_of_nat n :: c_int) = int n"
    using assms by (simp_all add: atoi_dec_nat long_sat_def signed_of_nat signed_take_bit_int_eq_self)
  have t: "atoi (dec_nat 4294967295) = - 1" "atoi (dec_nat 50) = 50" "atoi (dec_nat 2) = 2"
    by (simp_all add: atoi_dec_nat long_sat_def)
  have "parse_config (Some (config_text (4294967296 + n) 50 4294967295 2)) =
    Inr \<lparr>NUM_MINERS = word_of_nat n, TRANSACTION_POOL_SIZE = 50, TRANSACTIONS_PER_BLOCK = - 1, BLOCKCHAIN_BLOCKS = 2\<rparr>"
    using parse_config_text [of "4294967296 + n" 50 4294967295 2] assms big n(1) t by simp
  moreover have "0 < unat (- 1 :: c_size)" by (simp add: unat_gt_0)
  ultimately show ?thesis
    using n(2) assms(1) by (simp add: startup_def check_config_def)
qed

theorem config_overflow_accepted_witness:
  "startup (Some (config_text 4294967297 50 4294967295 2)) =
    Inr \<lparr>NUM_MINERS = 1, TRANSACTION_POOL_SIZE = 50, TRANSACTIONS_PER_BLOCK = - 1, BLOCKCHAIN_BLOCKS = 2\<rparr>"
  using config_overflow_accepted [of 1] by simp

end
