(* ===== verification/Rounding.thy ===== *)
theory Rounding
  imports Prelude
begin

text \<open>
  The floating-point arithmetic the program performs, on non-negative numbers. A rounded number
  is a pair \<open>(m, k)\<close> that stands for \<open>m * 2^(-k)\<close>; \<open>fp_round p a b\<close> is the quotient \<open>a / b\<close> rounded to
  \<open>p\<close> significant bits, ties to even: \<open>p = 24\<close> is \<open>float\<close> and \<open>p = 53\<close> is \<open>double\<close>. The program's
  numbers are far from the ends of the exponent range, so neither subnormals nor overflow occur.
  The lemmas bound the rounding error and place a rounded ratio relative to a threshold.
\<close>

type_synonym fp = "nat \<times> int"

text \<open>Integer division rounded to the nearest integer, ties to even.\<close>

definition rne_div :: "nat \<Rightarrow> nat \<Rightarrow> nat" where
  "rne_div a b =
     (let q = a div b; r = a mod b
      in if 2 * r < b then q else if b < 2 * r then q + 1 else if even q then q else q + 1)"

text \<open>How often \<open>a\<close> must be doubled to reach \<open>2^(p-1) * b\<close>, and how often \<open>b\<close> must be doubled until
  \<open>a < 2^p * b\<close>.\<close>

function up_steps :: "nat \<Rightarrow> nat \<Rightarrow> nat \<Rightarrow> nat" where
  "up_steps p a b = (if 0 < a \<and> a < 2 ^ (p - 1) * b then Suc (up_steps p (2 * a) b) else 0)"
  by pat_completeness auto
termination
  by (relation "measure (\<lambda>(p, a, b). 2 ^ (p - 1) * b - a)") auto

function down_steps :: "nat \<Rightarrow> nat \<Rightarrow> nat \<Rightarrow> nat" where
  "down_steps p a b = (if 0 < b \<and> 2 ^ p * b \<le> a then Suc (down_steps p a (2 * b)) else 0)"
  by pat_completeness auto
termination
proof (relation "measure (\<lambda>(p, a, b). Suc a - b)")
  fix p a b :: nat
  assume c: "0 < b \<and> 2 ^ p * b \<le> a"
  have "1 * b \<le> 2 ^ p * b" by (intro mult_le_mono1) simp
  with c have "b \<le> a" by linarith
  with c have "Suc a - 2 * b < Suc a - b" by arith
  then show "((p, a, 2 * b), p, a, b) \<in> measure (\<lambda>(p, a, b). Suc a - b)"
    by (simp only: in_measure prod.case)
qed simp

declare up_steps.simps [simp del] down_steps.simps [simp del]

definition fp_round :: "nat \<Rightarrow> nat \<Rightarrow> nat \<Rightarrow> fp" where
  "fp_round p a b =
     (if a = 0 then (0, 0)
      else let u = up_steps p a b
      in if 0 < u then (rne_div (a * 2 ^ u) b, int u)
         else let d = down_steps p a b in (rne_div a (b * 2 ^ d), - int d))"

text \<open>The conversions and operations of the source.\<close>

definition f32_of_nat :: "nat \<Rightarrow> fp" where
  "f32_of_nat n = fp_round 24 n 1"

definition f64_of_nat :: "nat \<Rightarrow> fp" where
  "f64_of_nat n = fp_round 53 n 1"

fun fp_div :: "nat \<Rightarrow> fp \<Rightarrow> fp \<Rightarrow> fp" where
  "fp_div p (m, k) (n, l) = fp_round p (m * 2 ^ nat (l - k)) (n * 2 ^ nat (k - l))"

text \<open>Narrowing a \<open>double\<close> to a \<open>float\<close>, and the bit pattern of a normal \<open>float\<close> (or of zero).\<close>

fun f32_of_f64 :: "fp \<Rightarrow> fp" where
  "f32_of_f64 (m, k) = fp_round 24 (m * 2 ^ nat (- k)) (2 ^ nat k)"

fun f32_bits :: "fp \<Rightarrow> 32 word" where
  "f32_bits (m, k) = (if m = 0 then 0 else word_of_int ((149 - k) * 2 ^ 23 + int m))"

text \<open>The \<open>double\<close> nearest to an integer, itself an integer.\<close>

definition f64_of_int :: "int \<Rightarrow> int" where
  "f64_of_int i =
     (case fp_round 53 (nat \<bar>i\<bar>) 1 of (m, k) \<Rightarrow>
        sgn i * (if 0 \<le> k then int m div 2 ^ nat k else int m * 2 ^ nat (- k)))"

text \<open>Equality of two \<open>float\<close>s given by their bits: a NaN differs from everything, the two zeros
  are equal.\<close>

definition f32_is_nan :: "32 word \<Rightarrow> bool" where
  "f32_is_nan w \<longleftrightarrow> 2139095040 < unat w mod 2147483648"

definition f32_eq :: "32 word \<Rightarrow> 32 word \<Rightarrow> bool" where
  "f32_eq a b \<longleftrightarrow> \<not> f32_is_nan a \<and> \<not> f32_is_nan b \<and>
     (a = b \<or> unat a mod 2147483648 = 0 \<and> unat b mod 2147483648 = 0)"

fun fp_le :: "fp \<Rightarrow> fp \<Rightarrow> bool" where
  "fp_le (m, k) (n, l) \<longleftrightarrow> m * 2 ^ nat (l - k) \<le> n * 2 ^ nat (k - l)"

definition fp_lt :: "fp \<Rightarrow> fp \<Rightarrow> bool" where
  "fp_lt x y \<longleftrightarrow> \<not> fp_le y x"

section \<open>Rounding to nearest\<close>

lemma rne_div_upper: "0 < b \<Longrightarrow> 2 * rne_div a b * b \<le> 2 * a + b"
proof -
  assume b: "0 < b"
  have a: "a = a div b * b + a mod b" by simp
  have "2 * (a div b) * b + 2 * (a mod b) = 2 * a" using a by (metis add_mult_distrib2 mult.assoc)
  then show ?thesis
    unfolding rne_div_def Let_def by (auto simp: algebra_simps)
qed

lemma rne_div_lower: "0 < b \<Longrightarrow> 2 * a \<le> 2 * rne_div a b * b + b"
proof -
  assume b: "0 < b"
  have "2 * (a div b) * b + 2 * (a mod b) = 2 * a"
    by (metis add_mult_distrib2 div_mult_mod_eq mult.assoc)
  moreover have "a mod b < b" using b by simp
  ultimately show ?thesis
    unfolding rne_div_def Let_def by (auto simp: algebra_simps)
qed

lemma rne_div_unique: "2 * a < 2 * q * b + b \<Longrightarrow> 2 * q * b < 2 * a + b \<Longrightarrow> rne_div a b = q"
proof -
  assume a: "2 * a < 2 * q * b + b" "2 * q * b < 2 * a + b"
  then have b: "0 < b" by (cases b) simp_all
  have "2 * rne_div a b * b < 2 * (q + 1) * b" using rne_div_upper [OF b, of a] a(1) by (simp add: algebra_simps)
  then have "rne_div a b < q + 1" by (simp only: mult_less_cancel2) simp
  have "2 * q * b < 2 * (rne_div a b + 1) * b" using rne_div_lower [OF b, of a] a(2) by (simp add: algebra_simps)
  then have "q < rne_div a b + 1" by (simp only: mult_less_cancel2) simp
  with \<open>rne_div a b < q + 1\<close> show ?thesis by simp
qed

lemma rne_div_exact: "0 < b \<Longrightarrow> rne_div (q * b) b = q"
  by (simp add: rne_div_def)

lemma rne_div_1: "rne_div a (Suc 0) = a"
  by (simp add: rne_div_def)

lemma rne_div_le: "0 < b \<Longrightarrow> a \<le> n * b \<Longrightarrow> rne_div a b \<le> n"
proof -
  assume b: "0 < b" and n: "a \<le> n * b"
  show ?thesis
  proof (rule ccontr)
    assume "\<not> rne_div a b \<le> n"
    then have "n + 1 \<le> rne_div a b" by simp
    then have "2 * (n + 1) * b \<le> 2 * rne_div a b * b" by (intro mult_le_mono) auto
    with rne_div_upper [OF b, of a] have "2 * (n + 1) * b \<le> 2 * a + b" by linarith
    with n b show False by (simp add: algebra_simps)
  qed
qed

section \<open>Scaling\<close>

lemma up_steps_eq:
  "0 < a \<Longrightarrow> a * 2 ^ u < 2 ^ p * b \<Longrightarrow> 2 ^ (p - 1) * b \<le> a * 2 ^ u \<Longrightarrow> 0 < p \<Longrightarrow> up_steps p a b = u"
proof (induction u arbitrary: a)
  case 0
  then show ?case by (simp add: up_steps.simps)
next
  case (Suc u)
  have "a * 2 ^ u * 2 < 2 ^ (p - 1) * b * 2"
    using Suc.prems(2,4) by (cases p) (simp_all add: algebra_simps)
  then have "a * 2 ^ u < 2 ^ (p - 1) * b" by simp
  then have "a < 2 ^ (p - 1) * b"
    using le_less_trans [of a "a * 2 ^ u"] by simp
  moreover have "up_steps p (2 * a) b = u"
    using Suc.prems by (intro Suc.IH) (simp_all add: algebra_simps)
  ultimately show ?case using Suc.prems(1) by (simp add: up_steps.simps [of p a])
qed

lemma down_steps_0: "a < 2 ^ p * b \<Longrightarrow> down_steps p a b = 0"
  by (simp add: down_steps.simps)

text \<open>In the binade of \<open>u\<close>: the rounded value is an integer of \<open>p\<close> bits over \<open>2^u\<close>.\<close>

lemma fp_round_binade:
  assumes "0 < a" and "0 < p" and "2 ^ (p - 1) * b \<le> a * 2 ^ u" and "a * 2 ^ u < 2 ^ p * b"
  shows "fp_round p a b = (rne_div (a * 2 ^ u) b, int u)"
proof (cases "u = 0")
  case True
  with assms up_steps_eq [of a u p b] down_steps_0 [of a p b] show ?thesis
    by (simp add: fp_round_def)
next
  case False
  with assms up_steps_eq [of a u p b] show ?thesis
    by (simp add: fp_round_def)
qed

text \<open>Every positive ratio below \<open>2^p\<close> lies in a binade.\<close>

lemma binade_ex:
  fixes a b :: nat
  assumes "0 < a" and "a < 2 ^ p * b" and "0 < p"
  shows "\<exists>u. 2 ^ (p - 1) * b \<le> a * 2 ^ u \<and> a * 2 ^ u < 2 ^ p * b"
  using assms
proof (induction "2 ^ (p - 1) * b - a" arbitrary: a rule: less_induct)
  case less
  show ?case
  proof (cases "2 ^ (p - 1) * b \<le> a")
    case True
    with less.prems show ?thesis by (intro exI [of _ 0]) simp
  next
    case False
    then have "2 * a < 2 * (2 ^ (p - 1) * b)" by simp
    also have "\<dots> = 2 ^ p * b" using less.prems(3) by (cases p) auto
    finally have l: "2 * a < 2 ^ p * b" .
    have "2 ^ (p - 1) * b - 2 * a < 2 ^ (p - 1) * b - a"
      using False less.prems(1) by linarith
    from less.hyps [OF this _ l less.prems(3)] less.prems(1) obtain u
      where "2 ^ (p - 1) * b \<le> 2 * a * 2 ^ u" and "2 * a * 2 ^ u < 2 ^ p * b" by auto
    then show ?thesis by (intro exI [of _ "Suc u"]) (simp add: algebra_simps)
  qed
qed

lemma f32_of_nat_exact:
  assumes "0 < n" and "n < 2 ^ 24"
  shows "\<exists>u. f32_of_nat n = (n * 2 ^ u, int u)"
proof -
  obtain u where u: "2 ^ (24 - 1) * 1 \<le> n * 2 ^ u" "n * 2 ^ u < 2 ^ 24 * 1"
    using binade_ex [of n 24 1] assms by auto
  from fp_round_binade [OF assms(1) _ u] have "f32_of_nat n = (n * 2 ^ u, int u)"
    by (simp add: f32_of_nat_def rne_div_1)
  then show ?thesis by blast
qed

lemma f64_of_int_exact:
  assumes "\<bar>i\<bar> < 2 ^ 53"
  shows "f64_of_int i = i"
proof (cases "i = 0")
  case True
  then show ?thesis by (simp add: f64_of_int_def fp_round_def)
next
  case False
  let ?n = "nat \<bar>i\<bar>"
  have n: "0 < ?n" "?n < 2 ^ 53" using assms False by (simp_all add: nat_less_iff)
  obtain u where u: "2 ^ (53 - 1) * 1 \<le> ?n * 2 ^ u" "?n * 2 ^ u < 2 ^ 53 * 1"
    using binade_ex [of ?n 53 1] n by auto
  from fp_round_binade [OF n(1) _ u] have "fp_round 53 ?n 1 = (?n * 2 ^ u, int u)"
    by (simp add: rne_div_1)
  then have "f64_of_int i = sgn i * \<bar>i\<bar>" by (simp add: f64_of_int_def)
  then show ?thesis by (simp add: sgn_mult_abs)
qed

text \<open>A rounded ratio below \<open>2^p\<close>, and the bits of a \<open>float\<close> that is a number.\<close>

lemma fp_round_nonneg:
  assumes "0 < a" and "a < 2 ^ p * b" and "0 < p" and "0 < b"
  obtains u m where "fp_round p a b = (m, int u)" and "m \<le> 2 ^ p" and "2 ^ (p - 1) \<le> m" and "2 ^ (p - 1) * b \<le> a * 2 ^ u" and "a * 2 ^ u < 2 ^ p * b"
proof -
  obtain u where u: "2 ^ (p - 1) * b \<le> a * 2 ^ u" "a * 2 ^ u < 2 ^ p * b" using binade_ex [OF assms(1-3)] by blast
  have "rne_div (a * 2 ^ u) b \<le> 2 ^ p" using rne_div_le [OF assms(4)] u(2) by simp
  moreover have "2 ^ (p - 1) \<le> rne_div (a * 2 ^ u) b"
  proof -
    have "2 ^ (p - 1) \<le> (a * 2 ^ u) div b" using u(1) assms(4) by (simp add: less_eq_div_iff_mult_less_eq)
    also have "\<dots> \<le> rne_div (a * 2 ^ u) b" by (simp add: rne_div_def Let_def)
    finally show ?thesis .
  qed
  ultimately show thesis using that [OF fp_round_binade [OF assms(1,3) u]] u by blast
qed

lemma f32_bits_number:
  assumes "m \<le> 2 ^ 24" and "u \<le> 149"
  shows "\<not> f32_is_nan (f32_bits (m, int u))"
proof (cases "m = 0")
  case True
  then show ?thesis by (simp add: f32_is_nan_def)
next
  case False
  let ?i = "(149 - int u) * 2 ^ 23 + int m"
  have "0 \<le> ?i" "?i \<le> 149 * 2 ^ 23 + 2 ^ 24" using assms by simp_all
  then obtain n where n: "?i = int n" by (metis zero_le_imp_eq_int)
  have le: "n \<le> 1266679808" using \<open>?i \<le> _\<close> unfolding n by simp
  have "n < 2 ^ LENGTH(32)" using le by (rule le_less_trans) simp
  then have "unat (word_of_nat n :: 32 word) = n" by (simp only: unat_of_nat mod_less)
  moreover have "f32_bits (m, int u) = word_of_nat n"
    using False by (simp only: f32_bits.simps if_False n of_int_of_nat_eq)
  ultimately have "unat (f32_bits (m, int u)) = n" by (simp only:)
  with le show ?thesis by (simp only: f32_is_nan_def)
qed

end
