(* ===== verification/Launcher.thy ===== *)
theory Launcher
  imports SharedTypes Rounding
begin

text \<open>
  The thread of the controller that scales the validators (\<open>src/Controller.c\<close>,
  \<open>validator_launcher\<close>): one tick is one pass through its loop. It ends the simulation when the
  ledger is full, starts the second and the third validator when the pool fills up and stops them
  when it empties. The occupancy is a \<open>float\<close> quotient compared with \<open>double\<close> literals, all
  rounded as IEEE 754 prescribes. The results of \<open>fork\<close>, \<open>kill\<close> and \<open>waitpid\<close> are inputs;
  what the tick asks of the system is a list of actions. The lemmas give the thresholds as exact
  fractions, the effect of a tick in every band, and what becomes of a failed \<open>fork\<close>.
\<close>

section \<open>One tick\<close>

record Launcher =
  validator2 :: c_int
  validator3 :: c_int
  stop_thread :: bool

record TickEnv =
  fork2 :: c_int
  fork3 :: c_int
  kill_ok2 :: bool
  kill_ok3 :: bool
  wait_now2 :: c_int
  wait_now3 :: c_int
  wait_later2 :: c_int
  wait_later3 :: c_int

datatype Action = Fork nat | Terminate c_int | SelfInterrupt

text \<open>\<open>(float)pool->count / TRANSACTION_POOL_SIZE\<close> and the literals it is compared with.\<close>

definition occupancy :: "c_uint \<Rightarrow> c_int \<Rightarrow> fp" where
  "occupancy pool_cnt psize = fp_div 24 (f32_of_nat (unat pool_cnt)) (f32_of_nat (nat (sint psize)))"

definition double_tenths :: "nat \<Rightarrow> fp" where
  "double_tenths n = fp_round 53 n 10"

definition at_least_60 :: "fp \<Rightarrow> bool" where "at_least_60 x \<longleftrightarrow> fp_le (double_tenths 6) x"
definition above_80 :: "fp \<Rightarrow> bool" where "above_80 x \<longleftrightarrow> fp_lt (double_tenths 8) x"
definition below_40 :: "fp \<Rightarrow> bool" where "below_40 x \<longleftrightarrow> fp_lt x (double_tenths 4)"

text \<open>Starting a validator in a slot: \<open>fork\<close> only when the slot is 0; its result is stored as it is.\<close>

definition launch :: "nat \<Rightarrow> c_int \<Rightarrow> c_int \<Rightarrow> c_int \<times> Action list" where
  "launch n slot forked = (if slot = 0 then (forked, [Fork n]) else (slot, []))"

text \<open>Stopping the validator of a slot, and collecting it afterwards if it was still running.\<close>

definition stop_validator :: "c_int \<Rightarrow> bool \<Rightarrow> c_int \<Rightarrow> c_int \<times> Action list" where
  "stop_validator slot killed waited =
     (if 0 < sint slot
      then (if killed \<and> 0 < sint waited then 0 else slot, [Terminate slot])
      else (slot, []))"

definition collect :: "c_int \<Rightarrow> c_int \<Rightarrow> c_int" where
  "collect slot waited = (if 0 < sint slot \<and> 0 < sint waited then 0 else slot)"

definition tick :: "Config \<Rightarrow> TickEnv \<Rightarrow> c_uint \<Rightarrow> c_uint \<Rightarrow> Launcher \<Rightarrow> Launcher \<times> Action list" where
  "tick cfg env pool_cnt ledger_cnt st =
     (if BLOCKCHAIN_BLOCKS cfg \<le> ledger_cnt then (st\<lparr>stop_thread := True\<rparr>, [SelfInterrupt])
      else let occ = occupancy pool_cnt (TRANSACTION_POOL_SIZE cfg)
      in if at_least_60 occ
         then (case launch 2 (validator2 st) (fork2 env) of (v2, a2) \<Rightarrow>
                 if above_80 occ
                 then (case launch 3 (validator3 st) (fork3 env) of (v3, a3) \<Rightarrow>
                         (st\<lparr>validator2 := v2, validator3 := v3\<rparr>, a2 @ a3))
                 else (st\<lparr>validator2 := v2\<rparr>, a2))
         else if below_40 occ
         then (case stop_validator (validator2 st) (kill_ok2 env) (wait_now2 env) of (v2, a2) \<Rightarrow>
               case stop_validator (validator3 st) (kill_ok3 env) (wait_now3 env) of (v3, a3) \<Rightarrow>
                 (st\<lparr>validator2 := collect v2 (wait_later2 env),
                     validator3 := collect v3 (wait_later3 env)\<rparr>, a2 @ a3))
         else (st, []))"

text \<open>The loop over a list of ticks: it ends when \<open>stop_thread\<close> is set.\<close>

fun run_ticks :: "Config \<Rightarrow> (TickEnv \<times> c_uint \<times> c_uint) list \<Rightarrow> Launcher \<Rightarrow> Launcher \<times> Action list" where
  "run_ticks cfg [] st = (st, [])"
| "run_ticks cfg ((env, p, l) # ts) st =
     (if stop_thread st then (st, [])
      else case tick cfg env p l st of (st', as) \<Rightarrow>
        (case run_ticks cfg ts st' of (st'', bs) \<Rightarrow> (st'', as @ bs)))"

section \<open>The thresholds\<close>

text \<open>The rounded quotient of two integers that a \<open>float\<close> holds exactly.\<close>

lemma fp_div_exact:
  assumes "0 < c" and "c < 2 ^ 24 * s" and "c < 2 ^ 24" and "0 < s" and "s < 2 ^ 24"
  obtains u m where "fp_div 24 (f32_of_nat c) (f32_of_nat s) = (m, int u)"
    and "2 ^ 23 * s \<le> c * 2 ^ u" and "c * 2 ^ u < 2 ^ 24 * s"
    and "2 * m * s \<le> 2 * (c * 2 ^ u) + s" and "2 * (c * 2 ^ u) \<le> 2 * m * s + s"
proof -
  obtain x where x: "f32_of_nat c = (c * 2 ^ x, int x)" using f32_of_nat_exact [OF assms(1,3)] by blast
  obtain y where y: "f32_of_nat s = (s * 2 ^ y, int y)" using f32_of_nat_exact [OF assms(4,5)] by blast
  define z where "z = max x y"
  have "x + nat (int y - int x) = z" "y + nat (int x - int y) = z" by (simp_all add: z_def)
  then have q: "fp_div 24 (f32_of_nat c) (f32_of_nat s) = fp_round 24 (c * 2 ^ z) (s * 2 ^ z)"
    by (simp add: x y mult.assoc power_add [symmetric])
  obtain u where u: "2 ^ (24 - 1) * s \<le> c * 2 ^ u" "c * 2 ^ u < 2 ^ 24 * s"
    using binade_ex [OF assms(1,2)] by auto
  have scale: "k * (s * 2 ^ z) = k * s * 2 ^ z" "c * 2 ^ z * 2 ^ u = c * 2 ^ u * 2 ^ z" for k
    by (simp_all add: algebra_simps)
  define m where "m = rne_div (c * 2 ^ z * 2 ^ u) (s * 2 ^ z)"
  have r: "fp_round 24 (c * 2 ^ z) (s * 2 ^ z) = (m, int u)"
    unfolding m_def by (rule fp_round_binade) (use assms(1) u in \<open>simp_all add: scale\<close>)
  have "2 * m * (s * 2 ^ z) \<le> 2 * (c * 2 ^ z * 2 ^ u) + s * 2 ^ z"
    "2 * (c * 2 ^ z * 2 ^ u) \<le> 2 * m * (s * 2 ^ z) + s * 2 ^ z"
    unfolding m_def using assms(4) rne_div_upper [of "s * 2 ^ z" "c * 2 ^ z * 2 ^ u"]
      rne_div_lower [of "s * 2 ^ z" "c * 2 ^ z * 2 ^ u"] by simp_all
  then have "(2 * m * s) * 2 ^ z \<le> (2 * (c * 2 ^ u) + s) * 2 ^ z"
    "(2 * (c * 2 ^ u)) * 2 ^ z \<le> (2 * m * s + s) * 2 ^ z"
    by (simp_all add: algebra_simps)
  then have "2 * m * s \<le> 2 * (c * 2 ^ u) + s" "2 * (c * 2 ^ u) \<le> 2 * m * s + s"
    by (simp_all only: mult_le_cancel2) simp_all
  with that [of m u] q r u show thesis by simp
qed

lemma double_tenths_values:
  "double_tenths 6 = (5404319552844595, 53)" "double_tenths 8 = (7205759403792794, 53)"
  "double_tenths 4 = (7205759403792794, 54)"
proof -
  have "fp_round 53 6 10 = (rne_div (6 * 2 ^ 53) 10, int 53)"
    "fp_round 53 8 10 = (rne_div (8 * 2 ^ 53) 10, int 53)"
    "fp_round 53 4 10 = (rne_div (4 * 2 ^ 54) 10, int 54)"
    by (rule fp_round_binade; simp)+
  then show "double_tenths 6 = (5404319552844595, 53)" "double_tenths 8 = (7205759403792794, 53)"
    "double_tenths 4 = (7205759403792794, 54)"
    by (simp_all add: double_tenths_def rne_div_def Let_def)
qed

text \<open>A quotient in the unit interval: its scale, and where its 24-bit significand lies.\<close>

lemma quotient_cases:
  assumes "0 < c" and "c \<le> s" and "s \<le> 2 ^ 23"
  obtains u m where "fp_div 24 (f32_of_nat c) (f32_of_nat s) = (m, int u)"
    and "2 ^ 23 * s \<le> c * 2 ^ u" and "c * 2 ^ u < 2 ^ 24 * s" and "23 \<le> u"
    and "2 ^ 23 \<le> m" and "m \<le> 2 ^ 24"
    and "2 * m * s \<le> 2 * (c * 2 ^ u) + s" and "2 * (c * 2 ^ u) \<le> 2 * m * s + s"
proof -
  have "c < 2 ^ 24 * s" "c < 2 ^ 24" "s < 2 ^ 24" "0 < s" using assms by simp_all
  from fp_div_exact [OF assms(1) this(1,2,4,3)] obtain u m where
    q: "fp_div 24 (f32_of_nat c) (f32_of_nat s) = (m, int u)"
    and lo: "2 ^ 23 * s \<le> c * 2 ^ u" and hi: "c * 2 ^ u < 2 ^ 24 * s"
    and up: "2 * m * s \<le> 2 * (c * 2 ^ u) + s" and dn: "2 * (c * 2 ^ u) \<le> 2 * m * s + s" .
  have "c * 2 ^ u \<le> 2 ^ u * s" using mult_le_mono1 [OF assms(2), of "2 ^ u"] by (simp only: mult.commute)
  with lo have "2 ^ 23 * s \<le> 2 ^ u * s" by (rule le_trans)
  then have "(2 :: nat) ^ 23 \<le> 2 ^ u" using \<open>0 < s\<close> by (simp only: mult_le_cancel2)
  then have u: "23 \<le> u" by (rule power_le_imp_le_exp [rotated]) simp
  have "8388608 * s \<le> c * 2 ^ u" "c * 2 ^ u < 16777216 * s" using lo hi by simp_all
  then have "16777216 * s \<le> 2 * m * s + s" "2 * m * s < 33554432 * s + s" using dn up by linarith+
  then have "2 ^ 24 * s \<le> 2 * m * s + s" and top: "2 * m * s < 2 ^ 25 * s + s" by simp_all
  then have "2 ^ 24 * s \<le> (2 * m + 1) * s" by (simp only: distrib_right mult_1)
  then have "2 ^ 24 \<le> 2 * m + 1" using \<open>0 < s\<close> by (simp only: mult_le_cancel2)
  then have m: "2 ^ 23 \<le> m" by simp
  from top have "2 * m * s < (2 ^ 25 + 1) * s" by (simp only: distrib_right mult_1)
  then have "2 * m < 2 ^ 25 + 1" by (simp only: mult_less_cancel2)
  then have "m \<le> 2 ^ 24" by simp
  with that q lo hi u m up dn show thesis by blast
qed

text \<open>A significand against a multiple of a tenth, in the scale where it matters. The gap between
  \<open>c / s\<close> and the fraction is at least \<open>1 / (5 s)\<close>, more than the rounding can bridge.\<close>

lemma significand_below:
  fixes c s k m u :: nat
  assumes "2 * m * s \<le> 2 * (c * 2 ^ u) + s" and "5 * c + 1 \<le> k * s" and "s \<le> 2 ^ 23" and "24 \<le> u"
  shows "10 * m \<le> 2 * k * 2 ^ u + 1"
proof -
  have s: "0 < s" using assms(2) by (cases s) simp_all
  have "(2 :: nat) ^ 24 \<le> 2 ^ u" using assms(4) by (intro power_increasing) simp_all
  then have "2 * s \<le> 2 ^ u" using assms(3) by simp
  moreover have "2 * 2 ^ u * (5 * c + 1) \<le> 2 * 2 ^ u * (k * s)" using assms(2) by (intro mult_le_mono2)
  then have "10 * (c * 2 ^ u) + 2 * 2 ^ u \<le> 2 * k * 2 ^ u * s" by (simp add: algebra_simps)
  moreover have "10 * m * s \<le> 10 * (c * 2 ^ u) + 5 * s" using assms(1) by (simp add: algebra_simps)
  ultimately have "10 * m * s \<le> 2 * k * 2 ^ u * s + s" by linarith
  then have "10 * m * s \<le> (2 * k * 2 ^ u + 1) * s" by (simp add: algebra_simps)
  then show ?thesis using s by (simp only: mult_le_cancel2)
qed

lemma significand_above:
  fixes c s k m u :: nat
  assumes "2 * (c * 2 ^ u) \<le> 2 * m * s + s" and "k * s \<le> 5 * c" and "0 < s"
  shows "2 * k * 2 ^ u \<le> 10 * m + 5"
proof -
  have "2 * 2 ^ u * (k * s) \<le> 2 * 2 ^ u * (5 * c)" using assms(2) by (intro mult_le_mono2)
  then have "2 * k * 2 ^ u * s \<le> 5 * (2 * (c * 2 ^ u))" by (simp add: algebra_simps)
  also have "\<dots> \<le> 5 * (2 * m * s + s)" using assms(1) by (intro mult_le_mono2)
  finally have "2 * k * 2 ^ u * s \<le> (10 * m + 5) * s" by (simp add: algebra_simps)
  then show ?thesis using assms(3) by (simp only: mult_le_cancel2)
qed

lemma scale_ge:
  fixes c s u k :: nat
  shows "k \<le> u \<Longrightarrow> 2 ^ 23 * s \<le> c * 2 ^ u \<Longrightarrow> c * 2 ^ u < 2 ^ 24 * s \<Longrightarrow> c * 2 ^ k < 2 ^ 24 * s"
proof -
  assume "k \<le> u" and "c * 2 ^ u < 2 ^ 24 * s"
  moreover from this have "c * 2 ^ k \<le> c * 2 ^ u" by (intro mult_le_mono2 power_increasing) simp_all
  ultimately show "c * 2 ^ k < 2 ^ 24 * s" by linarith
qed

text \<open>A scale of 25 or more: the value is at most one half; 26 or more: one quarter.\<close>

lemma small_quotient:
  fixes m u k :: nat
  assumes "k \<le> u" and "m \<le> 2 ^ 24" and "24 \<le> k" and "k \<le> 53"
  shows "m * 2 ^ nat (53 - int u) \<le> 2 ^ (77 - k)"
proof -
  have "nat (53 - int u) \<le> 53 - k" using assms(1) by simp
  then have "m * 2 ^ nat (53 - int u) \<le> 2 ^ 24 * 2 ^ (53 - k)"
    by (intro mult_le_mono assms(2) power_increasing) simp_all
  also have "\<dots> = 2 ^ (24 + (53 - k))" by (simp only: power_add)
  also have "24 + (53 - k) = 77 - k" using assms(4) by simp
  finally show ?thesis .
qed

lemma occupancy_60:
  assumes "c \<le> s" and "0 < s" and "s \<le> 2 ^ 23"
  shows "at_least_60 (fp_div 24 (f32_of_nat c) (f32_of_nat s)) \<longleftrightarrow> 3 * s \<le> 5 * c"
proof (cases "c = 0")
  case True
  then show ?thesis
    using assms by (cases "f32_of_nat s")
      (simp add: at_least_60_def double_tenths_values f32_of_nat_def fp_round_def)
next
  case False
  then have "0 < c" by simp
  from quotient_cases [OF this assms(1,3)] obtain u m where
    q: "fp_div 24 (f32_of_nat c) (f32_of_nat s) = (m, int u)"
    and lo: "2 ^ 23 * s \<le> c * 2 ^ u" and hi: "c * 2 ^ u < 2 ^ 24 * s" and u: "23 \<le> u"
    and m: "2 ^ 23 \<le> m" "m \<le> 2 ^ 24"
    and up: "2 * m * s \<le> 2 * (c * 2 ^ u) + s" and dn: "2 * (c * 2 ^ u) \<le> 2 * m * s + s" .
  consider "u = 23" | "u = 24" | "25 \<le> u" using u by linarith
  then show ?thesis
  proof cases
    case 1
    then show ?thesis
      using lo m(1) assms(1) unfolding q at_least_60_def double_tenths_values by simp
  next
    case 2
    have "3 * s \<le> 5 * c \<longleftrightarrow> 10066330 \<le> m"
      using significand_below [OF up, of 3] significand_above [OF dn _ assms(2), of 3] assms(3) 2
      by (cases "3 * s \<le> 5 * c") simp_all
    moreover have "5404319552844595 \<le> m * 2 ^ 29 \<longleftrightarrow> 10066330 \<le> m" by auto
    ultimately show ?thesis using 2 unfolding q at_least_60_def double_tenths_values by simp
  next
    case 3
    have c: "c * 2 ^ 25 < 2 ^ 24 * s" by (rule scale_ge [OF 3 lo hi])
    have "m * 2 ^ nat (53 - int u) < 5404319552844595"
      using small_quotient [OF 3 m(2)] by simp
    also have "(5404319552844595 :: nat) \<le> 5404319552844595 * 2 ^ nat (int u - 53)" by simp
    finally have "\<not> 5404319552844595 * 2 ^ nat (int u - 53) \<le> m * 2 ^ nat (53 - int u)"
      by (simp only: not_le)
    with c show ?thesis unfolding q at_least_60_def double_tenths_values by simp
  qed
qed

lemma occupancy_80:
  assumes "c \<le> s" and "0 < s" and "s \<le> 2 ^ 23"
  shows "above_80 (fp_div 24 (f32_of_nat c) (f32_of_nat s)) \<longleftrightarrow> 4 * s \<le> 5 * c"
proof (cases "c = 0")
  case True
  then show ?thesis
    using assms by (cases "f32_of_nat s")
      (simp add: above_80_def fp_lt_def double_tenths_values f32_of_nat_def fp_round_def)
next
  case False
  then have "0 < c" by simp
  from quotient_cases [OF this assms(1,3)] obtain u m where
    q: "fp_div 24 (f32_of_nat c) (f32_of_nat s) = (m, int u)"
    and lo: "2 ^ 23 * s \<le> c * 2 ^ u" and hi: "c * 2 ^ u < 2 ^ 24 * s" and u: "23 \<le> u"
    and m: "2 ^ 23 \<le> m" "m \<le> 2 ^ 24"
    and up: "2 * m * s \<le> 2 * (c * 2 ^ u) + s" and dn: "2 * (c * 2 ^ u) \<le> 2 * m * s + s" .
  consider "u = 23" | "u = 24" | "25 \<le> u" using u by linarith
  then show ?thesis
  proof cases
    case 1
    then show ?thesis
      using lo m(1) assms(1) unfolding q above_80_def fp_lt_def double_tenths_values by simp
  next
    case 2
    have "4 * s \<le> 5 * c \<longleftrightarrow> 13421773 \<le> m"
      using significand_below [OF up, of 4] significand_above [OF dn _ assms(2), of 4] assms(3) 2
      by (cases "4 * s \<le> 5 * c") simp_all
    then show ?thesis using 2 by (auto simp: q above_80_def fp_lt_def double_tenths_values)
  next
    case 3
    have "c * 2 ^ 25 < 2 ^ 24 * s" by (rule scale_ge [OF 3 lo hi])
    moreover have "m * 2 ^ nat (53 - int u) \<le> 7205759403792794"
      using small_quotient [OF 3 m(2)] by simp
    moreover have "(7205759403792794 :: nat) \<le> 7205759403792794 * 2 ^ nat (int u - 53)" by simp
    ultimately have "m * 2 ^ nat (53 - int u) \<le> 7205759403792794 * 2 ^ nat (int u - 53)"
      by (rule_tac le_trans)
    with \<open>c * 2 ^ 25 < 2 ^ 24 * s\<close> show ?thesis
      by (simp add: q above_80_def fp_lt_def double_tenths_values)
  qed
qed

lemma occupancy_40:
  assumes "c \<le> s" and "0 < s" and "s \<le> 2 ^ 23"
  shows "below_40 (fp_div 24 (f32_of_nat c) (f32_of_nat s)) \<longleftrightarrow> 5 * c < 2 * s"
proof (cases "c = 0")
  case True
  then show ?thesis
    using assms by (cases "f32_of_nat s")
      (simp add: below_40_def fp_lt_def double_tenths_values f32_of_nat_def fp_round_def)
next
  case False
  then have "0 < c" by simp
  from quotient_cases [OF this assms(1,3)] obtain u m where
    q: "fp_div 24 (f32_of_nat c) (f32_of_nat s) = (m, int u)"
    and lo: "2 ^ 23 * s \<le> c * 2 ^ u" and hi: "c * 2 ^ u < 2 ^ 24 * s" and u: "23 \<le> u"
    and m: "2 ^ 23 \<le> m" "m \<le> 2 ^ 24"
    and up: "2 * m * s \<le> 2 * (c * 2 ^ u) + s" and dn: "2 * (c * 2 ^ u) \<le> 2 * m * s + s" .
  consider "u = 23 \<or> u = 24" | "u = 25" | "26 \<le> u" using u by linarith
  then show ?thesis
  proof cases
    case 1
    then show ?thesis using lo m(1) assms(1,2) by (auto simp: q below_40_def fp_lt_def double_tenths_values)
  next
    case 2
    have "2 * s \<le> 5 * c \<longleftrightarrow> 13421773 \<le> m"
      using significand_below [OF up, of 2] significand_above [OF dn _ assms(2), of 2] assms(3) 2
      by (cases "2 * s \<le> 5 * c") simp_all
    then show ?thesis using 2 by (auto simp: q below_40_def fp_lt_def double_tenths_values)
  next
    case 3
    have c: "c * 2 ^ 26 < 2 ^ 24 * s" by (rule scale_ge [OF 3 lo hi])
    have "m * 2 ^ nat (54 - int u) \<le> 2 * (m * 2 ^ nat (53 - int u))"
    proof (cases "u \<le> 53")
      case True
      then have "nat (54 - int u) = Suc (nat (53 - int u))" by simp
      then show ?thesis by simp
    qed simp
    also have "\<dots> < 7205759403792794" using small_quotient [OF 3 m(2)] by simp
    also have "(7205759403792794 :: nat) \<le> 7205759403792794 * 2 ^ nat (int u - 54)" by simp
    finally show ?thesis using c by (simp add: q below_40_def fp_lt_def double_tenths_values)
  qed
qed

section \<open>Slots\<close>

lemma launch_failed: "slot \<noteq> 0 \<Longrightarrow> launch n slot f = (slot, [])"
  by (simp add: launch_def)

lemma stop_failed: "sint slot \<le> 0 \<Longrightarrow> stop_validator slot k w = (slot, [])"
  by (simp add: stop_validator_def)

lemma collect_failed: "sint slot \<le> 0 \<Longrightarrow> collect slot w = slot"
  by (simp add: collect_def)

lemmas failed_slot = launch_failed stop_failed collect_failed

lemma tick_failed_slot:
  "sint (validator2 st) < 0 \<Longrightarrow> validator2 (fst (tick cfg env p l st)) = validator2 st"
  "sint (validator3 st) < 0 \<Longrightarrow> validator3 (fst (tick cfg env p l st)) = validator3 st"
proof -
  have ne: "sint s < 0 \<Longrightarrow> s \<noteq> 0" for s :: c_int by auto
  show "sint (validator2 st) < 0 \<Longrightarrow> validator2 (fst (tick cfg env p l st)) = validator2 st"
    using ne by (auto simp: tick_def Let_def failed_slot split: prod.splits)
  show "sint (validator3 st) < 0 \<Longrightarrow> validator3 (fst (tick cfg env p l st)) = validator3 st"
    using ne by (auto simp: tick_def Let_def failed_slot split: prod.splits)
qed

lemma run_ticks_failed_slot:
  "sint (validator2 st) < 0 \<Longrightarrow> validator2 (fst (run_ticks cfg ts st)) = validator2 st"
proof (induction ts arbitrary: st)
  case Nil
  then show ?case by simp
next
  case (Cons t ts)
  obtain env p l where t: "t = (env, p, l)" by (cases t)
  obtain st' as where s: "tick cfg env p l st = (st', as)" by (cases "tick cfg env p l st")
  have "validator2 st' = validator2 st" using tick_failed_slot(1) [OF Cons.prems, of cfg env p l] by (simp add: s)
  moreover from this have "validator2 (fst (run_ticks cfg ts st')) = validator2 st'"
    using Cons.IH Cons.prems by simp
  ultimately show ?case by (cases "run_ticks cfg ts st'") (simp add: t s)
qed

text \<open>A tick interrupts the controller exactly when the ledger is full, and then stops the loop.\<close>

lemma tick_interrupt:
  assumes "tick cfg env p l st = (st', as)"
  shows "if BLOCKCHAIN_BLOCKS cfg \<le> l then stop_thread st' \<and> as = [SelfInterrupt]
    else stop_thread st' = stop_thread st \<and> SelfInterrupt \<notin> set as"
  using assms by (auto simp: tick_def Let_def launch_def stop_validator_def split: if_splits)

lemma run_ticks_stopped: "stop_thread st \<Longrightarrow> run_ticks cfg ts st = (st, [])"
  by (cases ts) auto

lemma run_ticks_full:
  assumes "\<not> stop_thread st" and "(env, p, l) \<in> set ts" and "BLOCKCHAIN_BLOCKS cfg \<le> l"
  shows "\<exists>st' as. run_ticks cfg ts st = (st', as @ [SelfInterrupt]) \<and> stop_thread st' \<and> SelfInterrupt \<notin> set as"
  using assms(1,2)
proof (induction ts arbitrary: st)
  case Nil
  then show ?case by simp
next
  case (Cons t ts)
  obtain e q m where t: "t = (e, q, m)" by (cases t)
  obtain st1 as where s: "tick cfg e q m st = (st1, as)" by (cases "tick cfg e q m st")
  note i = tick_interrupt [OF s]
  show ?case
  proof (cases "BLOCKCHAIN_BLOCKS cfg \<le> m")
    case True
    then have "run_ticks cfg (t # ts) st = (st1, [] @ [SelfInterrupt])"
      using i Cons.prems(1) by (simp add: t s run_ticks_stopped)
    then show ?thesis using i True by fastforce
  next
    case False
    then have "(env, p, l) \<in> set ts" "\<not> stop_thread st1" using Cons.prems assms(3) i t by auto
    with Cons.IH [of st1] obtain st2 bs where
      "run_ticks cfg ts st1 = (st2, bs @ [SelfInterrupt])" "stop_thread st2" "SelfInterrupt \<notin> set bs" by blast
    then have "run_ticks cfg (t # ts) st = (st2, (as @ bs) @ [SelfInterrupt])" "SelfInterrupt \<notin> set (as @ bs)"
      using i False Cons.prems(1) by (simp_all add: t s)
    with \<open>stop_thread st2\<close> show ?thesis by blast
  qed
qed

lemma occupancy_bands:
  assumes "unat pool_cnt \<le> nat (sint psize)" and "0 < sint psize" and "sint psize \<le> 2 ^ 23"
  shows "(at_least_60 (occupancy pool_cnt psize) \<longleftrightarrow> 3 * sint psize \<le> 5 * int (unat pool_cnt)) \<and>
    (above_80 (occupancy pool_cnt psize) \<longleftrightarrow> 4 * sint psize \<le> 5 * int (unat pool_cnt)) \<and>
    (below_40 (occupancy pool_cnt psize) \<longleftrightarrow> 5 * int (unat pool_cnt) < 2 * sint psize)"
proof -
  define c s where "c = unat pool_cnt" and "s = nat (sint psize)"
  have s: "0 < s" "s \<le> 2 ^ 23" "sint psize = int s" using assms(2,3) by (simp_all add: s_def)
  have c: "c \<le> s" using assms(1) by (simp add: c_def s_def)
  have o: "occupancy pool_cnt psize = fp_div 24 (f32_of_nat c) (f32_of_nat s)"
    by (simp add: occupancy_def c_def s_def)
  have "3 * int s \<le> 5 * int c \<longleftrightarrow> 3 * s \<le> 5 * c" "4 * int s \<le> 5 * int c \<longleftrightarrow> 4 * s \<le> 5 * c"
    "5 * int c < 2 * int s \<longleftrightarrow> 5 * c < 2 * s" by linarith+
  then show ?thesis
    unfolding o s(3) c_def [symmetric]
    using occupancy_60 [OF c s(1,2)] occupancy_80 [OF c s(1,2)] occupancy_40 [OF c s(1,2)] by blast
qed

section \<open>Properties\<close>

text \<open>C32: the thresholds of the launcher as exact fractions. For pools of up to \<open>2 ^ 23\<close> slots rounding
  never moves a comparison, except that a pool filled to exactly 80 per cent already counts as above
  80 per cent, because the \<open>float\<close> 0.8 is larger than the \<open>double\<close> 0.8.\<close>

theorem occupancy_thresholds:
  assumes "unat pool_cnt \<le> nat (sint psize)" and "0 < sint psize" and "sint psize \<le> 2 ^ 23"
  shows "(at_least_60 (occupancy pool_cnt psize) \<longleftrightarrow> 3 * sint psize \<le> 5 * int (unat pool_cnt)) \<and>
    (above_80 (occupancy pool_cnt psize) \<longleftrightarrow> 4 * sint psize \<le> 5 * int (unat pool_cnt)) \<and>
    (below_40 (occupancy pool_cnt psize) \<longleftrightarrow> 5 * int (unat pool_cnt) < 2 * sint psize)"
  by (rule occupancy_bands [OF assms])

theorem occupancy_thresholds_witness:
  "above_80 (occupancy 40 50) \<and> \<not> above_80 (occupancy 39 50) \<and> at_least_60 (occupancy 30 50)
   \<and> \<not> below_40 (occupancy 20 50)"
  using occupancy_thresholds [of 40 50] occupancy_thresholds [of 39 50] occupancy_thresholds [of 30 50]
    occupancy_thresholds [of 20 50] by simp


definition busy_config :: Config where
  "busy_config = \<lparr>NUM_MINERS = 5, TRANSACTION_POOL_SIZE = 50, TRANSACTIONS_PER_BLOCK = 10, BLOCKCHAIN_BLOCKS = 100\<rparr>"

definition busy_env :: TickEnv where
  "busy_env = \<lparr>fork2 = 700, fork3 = 701, kill_ok2 = True, kill_ok3 = True, wait_now2 = 0, wait_now3 = 0,
     wait_later2 = 0, wait_later3 = 0\<rparr>"


text \<open>A failed \<open>fork\<close> is never repaired. Its result -1 stays in the slot: whatever happens in later
  ticks the second validator is neither started again nor is the slot freed.\<close>

theorem failed_fork_is_final:
  assumes "validator2 st = - 1"
  shows "validator2 (fst (run_ticks cfg ts st)) = - 1"
  using run_ticks_failed_slot [of st cfg ts] assms by simp

theorem failed_fork_is_final_witness:
  "\<forall>cfg ts. validator2 (fst (run_ticks cfg ts \<lparr>validator2 = - 1, validator3 = 0, stop_thread = False\<rparr>)) = - 1"
  by (intro allI failed_fork_is_final) simp

text \<open>C34: a full ledger ends the simulation. As soon as one tick sees as many blocks as configured the loop
  of the launcher ends, and the last thing it does, and does only once, is to interrupt the controller.\<close>

theorem full_ledger_ends_simulation:
  assumes "\<not> stop_thread st" and "(env, p, l) \<in> set ts" and "BLOCKCHAIN_BLOCKS cfg \<le> l"
  shows "\<exists>st' as. run_ticks cfg ts st = (st', as @ [SelfInterrupt]) \<and> stop_thread st' \<and> SelfInterrupt \<notin> set as"
  using assms by (rule run_ticks_full)

theorem full_ledger_ends_simulation_witness:
  "\<exists>st' as. run_ticks busy_config [(busy_env, 40, 99), (busy_env, 10, 100), (busy_env, 50, 100)]
      \<lparr>validator2 = 0, validator3 = 0, stop_thread = False\<rparr> = (st', as @ [SelfInterrupt]) \<and> stop_thread st'"
  using full_ledger_ends_simulation [of "\<lparr>validator2 = 0, validator3 = 0, stop_thread = False\<rparr>" busy_env 10 100
      "[(busy_env, 40, 99), (busy_env, 10, 100), (busy_env, 50, 100)]" busy_config]
  by (fastforce simp: busy_config_def)

end
