(* ===== verification/ShmLayout.thy ===== *)
theory ShmLayout
  imports SharedTypes
begin

text \<open>
  \<open>src/SHMManagement.c\<close> and the set-up of the two shared memory segments in \<open>main\<close> of
  \<open>src/Controller.c\<close>: the sizes of the segments, their initial contents, and the interfaces
  (structures of pointers) through which every process reaches the data in its own mapping. An
  address is a \<open>64 word\<close>; every interface is computed from the address at which the segment is
  mapped. The lemmas show that the blocks of the ledger are laid out one behind the other, inside
  the segment, and when the \<open>int\<close> that holds the segment's size is exact.
\<close>

section \<open>Interfaces\<close>

record TransactionPoolInterface =
  pi_size :: c_size
  pi_count :: c_size
  pi_num_miners :: "c_size option"  \<comment> \<open>\<open>None\<close>: never set\<close>
  pi_transactions_per_block :: "c_size option"
  pi_transactions :: c_size

record TransactionBlockInterface =
  bi_txb_id :: c_size
  bi_previous_block_hash :: c_size
  bi_timestamp :: c_size
  bi_nonce :: c_size
  bi_transactions :: c_size

record LedgerInterface =
  li_last_block_index :: c_size
  li_last_block_hash :: c_size
  li_num_blocks :: c_size
  li_count :: c_size
  li_blocks :: "TransactionBlockInterface list option"  \<comment> \<open>\<open>None\<close>: a null pointer\<close>

definition field_off :: "(nat \<times> nat) list \<Rightarrow> nat \<Rightarrow> c_size" where
  "field_off fs i = word_of_nat (field_offsets 0 fs ! i)"

definition interfaceTxPool :: "c_size \<Rightarrow> c_size \<Rightarrow> TransactionPoolInterface" where
  "interfaceTxPool shm_base transactions_offset =
     \<lparr>pi_size = shm_base + field_off TransactionPoolSHM_fields 0,
      pi_count = shm_base + field_off TransactionPoolSHM_fields 1,
      pi_num_miners = None, pi_transactions_per_block = None,
      pi_transactions = shm_base + transactions_offset\<rparr>"

definition interfaceTxBlock :: "c_size \<Rightarrow> c_size \<Rightarrow> TransactionBlockInterface" where
  "interfaceTxBlock shm_base block_offset =
     (let shm_block = shm_base + block_offset;
          transactions_offset = word_of_nat sizeof_TransactionBlockSHM
      in \<lparr>bi_txb_id = shm_block + field_off TransactionBlockSHM_fields 0,
          bi_previous_block_hash = shm_block + field_off TransactionBlockSHM_fields 1,
          bi_timestamp = shm_block + field_off TransactionBlockSHM_fields 2,
          bi_nonce = shm_block + field_off TransactionBlockSHM_fields 3,
          bi_transactions = shm_block + transactions_offset\<rparr>)"

text \<open>The loop over the blocks: \<open>n\<close> iterations left, the next block at \<open>blocks_offset\<close>.\<close>

fun ledger_blocks_loop :: "nat \<Rightarrow> c_size \<Rightarrow> c_size \<Rightarrow> c_size \<Rightarrow> TransactionBlockInterface list" where
  "ledger_blocks_loop 0 tpb shm_base blocks_offset = []"
| "ledger_blocks_loop (Suc n) tpb shm_base blocks_offset =
     interfaceTxBlock shm_base blocks_offset #
     ledger_blocks_loop n tpb shm_base
       (blocks_offset + (word_of_nat sizeof_TransactionBlockSHM + tpb * word_of_nat sizeof_Transaction))"

text \<open>\<open>None\<close>: \<open>malloc\<close> failed and the process exits.\<close>

definition interfaceLedger ::
    "bool \<Rightarrow> c_size \<Rightarrow> c_size \<Rightarrow> c_uint \<Rightarrow> c_size \<Rightarrow> LedgerInterface option" where
  "interfaceLedger malloc_ok tpb shm_base nblocks blocks_offset =
     (if \<not> malloc_ok then None
      else Some
       \<lparr>li_last_block_index = shm_base + field_off LedgerSHM_fields 0,
        li_last_block_hash = shm_base + field_off LedgerSHM_fields 1,
        li_num_blocks = shm_base + field_off LedgerSHM_fields 2,
        li_count = shm_base + field_off LedgerSHM_fields 3,
        li_blocks = Some (ledger_blocks_loop (unat nblocks) tpb shm_base blocks_offset)\<rparr>)"

definition freeLedger :: "LedgerInterface option \<Rightarrow> LedgerInterface option" where
  "freeLedger ledger =
     map_option (\<lambda>l. l\<lparr>li_blocks := None, li_last_block_index := 0, li_last_block_hash := 0,
                       li_num_blocks := 0\<rparr>) ledger"

section \<open>Segments\<close>

definition shm_transactionspool_size :: "c_int \<Rightarrow> c_int" where
  "shm_transactionspool_size pool =
     ucast (word_of_nat sizeof_TransactionPoolSHM + scast pool * word_of_nat sizeof_PendingTransaction :: c_size)"

definition shm_ledger_size :: "c_int \<Rightarrow> c_size \<Rightarrow> c_int" where
  "shm_ledger_size nblocks tpb =
     ucast (word_of_nat sizeof_LedgerSHM + scast nblocks * word_of_nat sizeof_TransactionBlockSHM
            + scast nblocks * tpb * word_of_nat sizeof_Transaction :: c_size)"

definition zero_pending :: PendingTransaction where
  "zero_pending = \<lparr>filled = 0, age = 0, tx = zero_tx\<rparr>"

definition init_pool :: "Config \<Rightarrow> TransactionPool" where
  "init_pool cfg =
     \<lparr>pool_size = TRANSACTION_POOL_SIZE cfg, pool_count = 0, pool_num_miners = NUM_MINERS cfg,
      pool_tpb = ucast (TRANSACTIONS_PER_BLOCK cfg),
      slots = replicate (unat (TRANSACTION_POOL_SIZE cfg)) zero_pending\<rparr>"

definition init_ledger :: "Config \<Rightarrow> Ledger" where
  "init_ledger cfg =
     \<lparr>last_block_index = 0, last_block_hash = replicate HASH_SIZE NUL,
      num_blocks = BLOCKCHAIN_BLOCKS cfg, ledger_count = 0,
      blocks = replicate (unat (BLOCKCHAIN_BLOCKS cfg))
                 (zero_block (unat (TRANSACTIONS_PER_BLOCK cfg)))\<rparr>"

section \<open>Offsets\<close>

definition block_stride :: "nat \<Rightarrow> nat" where
  "block_stride t = sizeof_TransactionBlockSHM + t * sizeof_Transaction"

definition ledger_bytes :: "nat \<Rightarrow> nat \<Rightarrow> nat" where
  "ledger_bytes n t = sizeof_LedgerSHM + n * block_stride t"

lemmas block_offsets = field_off_def TransactionBlockSHM_fields_def align_up_def TXB_ID_LEN_def HASH_SIZE_def

lemma length_ledger_blocks [simp]: "length (ledger_blocks_loop n tpb base off) = n"
  by (induction n arbitrary: off) auto

lemma ledger_blocks_nth:
  "i < n \<Longrightarrow> ledger_blocks_loop n tpb base off ! i =
     interfaceTxBlock base (off + word_of_nat i * (160 + tpb * 80))"
proof (induction n arbitrary: off i)
  case 0
  then show ?case by simp
next
  case (Suc n)
  then show ?case by (cases i) (simp_all add: size_simps algebra_simps)
qed

lemma block_offset_unat:
  assumes "i \<le> n" and "ledger_bytes n (unat tpb) < 2 ^ 64"
  shows "unat (88 + word_of_nat i * (160 + tpb * 80) :: c_size) = ledger_bytes i (unat tpb)"
proof -
  let ?v = "88 + i * (160 + unat tpb * 80)"
  have "ledger_bytes i (unat tpb) \<le> ledger_bytes n (unat tpb)"
    using assms(1) by (simp add: ledger_bytes_def mult_le_mono1)
  moreover have "?v = ledger_bytes i (unat tpb)" by (simp add: ledger_bytes_def block_stride_def size_simps)
  ultimately have "?v < 2 ^ 64" using assms(2) by linarith
  moreover have "(88 + word_of_nat i * (160 + tpb * 80) :: c_size) = word_of_nat ?v"
    by (simp add: algebra_simps)
  ultimately have "unat (88 + word_of_nat i * (160 + tpb * 80) :: c_size) = ?v"
    using unat_of_nat_64 [of ?v] by (simp only:) simp
  then show ?thesis by (simp add: ledger_bytes_def block_stride_def size_simps)
qed

lemma ledger_bytes_Suc: "ledger_bytes (Suc i) t = ledger_bytes i t + 160 + t * 80"
  by (simp add: ledger_bytes_def block_stride_def size_simps)

lemma ledger_bytes_mono: "i \<le> j \<Longrightarrow> ledger_bytes i t \<le> ledger_bytes j t"
  by (simp add: ledger_bytes_def mult_le_mono1)

text \<open>The addresses of the fields of block \<open>i\<close>.\<close>

lemma block_addresses:
  assumes "i < n" and "unat base + ledger_bytes n (unat tpb) < 2 ^ 64"
  defines "b \<equiv> ledger_blocks_loop n tpb base 88 ! i"
    and "a \<equiv> unat base + ledger_bytes i (unat tpb)"
  shows "unat (bi_txb_id b) = a" "unat (bi_previous_block_hash b) = a + 64"
    "unat (bi_timestamp b) = a + 136" "unat (bi_nonce b) = a + 144"
    "unat (bi_transactions b) = a + 160"
proof -
  let ?o = "88 + word_of_nat i * (160 + tpb * 80) :: c_size"
  have o: "unat ?o = ledger_bytes i (unat tpb)"
    using block_offset_unat [of i n tpb] assms(1,2) by simp
  have le: "ledger_bytes i (unat tpb) + 160 \<le> ledger_bytes n (unat tpb)"
    using ledger_bytes_mono [of "Suc i" n "unat tpb"] assms(1) by (simp add: ledger_bytes_Suc)
  have add: "unat (base + ?o + k) = a + unat k" if "unat k \<le> 160" for k :: c_size
    using le assms(2) that o by (simp add: unat_word_ariths a_def)
  have b: "b = interfaceTxBlock base ?o" by (simp add: b_def ledger_blocks_nth [OF assms(1)])
  show "unat (bi_txb_id b) = a" "unat (bi_previous_block_hash b) = a + 64"
    "unat (bi_timestamp b) = a + 136" "unat (bi_nonce b) = a + 144"
    "unat (bi_transactions b) = a + 160"
    using add [of 0] add [of 64] add [of 136] add [of 144] add [of 160]
    by (simp_all add: b interfaceTxBlock_def Let_def block_offsets size_simps)
qed

lemma shm_ledger_size_exact:
  assumes "0 \<le> sint nblocks" and "ledger_bytes (unat nblocks) (unat tpb) < 2 ^ 31"
  shows "sint (shm_ledger_size nblocks tpb) = int (ledger_bytes (unat nblocks) (unat tpb))"
proof -
  let ?n = "unat nblocks" and ?t = "unat tpb"
  have lift: "(scast nblocks :: c_size) = word_of_nat ?n"
    by (rule scast_nonneg [OF assms(1)])
  have eq: "word_of_nat sizeof_LedgerSHM + scast nblocks * word_of_nat sizeof_TransactionBlockSHM
            + scast nblocks * tpb * word_of_nat sizeof_Transaction = (word_of_nat (ledger_bytes ?n ?t) :: c_size)"
    by (simp add: lift ledger_bytes_def block_stride_def size_simps algebra_simps)
  have "shm_ledger_size nblocks tpb = word_of_nat (ledger_bytes ?n ?t)"
    using assms(2) by (simp add: shm_ledger_size_def eq unsigned_of_nat take_bit_nat_eq_self)
  moreover have "sint (word_of_nat (ledger_bytes ?n ?t) :: c_int) = int (ledger_bytes ?n ?t)"
    using assms(2) by (simp add: signed_of_nat signed_take_bit_int_eq_self)
  ultimately show ?thesis by simp
qed

section \<open>Properties\<close>

text \<open>C28: the interface of the ledger is a correct view of its segment. While the segment's size fits
  an \<open>int\<close> and the mapping does not wrap, block \<open>i\<close> starts behind the header, its fields follow one
  another with \<open>timestamp\<close> and the transactions 8-byte aligned in an aligned mapping, its
  transactions end before any later block starts, and everything lies inside the bytes that
  \<open>ftruncate\<close> and \<open>mmap\<close> were given.\<close>

theorem ledger_layout:
  assumes "0 \<le> sint nblocks" and "i < j" and "j < unat nblocks"
    and "ledger_bytes (unat nblocks) (unat tpb) < 2 ^ 31"
    and "unat base + 2 ^ 31 \<le> 2 ^ 64" and "unat base mod 8 = 0"
    and "interfaceLedger True tpb base nblocks 88 = Some l" and "li_blocks l = Some bs"
  shows "unat base + sizeof_LedgerSHM \<le> unat (bi_txb_id (bs ! i))
    \<and> unat (bi_txb_id (bs ! i)) + TXB_ID_LEN \<le> unat (bi_previous_block_hash (bs ! i))
    \<and> unat (bi_previous_block_hash (bs ! i)) + HASH_SIZE \<le> unat (bi_timestamp (bs ! i))
    \<and> unat (bi_timestamp (bs ! i)) + 8 \<le> unat (bi_nonce (bs ! i))
    \<and> unat (bi_nonce (bs ! i)) + 4 \<le> unat (bi_transactions (bs ! i))
    \<and> unat (bi_timestamp (bs ! i)) mod 8 = 0 \<and> unat (bi_transactions (bs ! i)) mod 8 = 0
    \<and> unat (bi_transactions (bs ! i)) + unat tpb * sizeof_Transaction \<le> unat (bi_txb_id (bs ! j))
    \<and> int (unat (bi_transactions (bs ! j)) + unat tpb * sizeof_Transaction)
        \<le> int (unat base) + sint (shm_ledger_size nblocks tpb)"
proof -
  let ?t = "unat tpb" and ?n = "unat nblocks"
  have bs: "bs = ledger_blocks_loop ?n tpb base 88"
    using assms(7,8) by (auto simp: interfaceLedger_def)
  have room: "unat base + ledger_bytes ?n ?t < 2 ^ 64" using assms(4,5) by linarith
  have i: "i < ?n" using assms(2,3) by simp
  note ai = block_addresses [OF i room] and aj = block_addresses [OF assms(3) room]
  have order: "ledger_bytes i ?t + 160 + ?t * 80 \<le> ledger_bytes j ?t"
    using ledger_bytes_mono [of "Suc i" j ?t] assms(2) by (simp add: ledger_bytes_Suc)
  have last: "ledger_bytes j ?t + 160 + ?t * 80 \<le> ledger_bytes ?n ?t"
    using ledger_bytes_mono [of "Suc j" ?n ?t] assms(3) by (simp add: ledger_bytes_Suc)
  have "ledger_bytes i ?t = 8 * (11 + i * (20 + ?t * 10))"
    by (simp add: ledger_bytes_def block_stride_def size_simps algebra_simps)
  then have al: "(unat base + ledger_bytes i ?t) mod 8 = 0" using assms(6) by (simp add: mod_add_left_eq [symmetric])
  have al2: "(unat base + ledger_bytes i ?t + 136) mod 8 = 0" "(unat base + ledger_bytes i ?t + 160) mod 8 = 0"
    using al by presburger+
  have lst: "int (unat base + ledger_bytes j ?t + 160 + ?t * 80) \<le> int (unat base) + int (ledger_bytes ?n ?t)"
    using last by linarith
  have size: "sint (shm_ledger_size nblocks tpb) = int (ledger_bytes ?n ?t)"
    by (rule shm_ledger_size_exact [OF assms(1,4)])
  have hdr: "88 \<le> ledger_bytes i ?t" by (simp add: ledger_bytes_def size_simps)
  show ?thesis
    using order al2 hdr lst unfolding bs ai aj size by (simp add: size_simps)
qed

theorem ledger_layout_witness:
  "unat (bi_transactions (ledger_blocks_loop 3 2 4096 88 ! 0)) + 2 * sizeof_Transaction
     \<le> unat (bi_txb_id (ledger_blocks_loop 3 2 4096 88 ! 2))"
proof -
  let ?l = "the (interfaceLedger True 2 4096 3 88)"
  have "li_blocks ?l = Some (ledger_blocks_loop 3 2 4096 88)" by (simp add: interfaceLedger_def)
  moreover have "interfaceLedger True 2 4096 3 88 = Some ?l" by (simp add: interfaceLedger_def)
  ultimately show ?thesis
    using ledger_layout [of 3 0 2 2 4096 ?l "ledger_blocks_loop 3 2 4096 88"]
    by (simp add: ledger_bytes_def block_stride_def size_simps)
qed

text \<open>The segment's size is computed in an \<open>int\<close>, which is exact only below \<open>2^31\<close> bytes. With
  two blocks of 26843544 transactions the ledger needs more than 4 GiB but \<open>shm_ledger_size\<close> is 152,
  so \<open>interfaceLedger\<close> writes the header of block 1 far outside the mapping.\<close>

theorem shm_ledger_size_wraps:
  "sint (shm_ledger_size 2 26843544) = 152 \<and> ledger_bytes 2 26843544 = 4294967448
   \<and> 152 < unat (bi_txb_id (ledger_blocks_loop 2 26843544 0 88 ! 1))"
proof -
  have "ledger_blocks_loop 2 26843544 0 88 ! 1 = interfaceTxBlock 0 (88 + word_of_nat 1 * (160 + 26843544 * 80))"
    by (rule ledger_blocks_nth) simp
  then show ?thesis
    by (simp add: shm_ledger_size_def ledger_bytes_def block_stride_def size_simps
        interfaceTxBlock_def block_offsets Let_def)
qed

end
