(* ===== verification/ProofOfWork.thy ===== *)
theory ProofOfWork
  imports SharedTypes
begin

text \<open>
  \<open>src/PoW/pow.c\<close>: the reward of a block, its serialisation, its SHA-256 hash in hexadecimal, the
  difficulty test, the search for a nonce and its verification. OpenSSL's \<open>SHA256\<close> is a parameter
  \<open>sha\<close> of every definition that hashes; where a lemma needs it, the hypothesis is that a digest has
  32 bytes. \<open>elapsed_time\<close> (a clock reading that nothing uses) is the only field left out of
  \<open>PoWResult\<close>. The lemmas show that the search returns the least nonce that passes, that the
  difficulty test is a comparison of the hash with a threshold, that serialisation fills its buffer
  exactly and determines the block.
\<close>

definition POW_MAX_OPS :: nat where "POW_MAX_OPS = 10000000"
definition SHA256_DIGEST_LENGTH :: nat where "SHA256_DIGEST_LENGTH = 32"

datatype DifficultyLevel = EASY | NORMAL | HARD

record PoWResult =
  pow_hash :: "bytes option"  \<comment> \<open>\<open>None\<close>: not initialised\<close>
  operations :: c_int
  pow_error :: c_int

section \<open>Rewards and difficulty\<close>

fun max_reward_loop :: "Transaction list \<Rightarrow> c_int \<Rightarrow> c_int" where
  "max_reward_loop [] max_reward = max_reward"
| "max_reward_loop (t # ts) max_reward =
     max_reward_loop ts (if sint max_reward < sint (reward t) then reward t else max_reward)"

definition get_max_transaction_reward :: "TransactionBlock \<Rightarrow> c_int \<Rightarrow> c_int" where
  "get_max_transaction_reward block txs_per_block =
     max_reward_loop (take (nat (sint txs_per_block)) (transactions block)) 0"

definition getDifficultFromReward :: "c_int \<Rightarrow> DifficultyLevel" where
  "getDifficultFromReward r = (if sint r \<le> 1 then EASY else if r = 2 then NORMAL else HARD)"

text \<open>The value of a (signed) \<open>char\<close>, as the comparison \<open>next_char <= 'b'\<close> reads it, and
  \<open>hash[i]\<close> of a terminated string.\<close>

definition schar :: "char \<Rightarrow> int" where
  "schar c = (let n = of_char c in if n < 128 then n else n - 256)"

definition char_at :: "bytes \<Rightarrow> nat \<Rightarrow> char" where
  "char_at h i = (if i < length h then h ! i else NUL)"

fun count_zeros :: "bytes \<Rightarrow> nat" where
  "count_zeros [] = 0"
| "count_zeros (c # cs) = (if c = CHR ''0'' then Suc (count_zeros cs) else 0)"

definition check_difficulty :: "bytes \<Rightarrow> c_int \<Rightarrow> bool" where
  "check_difficulty hash r =
     (let minimum = 4;
          zeros = count_zeros hash;
          difficulty = getDifficultFromReward r;
          next_char = char_at hash zeros
      in if zeros < minimum then False
         else (case difficulty of
             EASY \<Rightarrow> (zeros = 4 \<and> schar next_char \<le> schar CHR ''b'') \<or> 4 < zeros
           | NORMAL \<Rightarrow> 5 \<le> zeros
           | HARD \<Rightarrow> (zeros = 5 \<and> schar next_char \<le> schar CHR ''b'') \<or> 5 < zeros))"

section \<open>Serialisation and hashing\<close>

definition serialize_block_size :: "c_size \<Rightarrow> c_size option" where
  "serialize_block_size tpb =
     map_option (\<lambda>n. n - word_of_nat sizeof_pointer) (get_transaction_block_size tpb)"

definition serialize_block :: "c_size \<Rightarrow> TransactionBlock \<Rightarrow> bytes" where
  "serialize_block tpb block =
     take TXB_ID_LEN (txb_id block) @ take HASH_SIZE (previous_block_hash block) @
     le64 (blk_timestamp block) @
     concat (map tx_bytes (take (unat tpb) (transactions block))) @
     le32 (nonce block)"

definition compute_sha256 :: "(bytes \<Rightarrow> bytes) \<Rightarrow> c_size \<Rightarrow> TransactionBlock \<Rightarrow> bytes" where
  "compute_sha256 sha tpb block =
     concat (map hex_byte (take SHA256_DIGEST_LENGTH (sha (serialize_block tpb block)))) @ [NUL]"

definition verify_nonce :: "(bytes \<Rightarrow> bytes) \<Rightarrow> c_size \<Rightarrow> TransactionBlock \<Rightarrow> bool" where
  "verify_nonce sha tpb block =
     check_difficulty (compute_sha256 sha tpb block) (get_max_transaction_reward block (ucast tpb))"

section \<open>The search\<close>

text \<open>One iteration of the \<open>while (1)\<close> per call: hash, test, next nonce, give up above
  \<open>POW_MAX_OPS\<close>.\<close>

function pow_loop ::
    "(bytes \<Rightarrow> bytes) \<Rightarrow> c_size \<Rightarrow> c_int \<Rightarrow> TransactionBlock \<Rightarrow> c_int \<Rightarrow> TransactionBlock \<times> PoWResult" where
  "pow_loop sha tpb r block ops =
     (let hash = compute_sha256 sha tpb block
      in if check_difficulty hash r
         then (block, \<lparr>pow_hash = Some hash, operations = ops, pow_error = 0\<rparr>)
         else let block' = block\<lparr>nonce := nonce block + 1\<rparr>
         in if POW_MAX_OPS < unat (nonce block')
            then (block', \<lparr>pow_hash = None, operations = ops, pow_error = 1\<rparr>)
            else pow_loop sha tpb r block' (ops + 1))"
  by pat_completeness auto
termination
proof (relation "measure (\<lambda>(sha, tpb, r, block, ops). if unat (nonce block) \<le> POW_MAX_OPS
                   then POW_MAX_OPS + 1 - unat (nonce block) else POW_MAX_OPS + 2)", goal_cases)
  case 1
  then show ?case by simp
next
  case (2 sha tpb r block ops hash block')
  show ?case
  proof (cases "unat (nonce block) \<le> POW_MAX_OPS")
    case True
    then have "unat (nonce block + 1) = Suc (unat (nonce block))"
      by (intro unat_add_1) (simp add: POW_MAX_OPS_def)
    with 2 True show ?thesis by simp
  next
    case False
    with 2 show ?thesis by simp
  qed
qed

declare pow_loop.simps [simp del]

definition proof_of_work :: "(bytes \<Rightarrow> bytes) \<Rightarrow> c_size \<Rightarrow> TransactionBlock \<Rightarrow> TransactionBlock \<times> PoWResult" where
  "proof_of_work sha tpb block =
     (let block0 = block\<lparr>nonce := 0\<rparr>;
          r = get_max_transaction_reward block0 (ucast tpb)
      in pow_loop sha tpb r block0 0)"

section \<open>Orders on difficulty levels\<close>

fun difficulty_rank :: "DifficultyLevel \<Rightarrow> nat" where
  "difficulty_rank EASY = 1"
| "difficulty_rank NORMAL = 2"
| "difficulty_rank HARD = 3"

instantiation DifficultyLevel :: linorder
begin

definition less_eq_DifficultyLevel :: "DifficultyLevel \<Rightarrow> DifficultyLevel \<Rightarrow> bool" where
  "less_eq_DifficultyLevel a b \<longleftrightarrow> difficulty_rank a \<le> difficulty_rank b"

definition less_DifficultyLevel :: "DifficultyLevel \<Rightarrow> DifficultyLevel \<Rightarrow> bool" where
  "less_DifficultyLevel a b \<longleftrightarrow> difficulty_rank a < difficulty_rank b"

instance
proof
  fix a b :: DifficultyLevel
  show "a \<le> b \<Longrightarrow> b \<le> a \<Longrightarrow> a = b"
    by (cases a; cases b) (simp_all add: less_eq_DifficultyLevel_def)
qed (auto simp: less_eq_DifficultyLevel_def less_DifficultyLevel_def)

end

section \<open>Difficulty as a threshold\<close>

text \<open>The number a digest denotes (big endian), and the bound each level puts on it.\<close>

definition be_val :: "bytes \<Rightarrow> nat" where
  "be_val bs = foldl (\<lambda>a c. a * 256 + of_char c) 0 bs"

fun threshold :: "DifficultyLevel \<Rightarrow> nat" where
  "threshold EASY = 12 * 16 ^ 59"
| "threshold NORMAL = 16 ^ 59"
| "threshold HARD = 12 * 16 ^ 58"

fun nib_val :: "nat list \<Rightarrow> nat" where
  "nib_val [] = 0"
| "nib_val (d # ds) = d * 16 ^ length ds + nib_val ds"

definition nibbles :: "bytes \<Rightarrow> nat list" where
  "nibbles bs = concat (map (\<lambda>c. [of_char c div 16, of_char c mod 16]) bs)"

fun lead_zeros :: "nat list \<Rightarrow> nat" where
  "lead_zeros [] = 0"
| "lead_zeros (d # ds) = (if d = 0 then Suc (lead_zeros ds) else 0)"

lemma length_nibbles: "length (nibbles bs) = 2 * length bs"
  by (induction bs) (simp_all add: nibbles_def)

lemma nibbles_bound: "d \<in> set (nibbles bs) \<Longrightarrow> d < 16"
proof -
  have "(of_char c :: nat) div 16 < 16" for c
    using nat_of_char_less_256 [of c] by (simp add: less_mult_imp_div_less)
  then show "d \<in> set (nibbles bs) \<Longrightarrow> d < 16" by (auto simp: nibbles_def)
qed

lemma hex_string: "concat (map hex_byte bs) = map hex_digit (nibbles bs)"
  by (induction bs) (simp_all add: nibbles_def hex_byte_def)

lemma be_val_acc: "foldl (\<lambda>a c. a * 256 + of_char c) x bs = x * 16 ^ (2 * length bs) + nib_val (nibbles bs)"
proof (induction bs arbitrary: x)
  case Nil
  then show ?case by (simp add: nibbles_def)
next
  case (Cons c cs)
  define q :: nat where "q = of_char c div 16"
  define r :: nat where "r = of_char c mod 16"
  have nib: "nibbles (c # cs) = q # r # nibbles cs"
    by (simp add: nibbles_def q_def r_def)
  have c: "of_char c = 16 * q + r"
    unfolding q_def r_def by (rule mult_div_mod_eq [symmetric])
  let ?p = "16 ^ (2 * length cs) :: nat"
  have "foldl (\<lambda>a c. a * 256 + of_char c) x (c # cs) = (x * 256 + of_char c) * ?p + nib_val (nibbles cs)"
    using Cons.IH by simp
  also have "\<dots> = (x * 256 + (16 * q + r)) * ?p + nib_val (nibbles cs)"
    by (simp only: c)
  also have "\<dots> = x * 16 ^ (2 * length (c # cs)) + nib_val (nibbles (c # cs))"
    by (simp add: nib length_nibbles algebra_simps)
  finally show ?case .
qed

lemma be_val_nibbles: "be_val bs = nib_val (nibbles bs)"
  by (simp add: be_val_def be_val_acc)

lemma nib_val_less: "(\<And>d. d \<in> set ds \<Longrightarrow> d < 16) \<Longrightarrow> nib_val ds < 16 ^ length ds"
proof (induction ds)
  case Nil
  then show ?case by simp
next
  case (Cons d ds)
  have "d < 16" using Cons.prems by simp
  then have "d \<le> 15" by simp
  moreover have "nib_val ds < 16 ^ length ds" using Cons by simp
  moreover from \<open>d \<le> 15\<close> have "d * 16 ^ length ds \<le> 15 * 16 ^ length ds" by (rule mult_le_mono1)
  ultimately have "d * 16 ^ length ds + nib_val ds < 16 * 16 ^ length ds" by linarith
  then show ?case by simp
qed

text \<open>At least \<open>k\<close> leading zeros: the value is below \<open>16^(n-k)\<close>; exactly \<open>k\<close>: the next digit
  decides.\<close>

lemma lead_zeros_ge:
  "(\<And>d. d \<in> set ds \<Longrightarrow> d < 16) \<Longrightarrow> k \<le> length ds \<Longrightarrow>
   k \<le> lead_zeros ds \<longleftrightarrow> nib_val ds < 16 ^ (length ds - k)"
proof (induction ds arbitrary: k)
  case Nil
  then show ?case by simp
next
  case (Cons d ds)
  show ?case
  proof (cases k)
    case 0
    with nib_val_less [of "d # ds"] Cons.prems(1) show ?thesis by simp
  next
    case (Suc j)
    show ?thesis
    proof (cases "d = 0")
      case True
      with Suc Cons.IH [of j] Cons.prems show ?thesis by simp
    next
      case False
      have "16 ^ (length ds - j) \<le> (16::nat) ^ length ds" by (rule power_increasing) auto
      also have "\<dots> \<le> d * 16 ^ length ds" using False by simp
      finally show ?thesis using False Suc by simp
    qed
  qed
qed

lemma lead_zeros_next:
  "(\<And>d. d \<in> set ds \<Longrightarrow> d < 16) \<Longrightarrow> lead_zeros ds < length ds \<Longrightarrow>
   ds ! lead_zeros ds < c \<longleftrightarrow> nib_val ds < c * 16 ^ (length ds - Suc (lead_zeros ds))"
proof (induction ds)
  case Nil
  then show ?case by simp
next
  case (Cons d ds)
  show ?case
  proof (cases "d = 0")
    case True
    with Cons show ?thesis by simp
  next
    case False
    have l: "nib_val ds < 16 ^ length ds" using Cons.prems(1) by (intro nib_val_less) auto
    have "d < c \<longleftrightarrow> d * 16 ^ length ds + nib_val ds < c * 16 ^ length ds"
    proof
      assume "d < c"
      then have "Suc d * 16 ^ length ds \<le> c * 16 ^ length ds" by (intro mult_le_mono1) simp
      with l show "d * 16 ^ length ds + nib_val ds < c * 16 ^ length ds" by simp
    next
      assume "d * 16 ^ length ds + nib_val ds < c * 16 ^ length ds"
      then have "d * 16 ^ length ds < c * 16 ^ length ds" by linarith
      then show "d < c" by simp
    qed
    with False show ?thesis by simp
  qed
qed

lemma of_hex_digit: "d < 16 \<Longrightarrow> (of_char (hex_digit d) :: nat) = (if d < 10 then 48 + d else 87 + d)"
  by (simp add: hex_digit_def)

lemma hex_digit_zero: "d < 16 \<Longrightarrow> hex_digit d = CHR ''0'' \<longleftrightarrow> d = 0"
proof -
  assume d: "d < 16"
  have "hex_digit d = CHR ''0'' \<longleftrightarrow> (of_char (hex_digit d) :: nat) = of_char CHR ''0''"
    by (simp only: of_char_eq_iff)
  also have "\<dots> \<longleftrightarrow> d = 0" using d by (simp add: of_hex_digit)
  finally show ?thesis .
qed

lemma int_of_char: "(of_char c :: int) = int (of_char c)"
  by (simp add: of_nat_of_char)

lemma schar_hex_digit: "d < 16 \<Longrightarrow> schar (hex_digit d) \<le> schar CHR ''b'' \<longleftrightarrow> d < 12"
proof -
  assume d: "d < 16"
  have "schar (hex_digit d) = int (if d < 10 then 48 + d else 87 + d)"
    using of_hex_digit [OF d] d unfolding schar_def Let_def int_of_char by auto
  moreover have "schar CHR ''b'' = 98" by (simp add: schar_def)
  ultimately show ?thesis using d by (auto split: if_splits)
qed

lemma count_zeros_hex:
  "(\<And>d. d \<in> set ds \<Longrightarrow> d < 16) \<Longrightarrow> count_zeros (map hex_digit ds @ [NUL]) = lead_zeros ds"
  by (induction ds) (simp_all add: hex_digit_zero)

text \<open>The test of a hexadecimal digest is a comparison of the number it denotes with the
  threshold of the level.\<close>

lemma check_difficulty_digest:
  assumes len: "length digest = SHA256_DIGEST_LENGTH"
  shows "check_difficulty (concat (map hex_byte digest) @ [NUL]) r
       \<longleftrightarrow> be_val digest < threshold (getDifficultFromReward r)"
proof -
  let ?ds = "nibbles digest" and ?h = "concat (map hex_byte digest) @ [NUL]"
  let ?z = "lead_zeros ?ds"
  have n: "length ?ds = 64" using len by (simp add: length_nibbles SHA256_DIGEST_LENGTH_def)
  note bound = nibbles_bound [of _ digest]
  have z: "count_zeros ?h = ?z" by (simp add: hex_string count_zeros_hex bound)
  have at: "char_at ?h ?z = hex_digit (?ds ! ?z)" and d16: "?ds ! ?z < 16" if "?z < 64"
    using that n bound [of "?ds ! ?z"] by (simp_all add: char_at_def hex_string nth_append)
  have ge: "k \<le> ?z \<longleftrightarrow> nib_val ?ds < 16 ^ (64 - k)" if "k \<le> 64" for k
    using lead_zeros_ge [of ?ds k, OF bound] that n by simp
  have nxt: "schar (char_at ?h ?z) \<le> schar CHR ''b'' \<longleftrightarrow> nib_val ?ds < 12 * 16 ^ (63 - ?z)"
    if "?z < 64"
    using lead_zeros_next [of ?ds 12, OF bound] that n at [OF that] schar_hex_digit [OF d16 [OF that]]
    by simp
  have p: "(16::nat) ^ 58 < 12 * 16 ^ 58" "(12::nat) * 16 ^ 58 < 16 ^ 59" "(16::nat) ^ 59 < 12 * 16 ^ 59"
    "(12::nat) * 16 ^ 59 < 16 ^ 60" by simp_all
  have g4: "4 \<le> ?z \<longleftrightarrow> nib_val ?ds < 16 ^ 60" and g5: "5 \<le> ?z \<longleftrightarrow> nib_val ?ds < 16 ^ 59"
    and g6: "6 \<le> ?z \<longleftrightarrow> nib_val ?ds < 16 ^ 58"
    using ge [of 4] ge [of 5] ge [of 6] by simp_all
  have n4: "?z = 4 \<Longrightarrow> (schar (char_at ?h ?z) \<le> schar CHR ''b'') = (nib_val ?ds < 12 * 16 ^ 59)"
    and n5: "?z = 5 \<Longrightarrow> (schar (char_at ?h ?z) \<le> schar CHR ''b'') = (nib_val ?ds < 12 * 16 ^ 58)"
    using nxt by simp_all
  show ?thesis
  proof (cases "getDifficultFromReward r")
    case EASY
    then show ?thesis
      using g4 g5 n4 p by (auto simp: check_difficulty_def z be_val_nibbles Let_def)
  next
    case NORMAL
    then show ?thesis
      using g5 by (auto simp: check_difficulty_def z be_val_nibbles Let_def)
  next
    case HARD
    then show ?thesis
      using g5 g6 n5 p by (auto simp: check_difficulty_def z be_val_nibbles Let_def)
  qed
qed

section \<open>Properties of the difficulty test\<close>

lemma getDifficult_mono: "sint r \<le> sint r' \<Longrightarrow> getDifficultFromReward r \<le> getDifficultFromReward r'"
proof -
  have two: "sint (2 :: c_int) = 2" by simp
  show "sint r \<le> sint r' \<Longrightarrow> ?thesis"
    using two by (auto simp: getDifficultFromReward_def less_eq_DifficultyLevel_def word_32_eq_sint)
qed

lemma check_difficulty_level:
  "check_difficulty h r \<Longrightarrow> getDifficultFromReward r' \<le> getDifficultFromReward r \<Longrightarrow> check_difficulty h r'"
  by (cases "getDifficultFromReward r"; cases "getDifficultFromReward r'")
     (auto simp: check_difficulty_def Let_def less_eq_DifficultyLevel_def)

lemma check_difficulty_mono:
  "check_difficulty h r \<Longrightarrow> sint r' \<le> sint r \<Longrightarrow> check_difficulty h r'"
  by (erule check_difficulty_level) (rule getDifficult_mono)

lemma max_reward_loop_ge:
  "sint m \<le> sint (max_reward_loop ts m) \<and> (\<forall>t\<in>set ts. sint (reward t) \<le> sint (max_reward_loop ts m))"
  by (induction ts m rule: max_reward_loop.induct) (auto split: if_splits intro: order_trans less_imp_le)

lemma max_reward_loop_in: "max_reward_loop ts m = m \<or> (\<exists>t\<in>set ts. max_reward_loop ts m = reward t)"
  by (induction ts m rule: max_reward_loop.induct) auto

section \<open>Hashes\<close>

lemma length_compute_sha256 [size_simps]:
  "(\<And>bs. length (sha bs) = SHA256_DIGEST_LENGTH) \<Longrightarrow> length (compute_sha256 sha tpb b) = HASH_SIZE"
  by (simp add: compute_sha256_def hex_string length_nibbles SHA256_DIGEST_LENGTH_def HASH_SIZE_def)

lemma hex_digit_not_NUL: "d < 16 \<Longrightarrow> hex_digit d \<noteq> NUL"
proof
  assume "d < 16" and "hex_digit d = NUL"
  with of_hex_digit [of d] show False by (simp split: if_splits)
qed

text \<open>The hexadecimal string determines the digest.\<close>

lemma hex_digit_inj: "d < 16 \<Longrightarrow> e < 16 \<Longrightarrow> hex_digit d = hex_digit e \<Longrightarrow> d = e"
proof -
  assume "d < 16" "e < 16" "hex_digit d = hex_digit e"
  then have "(if d < 10 then 48 + d else 87 + d) = (if e < 10 then 48 + e else 87 + e)"
    using of_hex_digit [of d] of_hex_digit [of e] by metis
  then show ?thesis by (simp split: if_splits)
qed

lemma hex_byte_inj: "hex_byte c = hex_byte d \<Longrightarrow> c = d"
proof -
  assume e: "hex_byte c = hex_byte d"
  have "(of_char x :: nat) div 16 < 16" for x
    using nat_of_char_less_256 [of x] by (simp add: less_mult_imp_div_less)
  then have "(of_char c :: nat) div 16 = of_char d div 16" "(of_char c :: nat) mod 16 = of_char d mod 16"
    using e by (auto simp: hex_byte_def intro: hex_digit_inj)
  then have "(of_char c :: nat) = of_char d" by (metis div_mult_mod_eq)
  then show ?thesis by simp
qed

lemma hex_string_inj:
  "length a = length b \<Longrightarrow> concat (map hex_byte a) = concat (map hex_byte b) \<Longrightarrow> a = b"
proof (induction a b rule: list_induct2)
  case Nil
  then show ?case by simp
next
  case (Cons c cs d ds)
  from Cons.prems have "hex_byte c = hex_byte d" "concat (map hex_byte cs) = concat (map hex_byte ds)"
    by (simp_all add: hex_byte_def [of c] hex_byte_def [of d])
  with Cons.IH show ?case using hex_byte_inj by blast
qed

lemma compute_sha256_digest:
  assumes "\<And>bs. length (sha bs) = SHA256_DIGEST_LENGTH" and "compute_sha256 sha tpb a = compute_sha256 sha tpb b"
  shows "sha (serialize_block tpb a) = sha (serialize_block tpb b)"
  using assms(2) hex_string_inj [of "sha (serialize_block tpb a)" "sha (serialize_block tpb b)"]
  by (simp add: compute_sha256_def assms(1))

lemma padded_compute_sha256 [wf_intros]:
  assumes "\<And>bs. length (sha bs) = SHA256_DIGEST_LENGTH"
  shows "padded HASH_SIZE (compute_sha256 sha tpb b)"
proof -
  let ?h = "concat (map hex_byte (take SHA256_DIGEST_LENGTH (sha (serialize_block tpb b))))"
  have "length ?h = 64"
    by (simp add: hex_string length_nibbles assms SHA256_DIGEST_LENGTH_def)
  moreover have "NUL \<notin> set ?h"
  proof
    assume "NUL \<in> set ?h"
    then obtain d where "d \<in> set (nibbles (take SHA256_DIGEST_LENGTH (sha (serialize_block tpb b))))"
      and "hex_digit d = NUL" by (auto simp only: hex_string set_map)
    then show False using hex_digit_not_NUL nibbles_bound by blast
  qed
  ultimately show ?thesis
    using padded_I [of ?h HASH_SIZE] by (simp add: compute_sha256_def HASH_SIZE_def)
qed

section \<open>Serialisation\<close>

lemma serialize_block_sized:
  "block_sized tpb b \<Longrightarrow> serialize_block tpb b =
     txb_id b @ previous_block_hash b @ le64 (blk_timestamp b) @
     concat (map tx_bytes (transactions b)) @ le32 (nonce b)"
  by (simp add: serialize_block_def block_sized_def)

lemma txs_bytes_length:
  "block_sized tpb b \<Longrightarrow> length (concat (map tx_bytes (transactions b))) = unat tpb * sizeof_Transaction"
  by (subst tx.array_width) (auto simp: block_sized_def list_all_iff)

lemma length_serialize_block [size_simps]:
  "block_sized tpb b \<Longrightarrow> length (serialize_block tpb b) = 141 + unat tpb * 80"
  by (subst serialize_block_sized)
     (auto simp: block_sized_def txs_bytes_length size_simps simp del: length_concat)

lemma serialize_block_inj:
  assumes "block_sized tpb a" and "block_sized tpb b"
    and "serialize_block tpb a = serialize_block tpb b"
  shows "a = b"
proof -
  have la: "length (txb_id a) = length (txb_id b)"
    "length (previous_block_hash a) = length (previous_block_hash b)"
    using assms(1,2) by (simp_all add: block_sized_def)
  have txs: "length (concat (map tx_bytes (transactions a))) = length (concat (map tx_bytes (transactions b)))"
    using txs_bytes_length [OF assms(1)] txs_bytes_length [OF assms(2)] by simp
  from assms(3) have "txb_id a = txb_id b" "previous_block_hash a = previous_block_hash b"
    "le64 (blk_timestamp a) = le64 (blk_timestamp b)"
    "concat (map tx_bytes (transactions a)) = concat (map tx_bytes (transactions b))"
    "le32 (nonce a) = le32 (nonce b)"
    unfolding serialize_block_sized [OF assms(1)] serialize_block_sized [OF assms(2)]
    using la txs by (simp_all add: append_eq_append_conv del: length_concat)
  moreover from this(4) have "transactions a = transactions b"
    by (rule tx.array_inj_any [rotated 2])
       (use assms(1,2) in \<open>auto simp: block_sized_def list_all_iff\<close>)
  ultimately show ?thesis
    using int64.enc_inj int32.enc_inj by (metis (full_types) TransactionBlock.equality old.unit.exhaust)
qed

section \<open>The search for a nonce\<close>

lemma pow_loop_fields:
  "pow_loop sha tpb r block ops = (b, res) \<Longrightarrow> b = block\<lparr>nonce := nonce b\<rparr>"
proof (induction sha tpb r block ops arbitrary: b res rule: pow_loop.induct)
  case (1 sha tpb r block ops)
  then show ?case
    by (subst (asm) (2) pow_loop.simps) (fastforce simp: Let_def split: if_splits)
qed

text \<open>Whether a nonce passes, as a function of the number.\<close>

definition nonce_passes :: "(bytes \<Rightarrow> bytes) \<Rightarrow> c_size \<Rightarrow> TransactionBlock \<Rightarrow> nat \<Rightarrow> bool" where
  "nonce_passes sha tpb block n \<longleftrightarrow> verify_nonce sha tpb (block\<lparr>nonce := word_of_nat n\<rparr>)"

definition with_nonce :: "TransactionBlock \<Rightarrow> nat \<Rightarrow> TransactionBlock" where
  "with_nonce block n = block\<lparr>nonce := word_of_nat n\<rparr>"

lemma max_reward_nonce [simp]:
  "get_max_transaction_reward (block\<lparr>nonce := n\<rparr>) t = get_max_transaction_reward block t"
  by (simp add: get_max_transaction_reward_def)

lemma pow_loop_step:
  assumes "n \<le> POW_MAX_OPS"
  shows "pow_loop sha tpb (get_max_transaction_reward block (ucast tpb)) (with_nonce block n) ops =
    (if nonce_passes sha tpb block n
     then (with_nonce block n, \<lparr>pow_hash = Some (compute_sha256 sha tpb (with_nonce block n)),
                                operations = ops, pow_error = 0\<rparr>)
     else if n = POW_MAX_OPS
     then (with_nonce block (Suc n), \<lparr>pow_hash = None, operations = ops, pow_error = 1\<rparr>)
     else pow_loop sha tpb (get_max_transaction_reward block (ucast tpb)) (with_nonce block (Suc n)) (ops + 1))"
proof -
  have nxt: "(with_nonce block n)\<lparr>nonce := nonce (with_nonce block n) + 1\<rparr> = with_nonce block (Suc n)"
    by (simp add: with_nonce_def add.commute)
  have "unat (word_of_nat (Suc n) :: 32 word) = Suc n"
    using assms by (intro unat_of_nat_32) (simp add: POW_MAX_OPS_def)
  then have big: "unat (nonce (with_nonce block (Suc n))) = Suc n" by (simp add: with_nonce_def)
  have pass: "nonce_passes sha tpb block n =
      check_difficulty (compute_sha256 sha tpb (with_nonce block n)) (get_max_transaction_reward block (ucast tpb))"
    by (simp add: nonce_passes_def verify_nonce_def with_nonce_def)
  show ?thesis
    using assms by (subst pow_loop.simps) (auto simp: Let_def nxt big pass)
qed

lemma pow_loop_found:
  assumes "n + k \<le> POW_MAX_OPS" and "nonce_passes sha tpb block (n + k)"
    and "\<And>m. n \<le> m \<Longrightarrow> m < n + k \<Longrightarrow> \<not> nonce_passes sha tpb block m"
  shows "pow_loop sha tpb (get_max_transaction_reward block (ucast tpb)) (with_nonce block n) ops =
    (with_nonce block (n + k), \<lparr>pow_hash = Some (compute_sha256 sha tpb (with_nonce block (n + k))),
       operations = ops + word_of_nat k, pow_error = 0\<rparr>)"
  using assms
proof (induction k arbitrary: n ops)
  case 0
  then show ?case by (simp add: pow_loop_step)
next
  case (Suc k)
  from Suc.prems have "n \<le> POW_MAX_OPS" "\<not> nonce_passes sha tpb block n" "n \<noteq> POW_MAX_OPS" by auto
  then have "pow_loop sha tpb (get_max_transaction_reward block (ucast tpb)) (with_nonce block n) ops =
    pow_loop sha tpb (get_max_transaction_reward block (ucast tpb)) (with_nonce block (Suc n)) (ops + 1)"
    by (simp add: pow_loop_step)
  also have "\<dots> = (with_nonce block (Suc n + k), \<lparr>pow_hash = Some (compute_sha256 sha tpb (with_nonce block (Suc n + k))),
       operations = (ops + 1) + word_of_nat k, pow_error = 0\<rparr>)"
    using Suc.prems by (intro Suc.IH) auto
  finally show ?case by (simp add: add.assoc)
qed

lemma pow_loop_gives_up:
  assumes "n + k = POW_MAX_OPS" and "\<And>m. n \<le> m \<Longrightarrow> m \<le> POW_MAX_OPS \<Longrightarrow> \<not> nonce_passes sha tpb block m"
  shows "pow_loop sha tpb (get_max_transaction_reward block (ucast tpb)) (with_nonce block n) ops =
    (with_nonce block (Suc POW_MAX_OPS), \<lparr>pow_hash = None, operations = ops + word_of_nat k, pow_error = 1\<rparr>)"
  using assms
proof (induction k arbitrary: n ops)
  case 0
  then show ?case by (simp add: pow_loop_step)
next
  case (Suc k)
  from Suc.prems have "n \<le> POW_MAX_OPS" "\<not> nonce_passes sha tpb block n" "n \<noteq> POW_MAX_OPS" by auto
  then have "pow_loop sha tpb (get_max_transaction_reward block (ucast tpb)) (with_nonce block n) ops =
    pow_loop sha tpb (get_max_transaction_reward block (ucast tpb)) (with_nonce block (Suc n)) (ops + 1)"
    by (simp add: pow_loop_step)
  also have "\<dots> = (with_nonce block (Suc POW_MAX_OPS), \<lparr>pow_hash = None,
       operations = (ops + 1) + word_of_nat k, pow_error = 1\<rparr>)"
    using Suc.prems by (intro Suc.IH) auto
  finally show ?case by (simp add: add.assoc)
qed

lemma proof_of_work_start:
  "proof_of_work sha tpb block =
     pow_loop sha tpb (get_max_transaction_reward block (ucast tpb)) (with_nonce block 0) 0"
  by (simp add: proof_of_work_def with_nonce_def Let_def)

lemma proof_of_work_ok:
  assumes "n \<le> POW_MAX_OPS" and "nonce_passes sha tpb block n"
    and "\<And>m. m < n \<Longrightarrow> \<not> nonce_passes sha tpb block m"
  shows "proof_of_work sha tpb block =
    (with_nonce block n, \<lparr>pow_hash = Some (compute_sha256 sha tpb (with_nonce block n)),
       operations = word_of_nat n, pow_error = 0\<rparr>)"
  using pow_loop_found [of 0 n sha tpb block 0] assms by (simp add: proof_of_work_start)

lemma proof_of_work_fails:
  assumes "\<And>m. m \<le> POW_MAX_OPS \<Longrightarrow> \<not> nonce_passes sha tpb block m"
  shows "proof_of_work sha tpb block =
    (with_nonce block (Suc POW_MAX_OPS), \<lparr>pow_hash = None, operations = word_of_nat POW_MAX_OPS, pow_error = 1\<rparr>)"
  using pow_loop_gives_up [of 0 POW_MAX_OPS sha tpb block 0] assms by (simp add: proof_of_work_start)

text \<open>Every block has one of the two outcomes.\<close>

lemma proof_of_work_cases:
  obtains (found) n where "n \<le> POW_MAX_OPS" and "nonce_passes sha tpb block n"
      and "\<And>m. m < n \<Longrightarrow> \<not> nonce_passes sha tpb block m"
      and "proof_of_work sha tpb block =
        (with_nonce block n, \<lparr>pow_hash = Some (compute_sha256 sha tpb (with_nonce block n)),
           operations = word_of_nat n, pow_error = 0\<rparr>)"
    | (gave_up) "\<And>m. m \<le> POW_MAX_OPS \<Longrightarrow> \<not> nonce_passes sha tpb block m"
      and "proof_of_work sha tpb block =
        (with_nonce block (Suc POW_MAX_OPS), \<lparr>pow_hash = None, operations = word_of_nat POW_MAX_OPS, pow_error = 1\<rparr>)"
proof (cases "\<exists>n\<le>POW_MAX_OPS. nonce_passes sha tpb block n")
  case True
  let ?n = "LEAST n. nonce_passes sha tpb block n"
  from True have 1: "nonce_passes sha tpb block ?n" by (metis LeastI)
  from True have 2: "?n \<le> POW_MAX_OPS" by (meson Least_le order_trans)
  have 3: "\<not> nonce_passes sha tpb block m" if "m < ?n" for m using not_less_Least [OF that] .
  from found [OF 2 1 3] proof_of_work_ok [OF 2 1 3] show ?thesis by blast
next
  case False
  then have n: "\<And>m. m \<le> POW_MAX_OPS \<Longrightarrow> \<not> nonce_passes sha tpb block m" by auto
  from gave_up [OF n proof_of_work_fails [OF n]] show ?thesis by blast
qed

text \<open>The digest function of the examples: all zero but for the last byte, the first byte of the
  input. Every nonce passes.\<close>

definition easy_sha :: "bytes \<Rightarrow> bytes" where
  "easy_sha bs = replicate 31 NUL @ [if bs = [] then NUL else hd bs]"

lemma length_easy_sha: "length (easy_sha bs) = SHA256_DIGEST_LENGTH"
  by (simp add: easy_sha_def SHA256_DIGEST_LENGTH_def)

lemma be_val_last: "be_val (replicate n NUL @ [c]) = of_char c"
proof -
  have "foldl (\<lambda>a c. a * 256 + (of_char c :: nat)) 0 (replicate n NUL) = 0" by (induction n) simp_all
  then show ?thesis by (simp add: be_val_def)
qed

lemma be_val_easy_sha: "be_val (easy_sha bs) < 256"
  unfolding easy_sha_def be_val_last by (rule nat_of_char_less_256)

lemma verify_nonce_easy_sha: "verify_nonce easy_sha tpb b"
proof -
  have "256 < threshold d" for d by (cases d) simp_all
  then have "be_val (easy_sha bs) < threshold d" for bs d using be_val_easy_sha less_trans by blast
  then show ?thesis
    using check_difficulty_digest [OF length_easy_sha]
    by (simp add: verify_nonce_def compute_sha256_def length_easy_sha)
qed

lemma proof_of_work_easy_sha:
  "proof_of_work easy_sha tpb b =
     (with_nonce b 0, \<lparr>pow_hash = Some (compute_sha256 easy_sha tpb (with_nonce b 0)), operations = 0, pow_error = 0\<rparr>)"
proof (cases rule: proof_of_work_cases [of easy_sha tpb b])
  case (found n)
  then have "n = 0" using verify_nonce_easy_sha by (metis gr0I nonce_passes_def)
  with found show ?thesis by simp
next
  case gave_up
  then show ?thesis using verify_nonce_easy_sha by (metis le0 nonce_passes_def)
qed

section \<open>Properties\<close>

text \<open>C21: the search for a nonce is complete and returns the least nonce. If some nonce up to
  \<open>POW_MAX_OPS\<close> passes \<open>verify_nonce\<close>, the result is the block with the least such nonce, its
  hash, no error, and as many counted operations as nonces were rejected; otherwise the search
  stops one above the bound with the error flag set and no hash.\<close>

theorem proof_of_work_least:
  "proof_of_work sha tpb block =
    (if \<exists>n. n \<le> POW_MAX_OPS \<and> nonce_passes sha tpb block n
     then let n = LEAST n. nonce_passes sha tpb block n
          in (with_nonce block n,
              \<lparr>pow_hash = Some (compute_sha256 sha tpb (with_nonce block n)),
               operations = word_of_nat n, pow_error = 0\<rparr>)
     else (with_nonce block (Suc POW_MAX_OPS),
           \<lparr>pow_hash = None, operations = word_of_nat POW_MAX_OPS, pow_error = 1\<rparr>))"
proof (cases rule: proof_of_work_cases [of sha tpb block])
  case (found n)
  then have "(LEAST n. nonce_passes sha tpb block n) = n"
    by (metis LeastI not_less_Least linorder_neqE_nat)
  with found show ?thesis by (auto simp: Let_def)
next
  case gave_up
  then show ?thesis by auto
qed

definition digest_0b :: bytes where
  "digest_0b =
     [NUL, NUL, CHR 0x0B, CHR 0xFF, CHR 0xFF, CHR 0xFF, CHR 0xFF, CHR 0xFF, CHR 0xFF, CHR 0xFF,
      CHR 0xFF, CHR 0xFF, CHR 0xFF, CHR 0xFF, CHR 0xFF, CHR 0xFF, CHR 0xFF, CHR 0xFF, CHR 0xFF,
      CHR 0xFF, CHR 0xFF, CHR 0xFF, CHR 0xFF, CHR 0xFF, CHR 0xFF, CHR 0xFF, CHR 0xFF, CHR 0xFF,
      CHR 0xFF, CHR 0xFF, CHR 0xFF, CHR 0xFF]"

text \<open>C22: for 32-byte digests, a block passes \<open>verify_nonce\<close> exactly when the number its digest
  denotes is below the threshold of the block's highest reward: \<open>0x0000c...\<close> for a reward up to 1,
  \<open>0x00001...\<close> for 2 and \<open>0x00000c...\<close> above, so the character tests on the hexadecimal string
  are one comparison.\<close>

theorem verify_nonce_is_threshold:
  "length (sha (serialize_block tpb b)) = SHA256_DIGEST_LENGTH \<Longrightarrow>
   verify_nonce sha tpb b \<longleftrightarrow>
     be_val (sha (serialize_block tpb b))
       < threshold (getDifficultFromReward (get_max_transaction_reward b (ucast tpb)))"
  by (simp add: verify_nonce_def compute_sha256_def check_difficulty_digest)

theorem verify_nonce_is_threshold_witness:
  "verify_nonce (\<lambda>_. digest_0b) 1 (zero_block 1)"
proof -
  let ?sha = "\<lambda>_ :: bytes. digest_0b"
  have "be_val digest_0b < threshold EASY" by (simp add: be_val_def digest_0b_def)
  moreover have "getDifficultFromReward (get_max_transaction_reward (zero_block 1) (ucast (1 :: c_size))) = EASY"
    by (simp add: zero_block_def zero_tx_def get_max_transaction_reward_def getDifficultFromReward_def)
  moreover have "length (?sha (serialize_block 1 (zero_block 1))) = SHA256_DIGEST_LENGTH"
    by (simp add: SHA256_DIGEST_LENGTH_def digest_0b_def)
  ultimately show ?thesis
    using verify_nonce_is_threshold [of ?sha 1 "zero_block 1"] by simp
qed

text \<open>C23: serialisation commits to the whole block. Two different blocks with arrays of the
  declared sizes never have the same serialisation, so the hash covers every field of the block
  and of its transactions.\<close>

theorem serialize_block_commits:
  "block_sized tpb a \<Longrightarrow> block_sized tpb b \<Longrightarrow> a \<noteq> b \<Longrightarrow> serialize_block tpb a \<noteq> serialize_block tpb b"
  using serialize_block_inj by blast

theorem serialize_block_commits_witness:
  "serialize_block 1 (zero_block 1) \<noteq> serialize_block 1 (with_nonce (zero_block 1) 7)"
proof (rule serialize_block_commits)
  show "block_sized 1 (zero_block 1)" using block_sized_zero [of 1] by simp
  then show "block_sized 1 (with_nonce (zero_block 1) 7)"
    by (simp add: block_sized_def with_nonce_def)
  show "zero_block 1 \<noteq> with_nonce (zero_block 1) 7" by (simp add: zero_block_def with_nonce_def)
qed

text \<open>\<open>serialize_block\<close> fills its buffer exactly. When the parameter is set and the size does not
  wrap, the bytes copied are as many as were allocated: no write past the buffer, and no
  uninitialised byte is hashed.\<close>

theorem serialize_block_fills_buffer:
  assumes "tpb \<noteq> 0" and "unat tpb < 2 ^ 57" and "block_sized tpb b"
  shows "map_option unat (serialize_block_size tpb) = Some (length (serialize_block tpb b))"
proof -
  have "unat (tpb * 80) = unat tpb * 80"
    using assms(2) by (simp add: unat_word_ariths)
  then have "unat (149 + tpb * 80 - 8) = 141 + unat tpb * 80"
    using assms(2) by (simp add: unat_sub word_le_nat_alt unat_word_ariths)
  then show ?thesis
    using assms(1) length_serialize_block [OF assms(3)]
    by (simp add: serialize_block_size_def get_transaction_block_size_def size_simps)
qed

theorem serialize_block_fills_buffer_witness:
  "map_option unat (serialize_block_size 2) = Some (length (serialize_block 2 (zero_block 2)))"
  by (rule serialize_block_fills_buffer) (use block_sized_zero [of 2] in simp_all)

text \<open>Difficulty is monotone in the reward: a hash accepted for some reward is accepted for
  every smaller one.\<close>

theorem difficulty_monotone:
  "check_difficulty h r \<Longrightarrow> sint r' \<le> sint r \<Longrightarrow> check_difficulty h r'"
  by (rule check_difficulty_mono)

theorem difficulty_monotone_witness:
  "check_difficulty (''000001'' @ replicate 58 CHR ''f'' @ [NUL]) 1"
proof (rule difficulty_monotone)
  show "check_difficulty (''000001'' @ replicate 58 CHR ''f'' @ [NUL]) 3" by code_simp
  show "sint (1 :: c_int) \<le> sint (3 :: c_int)" by simp
qed

end
