(* ===== verification/Pipe.thy ===== *)
theory Pipe
  imports ProofOfWork
begin

text \<open>
  The named pipe between the miners and the validators: the message a miner thread writes
  (\<open>src/Miner.c\<close>: a \<open>size_t\<close> prefix, the block without its pointer, the transactions) and how a
  validator reads one (\<open>src/Validator.c\<close>: one \<open>read\<close> of the maximal size, the checks, the
  \<open>memcpy\<close>s). What \<open>read\<close> returned is the list \<open>chunk\<close>; the rest of the receive buffer holds what
  \<open>malloc\<close> left there. The lemmas show that a message is read back as the block that was written,
  that a stream of messages is cut at the right places, and which sizes the pipe writes atomically.
\<close>

section \<open>Writing\<close>

text \<open>\<open>offsetof(TransactionBlock, transactions)\<close> and the bytes behind the pointer.\<close>

definition before_transactions :: c_size where
  "before_transactions = word_of_nat (packed_size (take 4 TransactionBlock_fields))"

definition after_transactions :: c_size where
  "after_transactions = word_of_nat sizeof_TransactionBlock - before_transactions - word_of_nat sizeof_pointer"

definition header_size :: c_size where
  "header_size = before_transactions + after_transactions"

definition total_payload_size :: "c_size \<Rightarrow> c_size" where
  "total_payload_size tpb = header_size + word_of_nat sizeof_Transaction * tpb"

definition total_size :: "c_size \<Rightarrow> c_size" where
  "total_size tpb = word_of_nat sizeof_size_t + total_payload_size tpb"

text \<open>The packed block in front of its pointer; nothing lies behind it.\<close>

definition block_header :: "TransactionBlock \<Rightarrow> bytes" where
  "block_header b = txb_id b @ previous_block_hash b @ le64 (blk_timestamp b) @ le32 (nonce b)"

definition pipe_message :: "c_size \<Rightarrow> TransactionBlock \<Rightarrow> bytes" where
  "pipe_message tpb b =
     le64 (total_payload_size tpb) @ block_header b @
     concat (map tx_bytes (take (unat tpb) (transactions b)))"

section \<open>Reading\<close>

datatype ReadError = EndOfFile | TooShort | SizeMismatch

definition MAX_BLOCK_SIZE :: "c_size \<Rightarrow> c_size" where
  "MAX_BLOCK_SIZE tpb =
     word_of_nat sizeof_size_t + (word_of_nat sizeof_TransactionBlock - word_of_nat sizeof_pointer)
     + tpb * word_of_nat sizeof_Transaction"

definition parse_payload :: "c_size \<Rightarrow> bytes \<Rightarrow> TransactionBlock" where
  "parse_payload tpb payload =
     (let hs = sizeof_TransactionBlock - sizeof_pointer
      in \<lparr>txb_id = take TXB_ID_LEN payload,
          previous_block_hash = take HASH_SIZE (drop TXB_ID_LEN payload),
          blk_timestamp = rd64 (take 8 (drop (TXB_ID_LEN + HASH_SIZE) payload)),
          nonce = rd32 (take 4 (drop (TXB_ID_LEN + HASH_SIZE + 8) payload)),
          transactions = rd_array sizeof_Transaction rd_tx (unat tpb) (drop hs payload)\<rparr>)"

definition read_block :: "c_size \<Rightarrow> bytes \<Rightarrow> bytes \<Rightarrow> ReadError + TransactionBlock" where
  "read_block tpb heap chunk =
     (let buffer = chunk @ drop (length chunk) heap
      in if chunk = [] then Inl EndOfFile
         else if length chunk < sizeof_size_t then Inl TooShort
         else let payload_size = rd64 buffer
         in if (word_of_nat (length chunk) :: c_size) \<noteq> word_of_nat sizeof_size_t + payload_size
            then Inl SizeMismatch
            else Inr (parse_payload tpb (drop sizeof_size_t buffer)))"

text \<open>\<open>read\<close> on the stream of bytes in the pipe: at most the requested number, in order.\<close>

definition pipe_read :: "c_size \<Rightarrow> bytes \<Rightarrow> bytes \<times> bytes" where
  "pipe_read n stream = (take (unat n) stream, drop (unat n) stream)"

text \<open>A validator that reads until it meets an error or the end, at most \<open>fuel\<close> times: the blocks in
  order and why it stopped.\<close>

fun read_blocks :: "nat \<Rightarrow> c_size \<Rightarrow> bytes \<Rightarrow> bytes \<Rightarrow> TransactionBlock list \<times> ReadError option" where
  "read_blocks 0 tpb heap stream = ([], None)"
| "read_blocks (Suc fuel) tpb heap stream =
     (case pipe_read (MAX_BLOCK_SIZE tpb) stream of (chunk, rest) \<Rightarrow>
        case read_block tpb heap chunk of
          Inl e \<Rightarrow> ([], Some e)
        | Inr b \<Rightarrow> (case read_blocks fuel tpb heap rest of (bs, e) \<Rightarrow> (b # bs, e)))"

section \<open>Sizes\<close>

lemma header_size_eq [size_simps]: "header_size = 141"
  by (simp add: header_size_def after_transactions_def before_transactions_def size_simps
      packed_size_def TransactionBlock_fields_def)

lemma total_payload_unat: "unat tpb < 2 ^ 57 \<Longrightarrow> unat (total_payload_size tpb) = 141 + 80 * unat tpb"
  by (simp add: total_payload_size_def size_simps unat_word_ariths)

lemma total_size_unat: "unat tpb < 2 ^ 57 \<Longrightarrow> unat (total_size tpb) = 149 + 80 * unat tpb"
  using total_payload_unat [of tpb] by (simp add: total_size_def size_simps unat_word_ariths)

lemma MAX_BLOCK_SIZE_total: "MAX_BLOCK_SIZE tpb = total_size tpb"
  by (simp add: MAX_BLOCK_SIZE_def total_size_def total_payload_size_def size_simps algebra_simps)

lemma length_block_header: "block_sized tpb b \<Longrightarrow> length (block_header b) = 141"
  by (simp add: block_header_def block_sized_def size_simps)

lemma message_txs:
  "block_sized tpb b \<Longrightarrow> take (unat tpb) (transactions b) = transactions b"
  by (simp add: block_sized_def)

lemma length_pipe_message:
  "block_sized tpb b \<Longrightarrow> length (pipe_message tpb b) = 149 + 80 * unat tpb"
  using txs_bytes_length [of tpb b]
  by (simp add: pipe_message_def length_block_header message_txs size_simps del: length_concat)

section \<open>Round trip\<close>

lemma parse_payload_message:
  assumes "block_sized tpb b"
  shows "parse_payload tpb (block_header b @ concat (map tx_bytes (transactions b)) @ rest) = b"
proof -
  have l: "length (txb_id b) = 64" "length (previous_block_hash b) = 65"
    using assms by (simp_all add: block_sized_def size_simps)
  have "rd_array sizeof_Transaction rd_tx (unat tpb) (concat (map tx_bytes (transactions b)) @ rest) = transactions b"
    using tx.rd_array_enc [of "transactions b" rest] assms by (auto simp: block_sized_def list_all_iff)
  then show ?thesis
    by (simp add: parse_payload_def block_header_def l size_simps)
qed

lemma read_block_message:
  assumes "block_sized tpb b" and "unat tpb < 2 ^ 57"
  shows "read_block tpb heap (pipe_message tpb b) = Inr b"
proof -
  let ?m = "pipe_message tpb b"
  have len: "length ?m = 149 + 80 * unat tpb" by (rule length_pipe_message [OF assms(1)])
  have size: "(word_of_nat (length ?m) :: c_size) = word_of_nat sizeof_size_t + total_payload_size tpb"
    unfolding len by (simp add: total_payload_size_def size_simps)
  have prefix: "rd64 (?m @ drop (length ?m) heap) = total_payload_size tpb"
    by (simp add: rd64_def pipe_message_def)
       (metis rd64_def rd64_le64 length_le64 order_refl take_all)
  have rest: "drop sizeof_size_t (?m @ drop (length ?m) heap)
      = block_header b @ concat (map tx_bytes (transactions b)) @ drop (length ?m) heap"
    by (simp add: pipe_message_def message_txs [OF assms(1)] size_simps)
  have "?m \<noteq> []" "\<not> length ?m < sizeof_size_t" using len by (auto simp: size_simps)
  then show ?thesis
    unfolding read_block_def Let_def prefix rest
    using size parse_payload_message [OF assms(1)] by simp
qed

lemma pipe_read_message:
  assumes "block_sized tpb b" and "unat tpb < 2 ^ 57"
  shows "pipe_read (MAX_BLOCK_SIZE tpb) (pipe_message tpb b @ rest) = (pipe_message tpb b, rest)"
  using length_pipe_message [OF assms(1)] total_size_unat [OF assms(2)]
  by (simp add: pipe_read_def MAX_BLOCK_SIZE_total)

lemma read_blocks_step:
  assumes "block_sized tpb b" and "unat tpb < 2 ^ 57"
  shows "read_blocks (Suc fuel) tpb heap (pipe_message tpb b @ rest) =
    (case read_blocks fuel tpb heap rest of (bs, e) \<Rightarrow> (b # bs, e))"
  by (simp add: pipe_read_message [OF assms] read_block_message [OF assms])

section \<open>Properties\<close>

text \<open>C27: the pipe carries blocks faithfully. A validator that reads from a stream of messages, whoever
  wrote them, gets the blocks in the order they were written, each equal to the one a miner built,
  whatever the receive buffer contained, and then the end of the file.\<close>

theorem pipe_stream_roundtrip:
  assumes "unat tpb < 2 ^ 57" and "\<And>b. b \<in> set bs \<Longrightarrow> block_sized tpb b"
  shows "read_blocks (Suc (length bs)) tpb heap (concat (map (pipe_message tpb) bs)) = (bs, Some EndOfFile)"
  using assms(2)
proof (induction bs)
  case Nil
  then show ?case by (simp add: pipe_read_def read_block_def)
next
  case (Cons b bs)
  have "read_blocks (Suc (length bs)) tpb heap (concat (map (pipe_message tpb) bs)) = (bs, Some EndOfFile)"
    using Cons by simp
  moreover have "block_sized tpb b" using Cons.prems by simp
  ultimately show ?case by (simp add: read_blocks_step [OF _ assms(1)] del: read_blocks.simps)
qed

theorem pipe_stream_roundtrip_witness:
  "read_blocks 3 1 [] (concat (map (pipe_message 1) [zero_block 1, with_nonce (zero_block 1) 9]))
     = ([zero_block 1, with_nonce (zero_block 1) 9], Some EndOfFile)"
proof -
  have "block_sized 1 (zero_block 1)" using block_sized_zero [of 1] by simp
  then have "block_sized 1 b" if "b \<in> set [zero_block 1, with_nonce (zero_block 1) 9]" for b
    using that by (auto simp: block_sized_def with_nonce_def)
  with pipe_stream_roundtrip [where tpb = 1 and heap = "[]"
      and bs = "[zero_block 1, with_nonce (zero_block 1) 9]"]
  show ?thesis by (simp add: numeral_3_eq_3 del: read_blocks.simps)
qed

text \<open>What a validator does with a bad read. Nothing read ends the loop, fewer bytes than a length
  prefix are too short, and a prefix that does not match the number of bytes received is refused; a
  block is accepted only when prefix and length agree.\<close>

theorem read_block_errors:
  assumes "length chunk < 2 ^ 64"
  shows "(case read_block tpb heap chunk of
      Inl EndOfFile \<Rightarrow> chunk = []
    | Inl TooShort \<Rightarrow> 0 < length chunk \<and> length chunk < 8
    | Inl SizeMismatch \<Rightarrow> 8 \<le> length chunk \<and> unat (8 + rd64 chunk) \<noteq> length chunk
    | Inr b \<Rightarrow> 8 \<le> length chunk \<and> unat (8 + rd64 chunk) = length chunk)"
proof -
  have "unat (word_of_nat (length chunk) :: c_size) = length chunk"
    using assms by (intro unat_of_nat_64) simp
  then have eq: "(word_of_nat (length chunk) :: c_size) = w \<longleftrightarrow> length chunk = unat w" for w
    by (metis word_unat_eq_iff)
  have "8 \<le> length chunk \<Longrightarrow> rd64 (chunk @ drop (length chunk) heap) = rd64 chunk"
    by (simp add: rd64_def)
  then show ?thesis
    by (auto simp: read_block_def Let_def size_simps eq split: sum.splits ReadError.splits)
qed

theorem read_block_errors_witness:
  "read_block 1 [] [NUL, NUL] = Inl TooShort \<and> read_block 1 [] [] = Inl EndOfFile"
  using read_block_errors [of "[NUL, NUL]" 1 "[]"] read_block_errors [of "[]" 1 "[]"]
  by (auto simp: read_block_def size_simps)

text \<open>Only blocks of at most 49 transactions are written atomically. POSIX makes a \<open>write\<close> to a pipe
  atomic up to \<open>PIPE_BUF\<close> (4096 on Linux); a message has \<open>149 + 80 * TRANSACTIONS_PER_BLOCK\<close> bytes,
  and the size check of the miner compares with the pipe's capacity (65536 bytes) instead.\<close>

theorem pipe_message_atomic_iff:
  assumes "unat tpb < 2 ^ 57" and "block_sized tpb b"
  shows "length (pipe_message tpb b) = unat (total_size tpb)
    \<and> (length (pipe_message tpb b) \<le> 4096 \<longleftrightarrow> unat tpb \<le> 49)"
  using length_pipe_message [OF assms(2)] total_size_unat [OF assms(1)] by auto

theorem pipe_message_atomic_iff_witness:
  "length (pipe_message 50 (zero_block 50)) = 4149"
proof -
  have "block_sized 50 (zero_block 50)" using block_sized_zero [of 50] by simp
  from pipe_message_atomic_iff [OF _ this] have "length (pipe_message 50 (zero_block 50)) = unat (total_size 50)"
    by simp
  then show ?thesis by (simp add: total_size_def total_payload_size_def size_simps)
qed

end
