(* ===== verification/Ledger.thy ===== *)
theory Ledger
  imports ProofOfWork ShmLayout
begin

text \<open>
  The ledger as the validators use it (\<open>src/Validator.c\<close>): the origin block that the first validator
  creates, and the insertion of a block under \<open>sem_ledger\<close>, byte copies included. \<open>None\<close> stands for
  a write outside the array of blocks. The lemmas show the invariant that makes the ledger a block
  chain: every stored block names the hash of the block before it, its own nonce passes, and the
  stored bytes are those that were hashed. The locale \<open>hash_chain\<close> is the interface of an append-only
  chain; its client lemmas (linking, no rewriting of history, the tip determines the contents) hold
  for the ledger by interpretation.
\<close>

section \<open>Operations\<close>

text \<open>The copies of a transaction and of a block's fields into the shared memory.\<close>

definition store_tx :: "Transaction \<Rightarrow> Transaction \<Rightarrow> Transaction" where
  "store_tx old t =
     \<lparr>tx_id = strcpy_into (tx_id old) (tx_id t), reward = reward t, tx_value = tx_value t,
      tx_timestamp = tx_timestamp t\<rparr>"

definition store_block :: "c_size \<Rightarrow> TransactionBlock \<Rightarrow> TransactionBlock \<Rightarrow> TransactionBlock" where
  "store_block tpb old b =
     \<lparr>txb_id = strcpy_into (txb_id old) (txb_id b),
      previous_block_hash = strcpy_into (previous_block_hash old) (previous_block_hash b),
      blk_timestamp = blk_timestamp b, nonce = nonce b,
      transactions = map2 store_tx (take (unat tpb) (transactions old)) (take (unat tpb) (transactions b))\<rparr>"

definition append_block :: "c_size \<Rightarrow> bytes \<Rightarrow> TransactionBlock \<Rightarrow> Ledger \<Rightarrow> Ledger option" where
  "append_block tpb hash b L =
     (let next_index = last_block_index L + 1
      in if unat next_index < length (blocks L)
         then Some (L\<lparr>blocks := (blocks L)[unat next_index := store_block tpb (blocks L ! unat next_index) b],
                      last_block_hash := strcpy_into (last_block_hash L) hash,
                      ledger_count := ledger_count L + 1,
                      last_block_index := last_block_index L + 1\<rparr>)
         else None)"

text \<open>The second check of the previous hash, under the semaphore, then the insertion.\<close>

datatype Commit = Stale | OutOfBounds | Committed Ledger

definition commit_block :: "(bytes \<Rightarrow> bytes) \<Rightarrow> c_size \<Rightarrow> TransactionBlock \<Rightarrow> Ledger \<Rightarrow> Commit" where
  "commit_block sha tpb b L =
     (if \<not> strncmp_eq HASH_SIZE (previous_block_hash b) (last_block_hash L) then Stale
      else case append_block tpb (compute_sha256 sha tpb b) b L of
          None \<Rightarrow> OutOfBounds
        | Some L' \<Rightarrow> Committed L')"

text \<open>The origin block, created by the validator that finds the ledger empty. \<open>None\<close>: no nonce was
  found and the process exits.\<close>

definition nemesis_block :: "c_size \<Rightarrow> TransactionBlock" where
  "nemesis_block tpb = zero_block (unat tpb)"

definition create_origin :: "(bytes \<Rightarrow> bytes) \<Rightarrow> c_size \<Rightarrow> Ledger \<Rightarrow> Ledger option" where
  "create_origin sha tpb L =
     (if ledger_count L \<noteq> 0 then Some L
      else case proof_of_work sha tpb (nemesis_block tpb) of (nemesis, r) \<Rightarrow>
        (case pow_hash r of
           None \<Rightarrow> None
         | Some hash \<Rightarrow>
             let b0 = blocks L ! 0;
                 marked = (txb_id b0)[0 := CHR ''z'']
             in Some (L\<lparr>ledger_count := 1,
                        blocks := (blocks L)[0 := b0\<lparr>txb_id := strcpy_into marked (txb_id nemesis),
                                                    blk_timestamp := blk_timestamp nemesis,
                                                    nonce := nonce nemesis\<rparr>],
                        last_block_hash := strcpy_into (last_block_hash L) hash\<rparr>)))"

section \<open>The invariant\<close>

text \<open>The blocks in use.\<close>

definition entries :: "Ledger \<Rightarrow> TransactionBlock list" where
  "entries L = take (Suc (unat (last_block_index L))) (blocks L)"

definition linked :: "('b \<Rightarrow> 'h) \<Rightarrow> ('b \<Rightarrow> 'h) \<Rightarrow> 'b list \<Rightarrow> bool" where
  "linked hash prev bs \<longleftrightarrow> (\<forall>i. Suc i < length bs \<longrightarrow> prev (bs ! Suc i) = hash (bs ! i))"

definition ledger_inv :: "(bytes \<Rightarrow> bytes) \<Rightarrow> c_size \<Rightarrow> Ledger \<Rightarrow> bool" where
  "ledger_inv sha tpb L \<longleftrightarrow>
     length (blocks L) = unat (num_blocks L) \<and>
     unat (last_block_index L) < length (blocks L) \<and>
     unat (ledger_count L) = Suc (unat (last_block_index L)) \<and>
     (\<forall>b\<in>set (entries L). block_padded tpb b \<and> verify_nonce sha tpb b) \<and>
     previous_block_hash (hd (entries L)) = replicate HASH_SIZE NUL \<and>
     linked (compute_sha256 sha tpb) previous_block_hash (entries L) \<and>
     last_block_hash L = compute_sha256 sha tpb (last (entries L)) \<and>
     (\<forall>i. unat (last_block_index L) < i \<and> i < length (blocks L) \<longrightarrow> blocks L ! i = zero_block (unat tpb))"

lemma linked_append:
  "bs \<noteq> [] \<Longrightarrow> linked hash prev (bs @ [b]) \<longleftrightarrow> linked hash prev bs \<and> prev b = hash (last bs)"
proof -
  assume ne: "bs \<noteq> []"
  then obtain n where n: "length bs = Suc n" by (cases bs) auto
  have last: "last bs = bs ! n" using ne n by (simp add: last_conv_nth)
  show ?thesis
    unfolding linked_def last
    by (auto simp: n nth_append less_Suc_eq)
qed

lemma linked_take: "linked hash prev bs \<Longrightarrow> linked hash prev (take n bs)"
  by (simp add: linked_def)

section \<open>Stored blocks\<close>

lemma store_tx_zero: "tx_padded t \<Longrightarrow> store_tx zero_tx t = t"
  by (simp add: store_tx_def zero_tx_def tx_padded_def strcpy_into_zero)

lemma store_txs_zero:
  "list_all tx_padded ts \<Longrightarrow> map2 store_tx (replicate (length ts) zero_tx) ts = ts"
  by (induction ts) (simp_all add: store_tx_zero)

text \<open>A padded block is stored byte for byte in a zeroed slot.\<close>

lemma store_block_zero:
  assumes "block_padded tpb b"
  shows "store_block tpb (zero_block (unat tpb)) b = b"
  using assms store_txs_zero [of "transactions b"]
  by (simp add: store_block_def zero_block_def block_padded_def strcpy_into_zero)

lemma strncmp_padded:
  "padded n a \<Longrightarrow> padded n b \<Longrightarrow> strncmp_eq n a b \<longleftrightarrow> a = b"
  using padded_eq [of n a b] by (auto simp: strncmp_eq_def strcmp_eq_def padded_length)

lemma strcpy_into_padded:
  assumes "padded n src" and "padded n old" and "length (c_str src) = length (c_str old)"
  shows "strcpy_into old src = src"
proof -
  let ?k = "length (c_str src)"
  have src: "src = c_str src @ replicate (n - ?k) NUL" and lt: "?k < n" using assms(1) by (auto simp: padded_def)
  have "old = c_str old @ replicate (n - ?k) NUL" using assms(2,3) by (auto simp: padded_def)
  then have "drop (Suc ?k) old = replicate (n - Suc ?k) NUL"
    using assms(3) by (metis Suc_diff_le append_eq_conv_conj diff_Suc_Suc drop_drop drop_replicate plus_1_eq_Suc)
  moreover have "replicate (n - ?k) NUL = NUL # replicate (n - Suc ?k) NUL"
    using lt by (metis Suc_diff_Suc replicate_Suc)
  ultimately show ?thesis using src by (metis strcpy_into_def)
qed

text \<open>All hashes have the same length, so copying a new one over an old one leaves no rest.\<close>

lemma c_str_hash_length:
  "(\<And>bs. length (sha bs) = SHA256_DIGEST_LENGTH) \<Longrightarrow> length (c_str (compute_sha256 sha tpb b)) = 64"
proof -
  assume s: "\<And>bs. length (sha bs) = SHA256_DIGEST_LENGTH"
  let ?h = "concat (map hex_byte (take SHA256_DIGEST_LENGTH (sha (serialize_block tpb b))))"
  have "NUL \<notin> set ?h"
    using hex_digit_not_NUL nibbles_bound by (fastforce simp: hex_string simp del: set_concat)
  then have "c_str (?h @ [NUL]) = ?h" by (rule c_str_append_NUL)
  then show ?thesis
    by (simp add: compute_sha256_def hex_string length_nibbles s SHA256_DIGEST_LENGTH_def)
qed

lemma store_hash:
  assumes "\<And>bs. length (sha bs) = SHA256_DIGEST_LENGTH"
  shows "strcpy_into (compute_sha256 sha tpb a) (compute_sha256 sha tpb b) = compute_sha256 sha tpb b"
  by (rule strcpy_into_padded [where n = HASH_SIZE])
     (simp_all add: padded_compute_sha256 assms c_str_hash_length)

lemma store_hash_zero:
  assumes "\<And>bs. length (sha bs) = SHA256_DIGEST_LENGTH"
  shows "strcpy_into (replicate HASH_SIZE NUL) (compute_sha256 sha tpb b) = compute_sha256 sha tpb b"
  by (rule strcpy_into_zero) (simp add: padded_compute_sha256 assms)

section \<open>Appending\<close>

lemma entries_nonempty: "unat (last_block_index L) < length (blocks L) \<Longrightarrow> entries L \<noteq> []"
  by (cases "blocks L") (simp_all add: entries_def)

lemma length_entries: "unat (last_block_index L) < length (blocks L) \<Longrightarrow> length (entries L) = Suc (unat (last_block_index L))"
  by (simp add: entries_def)

lemma ledger_inv_index:
  assumes "ledger_inv sha tpb L" and "unat (ledger_count L) < unat (num_blocks L)"
  shows "unat (last_block_index L + 1) = Suc (unat (last_block_index L))"
    and "unat (ledger_count L + 1) = Suc (unat (ledger_count L))"
    and "Suc (unat (last_block_index L)) < length (blocks L)"
proof -
  have "unat (last_block_index L) + 1 < 4294967296" "unat (ledger_count L) + 1 < 4294967296"
    and len: "Suc (unat (last_block_index L)) < length (blocks L)"
    using assms unat_32_bound [of "num_blocks L"] unfolding ledger_inv_def by linarith+
  then show "unat (last_block_index L + 1) = Suc (unat (last_block_index L))"
    and "unat (ledger_count L + 1) = Suc (unat (ledger_count L))"
    by (simp_all add: unat_add_1)
  show "Suc (unat (last_block_index L)) < length (blocks L)" by (rule len)
qed

lemma append_block_full:
  assumes "ledger_inv sha tpb L" and "ledger_count L = num_blocks L"
  shows "append_block tpb h b L = None"
proof -
  have "Suc (unat (last_block_index L)) = unat (num_blocks L)" and "length (blocks L) = unat (num_blocks L)"
    using assms by (simp_all add: ledger_inv_def)
  moreover from this have "unat (last_block_index L + 1) = Suc (unat (last_block_index L))"
    using unat_32_bound [of "num_blocks L"] by (intro unat_add_1) simp
  ultimately show ?thesis by (simp add: append_block_def)
qed

text \<open>A padded block appended to a ledger with room.\<close>

lemma append_block_entries:
  assumes inv: "ledger_inv sha tpb L" and room: "unat (ledger_count L) < unat (num_blocks L)"
    and b: "block_padded tpb b" and digest: "\<And>bs. length (sha bs) = SHA256_DIGEST_LENGTH"
  obtains L' where "append_block tpb (compute_sha256 sha tpb b) b L = Some L'"
    and "entries L' = entries L @ [b]" and "num_blocks L' = num_blocks L"
    and "last_block_hash L' = compute_sha256 sha tpb b"
    and "unat (ledger_count L') = Suc (unat (ledger_count L))"
    and "unat (last_block_index L') = Suc (unat (last_block_index L))"
    and "blocks L' = (blocks L)[Suc (unat (last_block_index L)) := b]"
proof -
  let ?i = "Suc (unat (last_block_index L))"
  note idx = ledger_inv_index [OF inv room]
  have slot: "blocks L ! ?i = zero_block (unat tpb)" using inv idx(3) by (simp add: ledger_inv_def)
  have "strcpy_into (last_block_hash L) (compute_sha256 sha tpb b) = compute_sha256 sha tpb b"
    using inv store_hash [OF digest] by (simp add: ledger_inv_def)
  then have "append_block tpb (compute_sha256 sha tpb b) b L =
     Some (L\<lparr>blocks := (blocks L)[?i := b], last_block_hash := compute_sha256 sha tpb b,
             ledger_count := ledger_count L + 1, last_block_index := last_block_index L + 1\<rparr>)"
    by (simp add: append_block_def Let_def idx slot store_block_zero [OF b])
  moreover have "take (Suc ?i) ((blocks L)[?i := b]) = take ?i (blocks L) @ [b]"
    using idx(3) by (simp add: take_Suc_conv_app_nth)
  ultimately show thesis
    using that idx by (simp add: entries_def)
qed

lemma append_block_inv:
  assumes inv: "ledger_inv sha tpb L" and room: "unat (ledger_count L) < unat (num_blocks L)"
    and b: "block_padded tpb b" and ok: "verify_nonce sha tpb b"
    and prev: "previous_block_hash b = last_block_hash L"
    and digest: "\<And>bs. length (sha bs) = SHA256_DIGEST_LENGTH"
    and "append_block tpb (compute_sha256 sha tpb b) b L = Some L'"
  shows "ledger_inv sha tpb L'"
proof -
  from append_block_entries [OF inv room b digest] assms(7)
  have e: "entries L' = entries L @ [b]" and n: "num_blocks L' = num_blocks L"
    and h: "last_block_hash L' = compute_sha256 sha tpb b"
    and c: "unat (ledger_count L') = Suc (unat (ledger_count L))"
    and i: "unat (last_block_index L') = Suc (unat (last_block_index L))"
    and bl: "blocks L' = (blocks L)[Suc (unat (last_block_index L)) := b]"
    by (metis option.inject)+
  have ne: "entries L \<noteq> []" using inv by (simp add: ledger_inv_def entries_nonempty)
  have "linked (compute_sha256 sha tpb) previous_block_hash (entries L')"
    using inv prev by (simp add: e linked_append [OF ne] ledger_inv_def)
  moreover have "\<forall>x\<in>set (entries L'). block_padded tpb x \<and> verify_nonce sha tpb x"
    using inv b ok by (auto simp: e ledger_inv_def)
  moreover have "previous_block_hash (hd (entries L')) = replicate HASH_SIZE NUL"
    using inv ne by (simp add: e ledger_inv_def)
  ultimately show ?thesis
    using inv ledger_inv_index(3) [OF inv room]
    unfolding ledger_inv_def by (simp add: c i n h bl e)
qed

text \<open>The cases of an insertion.\<close>

lemma commit_block_cases:
  assumes inv: "ledger_inv sha tpb L" and b: "block_padded tpb b" and ok: "verify_nonce sha tpb b"
    and digest: "\<And>bs. length (sha bs) = SHA256_DIGEST_LENGTH"
  obtains (stale) "previous_block_hash b \<noteq> last_block_hash L" and "commit_block sha tpb b L = Stale"
  | (full) "previous_block_hash b = last_block_hash L" and "ledger_count L = num_blocks L"
      and "commit_block sha tpb b L = OutOfBounds"
  | (committed) L' where "previous_block_hash b = last_block_hash L"
      and "unat (ledger_count L) < unat (num_blocks L)"
      and "commit_block sha tpb b L = Committed L'" and "ledger_inv sha tpb L'"
      and "entries L' = entries L @ [b]" and "last_block_hash L' = compute_sha256 sha tpb b"
      and "num_blocks L' = num_blocks L" and "unat (ledger_count L') = Suc (unat (ledger_count L))"
proof -
  have "padded HASH_SIZE (last_block_hash L)"
    using inv padded_compute_sha256 digest by (simp add: ledger_inv_def)
  then have cmp: "strncmp_eq HASH_SIZE (previous_block_hash b) (last_block_hash L)
      \<longleftrightarrow> previous_block_hash b = last_block_hash L"
    using b by (simp add: strncmp_padded block_padded_def)
  consider "previous_block_hash b \<noteq> last_block_hash L"
    | "previous_block_hash b = last_block_hash L" "ledger_count L = num_blocks L"
    | "previous_block_hash b = last_block_hash L" "unat (ledger_count L) < unat (num_blocks L)"
    using inv unfolding ledger_inv_def by (metis Suc_leI le_neq_implies_less word_unat_eq_iff)
  then show thesis
  proof cases
    case 1
    then show thesis using stale cmp by (simp add: commit_block_def)
  next
    case 2
    then show thesis using full cmp append_block_full [OF inv] by (simp add: commit_block_def)
  next
    case 3
    from append_block_entries [OF inv 3(2) b digest] obtain L' where
      a: "append_block tpb (compute_sha256 sha tpb b) b L = Some L'"
      and L': "entries L' = entries L @ [b]" "num_blocks L' = num_blocks L"
        "last_block_hash L' = compute_sha256 sha tpb b" "unat (ledger_count L') = Suc (unat (ledger_count L))" .
    show thesis
      using committed [OF 3 _ append_block_inv [OF inv 3(2) b ok 3(1) digest a]] a L' cmp 3(1)
      by (simp add: commit_block_def)
  qed
qed

section \<open>The interface of an append-only chain\<close>

text \<open>A state with a list of entries and a tip, and an operation that adds an entry. An entry carries
  the hash of its predecessor (\<open>prev\<close>); the first one carries a value that no entry hashes to.\<close>

locale hash_chain =
  fixes inv :: "'s \<Rightarrow> bool"
    and chain :: "'s \<Rightarrow> 'b list"
    and tip :: "'s \<Rightarrow> 'h"
    and hash :: "'b \<Rightarrow> 'h"
    and prev :: "'b \<Rightarrow> 'h"
    and ok :: "'b \<Rightarrow> bool"
    and add :: "'b \<Rightarrow> 's \<Rightarrow> 's option"
  assumes chain_nonempty: "inv s \<Longrightarrow> chain s \<noteq> []"
    and chain_linked: "inv s \<Longrightarrow> linked hash prev (chain s)"
    and chain_root: "inv s \<Longrightarrow> prev (hd (chain s)) \<noteq> hash b"
    and chain_tip: "inv s \<Longrightarrow> tip s = hash (last (chain s))"
    and add_prev: "inv s \<Longrightarrow> ok b \<Longrightarrow> add b s = Some s' \<Longrightarrow> prev b = tip s"
    and add_inv: "inv s \<Longrightarrow> ok b \<Longrightarrow> add b s = Some s' \<Longrightarrow> inv s'"
    and add_chain: "inv s \<Longrightarrow> ok b \<Longrightarrow> add b s = Some s' \<Longrightarrow> chain s' = chain s @ [b]"
begin

text \<open>The tip moves to the new entry, so a competitor for the same place is refused afterwards.\<close>

lemma add_tip: "inv s \<Longrightarrow> ok b \<Longrightarrow> add b s = Some s' \<Longrightarrow> tip s' = hash b"
  using chain_tip [OF add_inv, of s b s'] add_chain [of s b s'] by simp

lemma competitor_refused:
  assumes "inv s" and "ok b" and "ok c" and "add b s = Some s'" and "prev c = tip s" and "hash b \<noteq> tip s"
  shows "add c s' = None"
proof (cases "add c s'")
  case (Some t)
  then have "prev c = hash b"
    using add_prev [OF add_inv [OF assms(1,2,4)] assms(3)] add_tip [OF assms(1,2,4)] by simp
  with assms(5,6) show ?thesis by simp
qed

text \<open>Any number of additions only appends.\<close>

lemma put_list_chain:
  "inv s \<Longrightarrow> (\<And>b. b \<in> set bs \<Longrightarrow> ok b) \<Longrightarrow> put_list add bs s = Some s' \<Longrightarrow>
   inv s' \<and> chain s' = chain s @ bs"
proof (induction bs arbitrary: s)
  case Nil
  then show ?case by simp
next
  case (Cons b bs)
  from Cons.prems(3) obtain r where r: "add b s = Some r" and s': "put_list add bs r = Some s'"
    by (auto split: option.splits)
  from Cons.prems r have "inv r" "chain r = chain s @ [b]" by (auto intro: add_inv add_chain)
  with Cons.IH [of r] Cons.prems(2) s' show ?case by simp
qed

text \<open>Two chains with the same last hash are equal or hold a collision of \<open>hash\<close>.\<close>

lemma linked_same_hash:
  assumes "inj_on hash (set xs \<union> set ys)" and "xs \<noteq> []" and "ys \<noteq> []"
    and "linked hash prev xs" and "linked hash prev ys"
    and "\<And>b. prev (hd xs) \<noteq> hash b" and "\<And>b. prev (hd ys) \<noteq> hash b"
    and "hash (last xs) = hash (last ys)"
  shows "xs = ys"
  using assms
proof (induction xs arbitrary: ys rule: rev_induct)
  case Nil
  then show ?case by simp
next
  case (snoc x xs)
  from snoc.prems(3) obtain ys' y where ys: "ys = ys' @ [y]" by (metis rev_exhaust)
  have "x = y"
    by (rule inj_onD [OF snoc.prems(1)]) (use snoc.prems(8) in \<open>simp_all add: ys\<close>)
  show ?case
  proof (cases "xs = [] \<or> ys' = []")
    case True
    then show ?thesis
      using snoc.prems(4-7) \<open>x = y\<close> linked_append [of xs hash prev x] linked_append [of ys' hash prev y]
      by (cases "xs = []"; cases "ys' = []") (auto simp: ys)
  next
    case False
    then have "linked hash prev xs" "linked hash prev ys'" "hash (last xs) = hash (last ys')"
      using snoc.prems(4,5) \<open>x = y\<close> linked_append [of xs hash prev x] linked_append [of ys' hash prev y]
      by (auto simp: ys)
    moreover have "inj_on hash (set xs \<union> set ys')"
      using snoc.prems(1) by (rule inj_on_subset) (auto simp: ys)
    ultimately have "xs = ys'"
      using snoc.IH [of ys'] snoc.prems(6,7) False by (simp add: ys)
    with \<open>x = y\<close> show ?thesis by (simp add: ys)
  qed
qed

text \<open>No place of a chain has the hash of another one, unless the chain holds a collision.\<close>

lemma linked_repeat:
  assumes "linked hash prev xs" and "\<And>b. prev (hd xs) \<noteq> hash b"
    and "i < j" and "j < length xs" and "hash (xs ! i) = hash (xs ! j)"
  shows "\<exists>a\<in>set xs. \<exists>b\<in>set xs. a \<noteq> b \<and> hash a = hash b"
  using assms(3-5)
proof (induction i arbitrary: j)
  case 0
  then obtain k where k: "j = Suc k" by (cases j) auto
  have "prev (xs ! j) = hash (xs ! k)" using assms(1) 0 by (simp add: linked_def k)
  moreover have "hd xs = xs ! 0" using 0 by (cases xs) auto
  ultimately have "xs ! 0 \<noteq> xs ! j" using assms(2) by metis
  moreover have "xs ! 0 \<in> set xs" "xs ! j \<in> set xs" using 0 by (auto intro: nth_mem)
  ultimately show ?case using 0 by blast
next
  case (Suc i)
  then obtain k where k: "j = Suc k" by (cases j) auto
  show ?case
  proof (cases "xs ! Suc i = xs ! j")
    case True
    have "prev (xs ! Suc i) = hash (xs ! i)" "prev (xs ! j) = hash (xs ! k)"
      using assms(1) Suc.prems by (simp_all add: linked_def k)
    with True have "hash (xs ! i) = hash (xs ! k)" by simp
    with Suc.IH [of k] Suc.prems show ?thesis by (simp add: k)
  next
    case False
    moreover have "xs ! Suc i \<in> set xs" "xs ! j \<in> set xs" using Suc.prems by (auto intro: nth_mem)
    ultimately show ?thesis using Suc.prems by blast
  qed
qed

lemma chain_repeat:
  "inv s \<Longrightarrow> i < j \<Longrightarrow> j < length (chain s) \<Longrightarrow> hash (chain s ! i) = hash (chain s ! j) \<Longrightarrow>
   \<exists>a\<in>set (chain s). \<exists>b\<in>set (chain s). a \<noteq> b \<and> hash a = hash b"
  by (rule linked_repeat [OF chain_linked chain_root])

lemma tip_determines_chain:
  assumes "inv s" and "inv t" and "tip s = tip t"
  shows "chain s = chain t \<or>
    (\<exists>a\<in>set (chain s) \<union> set (chain t). \<exists>b\<in>set (chain s) \<union> set (chain t). a \<noteq> b \<and> hash a = hash b)"
proof (cases "inj_on hash (set (chain s) \<union> set (chain t))")
  case True
  then have "chain s = chain t"
    by (rule linked_same_hash)
       (use assms in \<open>simp_all add: chain_nonempty chain_linked chain_root chain_tip [symmetric]\<close>)
  then show ?thesis ..
next
  case False
  then show ?thesis unfolding inj_on_def by blast
qed

end

section \<open>The ledger is such a chain\<close>

definition digest_fn :: "(bytes \<Rightarrow> bytes) \<Rightarrow> bool" where
  "digest_fn sha \<longleftrightarrow> (\<forall>bs. length (sha bs) = SHA256_DIGEST_LENGTH)"

lemma digest_fn_easy_sha: "digest_fn easy_sha"
  by (simp add: digest_fn_def length_easy_sha)

definition add_block :: "(bytes \<Rightarrow> bytes) \<Rightarrow> c_size \<Rightarrow> TransactionBlock \<Rightarrow> Ledger \<Rightarrow> Ledger option" where
  "add_block sha tpb b L = (case commit_block sha tpb b L of Committed L' \<Rightarrow> Some L' | _ \<Rightarrow> None)"

lemma add_block_cases:
  assumes "digest_fn sha" and "ledger_inv sha tpb L" and "block_padded tpb b" and "verify_nonce sha tpb b"
    and "add_block sha tpb b L = Some L'"
  shows "previous_block_hash b = last_block_hash L \<and> ledger_inv sha tpb L' \<and> entries L' = entries L @ [b]
    \<and> num_blocks L' = num_blocks L"
proof (cases rule: commit_block_cases [OF assms(2-4)])
  show "\<And>bs. length (sha bs) = SHA256_DIGEST_LENGTH" using assms(1) by (simp add: digest_fn_def)
qed (use assms(5) in \<open>simp_all add: add_block_def\<close>)

lemma hash_not_zero: "digest_fn sha \<Longrightarrow> replicate HASH_SIZE NUL \<noteq> compute_sha256 sha tpb b"
proof
  assume "digest_fn sha" and "replicate HASH_SIZE NUL = compute_sha256 sha tpb b"
  then show False
    using c_str_hash_length [of sha tpb b] c_str_replicate [of HASH_SIZE] by (simp add: digest_fn_def)
qed

lemma ledger_inv_chain:
  "ledger_inv sha tpb L \<Longrightarrow> entries L \<noteq> [] \<and> linked (compute_sha256 sha tpb) previous_block_hash (entries L)
    \<and> previous_block_hash (hd (entries L)) = replicate HASH_SIZE NUL
    \<and> last_block_hash L = compute_sha256 sha tpb (last (entries L))"
  by (simp add: ledger_inv_def entries_nonempty)

interpretation chain: hash_chain "\<lambda>L. digest_fn sha \<and> ledger_inv sha tpb L" entries last_block_hash
  "compute_sha256 sha tpb" previous_block_hash "\<lambda>b. block_padded tpb b \<and> verify_nonce sha tpb b"
  "add_block sha tpb" for sha tpb
  by unfold_locales
     (metis ledger_inv_chain, metis ledger_inv_chain, metis ledger_inv_chain hash_not_zero,
      metis ledger_inv_chain, metis add_block_cases, metis add_block_cases, metis add_block_cases)

section \<open>The origin block\<close>

lemma create_origin_inv:
  assumes "digest_fn sha" and "BLOCKCHAIN_BLOCKS cfg \<noteq> 0"
    and "create_origin sha (TRANSACTIONS_PER_BLOCK cfg) (init_ledger cfg) = Some L"
  shows "ledger_inv sha (TRANSACTIONS_PER_BLOCK cfg) L
    \<and> (\<exists>n\<le>POW_MAX_OPS. entries L = [with_nonce (nemesis_block (TRANSACTIONS_PER_BLOCK cfg)) n])
    \<and> num_blocks L = BLOCKCHAIN_BLOCKS cfg"
proof -
  let ?tpb = "TRANSACTIONS_PER_BLOCK cfg" and ?m = "unat (BLOCKCHAIN_BLOCKS cfg)"
  let ?z = "zero_block (unat ?tpb)"
  obtain m where m: "?m = Suc m" using assms(2) by (metis not0_implies_Suc unat_eq_0)
  show ?thesis
  proof (cases rule: proof_of_work_cases [of sha ?tpb "nemesis_block ?tpb"])
    case gave_up
    with assms(3) show ?thesis by (simp add: create_origin_def init_ledger_def)
  next
    case (found n)
    let ?b = "with_nonce (nemesis_block ?tpb) n"
    have len: "\<And>bs. length (sha bs) = SHA256_DIGEST_LENGTH" using assms(1) by (simp add: digest_fn_def)
    have origin: "?z\<lparr>txb_id := strcpy_into ((txb_id ?z)[0 := CHR ''z'']) (txb_id ?b),
        blk_timestamp := blk_timestamp ?b, nonce := nonce ?b\<rparr> = ?b"
    proof -
      obtain k where "TXB_ID_LEN = Suc k" by (simp add: TXB_ID_LEN_def numeral_eq_Suc)
      then have "strcpy_into ((replicate TXB_ID_LEN NUL)[0 := CHR ''z'']) (replicate TXB_ID_LEN NUL)
          = replicate TXB_ID_LEN NUL"
        unfolding \<open>TXB_ID_LEN = Suc k\<close> by (simp add: strcpy_into_def c_str_def)
      then show ?thesis by (simp add: with_nonce_def nemesis_block_def zero_block_def)
    qed
    have L: "L = (init_ledger cfg)\<lparr>ledger_count := 1, blocks := ?b # replicate m ?z,
        last_block_hash := compute_sha256 sha ?tpb ?b\<rparr>"
      using assms(3) found(4) store_hash_zero [OF len] origin
      by (auto simp: create_origin_def init_ledger_def m Let_def)
    have e: "entries L = [?b]" by (simp add: entries_def L init_ledger_def)
    have "padded TX_ID_LEN (replicate TX_ID_LEN NUL)" "padded TXB_ID_LEN (replicate TXB_ID_LEN NUL)"
      "padded HASH_SIZE (replicate HASH_SIZE NUL)"
      by (simp_all add: padded_zero TX_ID_LEN_def TXB_ID_LEN_def HASH_SIZE_def)
    then have "block_padded ?tpb ?b"
      by (simp add: block_padded_def with_nonce_def nemesis_block_def zero_block_def zero_tx_def
          tx_padded_def list_all_iff)
    moreover have "verify_nonce sha ?tpb ?b" using found(2) by (simp add: nonce_passes_def with_nonce_def)
    moreover have "previous_block_hash ?b = replicate HASH_SIZE NUL"
      by (simp add: with_nonce_def nemesis_block_def zero_block_def)
    moreover have "linked (compute_sha256 sha ?tpb) previous_block_hash [?b]" by (simp add: linked_def)
    ultimately have "ledger_inv sha ?tpb L"
      unfolding ledger_inv_def e by (auto simp: L init_ledger_def m nth_Cons')
    then show ?thesis using found(1) e by (auto simp: L init_ledger_def)
  qed
qed

lemma create_origin_once: "ledger_count L \<noteq> 0 \<Longrightarrow> create_origin sha tpb L = Some L"
  by (simp add: create_origin_def)

lemma digest_fnD: "digest_fn sha \<Longrightarrow> length (sha bs) = SHA256_DIGEST_LENGTH"
  by (simp add: digest_fn_def)

section \<open>Properties\<close>

definition demo_config :: Config where
  "demo_config = \<lparr>NUM_MINERS = 2, TRANSACTION_POOL_SIZE = 3, TRANSACTIONS_PER_BLOCK = 1, BLOCKCHAIN_BLOCKS = 5\<rparr>"

text \<open>C29: the first validator turns the zeroed ledger into a chain of one block: the origin block, all
  zero but for its nonce, which passes, and whose hash becomes the tip. The validators that come later
  leave the ledger alone.\<close>

theorem create_origin_starts_the_chain:
  assumes "digest_fn sha" and "BLOCKCHAIN_BLOCKS cfg \<noteq> 0"
    and "create_origin sha (TRANSACTIONS_PER_BLOCK cfg) (init_ledger cfg) = Some L"
  shows "ledger_inv sha (TRANSACTIONS_PER_BLOCK cfg) L
    \<and> (\<exists>n\<le>POW_MAX_OPS. entries L = [with_nonce (nemesis_block (TRANSACTIONS_PER_BLOCK cfg)) n])
    \<and> create_origin sha (TRANSACTIONS_PER_BLOCK cfg) L = Some L"
proof -
  note L = create_origin_inv [OF assms]
  then have "unat (ledger_count L) = Suc (unat (last_block_index L))" by (simp add: ledger_inv_def)
  then have "ledger_count L \<noteq> 0" by (metis Zero_not_Suc unat_0)
  with L show ?thesis by (simp add: create_origin_once)
qed

lemma example_origin: "\<exists>L. create_origin easy_sha 1 (init_ledger demo_config) = Some L"
  by (simp add: create_origin_def init_ledger_def proof_of_work_easy_sha Let_def)

theorem create_origin_starts_the_chain_witness:
  "\<exists>L. create_origin easy_sha 1 (init_ledger demo_config) = Some L \<and> ledger_inv easy_sha 1 L"
proof -
  from example_origin obtain L where "create_origin easy_sha 1 (init_ledger demo_config) = Some L" ..
  with create_origin_starts_the_chain [OF digest_fn_easy_sha, of demo_config L] show ?thesis
    by (simp add: demo_config_def)
qed

text \<open>C5: the insertion of a block under \<open>sem_ledger\<close>, on every branch. A block whose previous hash is
  not the tip is stale; the next block is written outside the array exactly when the ledger is full,
  which the code does not check; otherwise the chain grows by this block, whose hash becomes the tip,
  and stays a valid chain.\<close>

theorem commit_block_spec:
  assumes "digest_fn sha" and "ledger_inv sha tpb L" and "block_padded tpb b" and "verify_nonce sha tpb b"
  shows "case commit_block sha tpb b L of
      Stale \<Rightarrow> previous_block_hash b \<noteq> last_block_hash L
    | OutOfBounds \<Rightarrow> previous_block_hash b = last_block_hash L \<and> ledger_count L = num_blocks L
    | Committed L' \<Rightarrow> previous_block_hash b = last_block_hash L \<and> ledger_count L \<noteq> num_blocks L
        \<and> ledger_inv sha tpb L' \<and> entries L' = entries L @ [b]
        \<and> last_block_hash L' = compute_sha256 sha tpb b
        \<and> unat (ledger_count L') = Suc (unat (ledger_count L))"
  by (rule commit_block_cases [OF assms(2-4) digest_fnD [OF assms(1)]]) auto

lemma example_block:
  assumes "ledger_inv easy_sha tpb L"
  shows "block_padded tpb ((zero_block (unat tpb))\<lparr>previous_block_hash := last_block_hash L\<rparr>)"
  using assms padded_compute_sha256 [of easy_sha tpb, OF length_easy_sha]
    padded_zero [of TX_ID_LEN] padded_zero [of TXB_ID_LEN]
  by (simp add: block_padded_def zero_block_def zero_tx_def tx_padded_def list_all_iff ledger_inv_def
      TX_ID_LEN_def TXB_ID_LEN_def)

lemma easy_sha_first:
  assumes "txb_id b = c # cs"
  shows "compute_sha256 easy_sha tpb b = concat (map hex_byte (replicate 31 NUL)) @ hex_byte c @ [NUL]"
proof -
  have "hd (serialize_block tpb b) = c" "serialize_block tpb b \<noteq> []"
    by (simp_all add: serialize_block_def assms TXB_ID_LEN_def)
  then have "easy_sha (serialize_block tpb b) = replicate 31 NUL @ [c]" by (simp add: easy_sha_def)
  then show ?thesis by (simp only: compute_sha256_def) (simp add: SHA256_DIGEST_LENGTH_def)
qed

text \<open>A ledger with one block and a block that continues it.\<close>

lemma tx_padded_zero: "tx_padded zero_tx"
  using padded_zero [of TX_ID_LEN] by (simp add: tx_padded_def zero_tx_def TX_ID_LEN_def)

lemma example_commit:
  assumes "tx_padded t"
  obtains L b L' where "transactions b = [t]" and "ledger_inv easy_sha 1 L" and "ledger_count L = 1" and "num_blocks L = 5"
    and "block_padded 1 b" and "commit_block easy_sha 1 b L = Committed L'"
    and "previous_block_hash b = last_block_hash L"
    and "compute_sha256 easy_sha 1 b \<noteq> last_block_hash L"
proof -
  from example_origin obtain L where o: "create_origin easy_sha 1 (init_ledger demo_config) = Some L" ..
  then have L: "ledger_inv easy_sha 1 L" and n: "num_blocks L = 5"
    and e: "\<exists>n. entries L = [with_nonce (nemesis_block 1) n]"
    using create_origin_inv [OF digest_fn_easy_sha, of demo_config L] by (auto simp: demo_config_def)
  have "length (entries L) = unat (ledger_count L)" using L by (simp add: ledger_inv_def length_entries)
  then have "unat (ledger_count L) = 1" using e by auto
  then have cnt: "ledger_count L = 1" by (metis unat_1 word_unat_eq_iff)
  let ?b = "(zero_block 1)\<lparr>previous_block_hash := last_block_hash L, txb_id := strncpy_n TXB_ID_LEN ''B'',
    transactions := [t]\<rparr>"
  have b: "block_padded 1 ?b"
    using example_block [OF L] assms padded_strncpy_n [of "''B''" TXB_ID_LEN]
    by (simp add: block_padded_def c_str_no_NUL TXB_ID_LEN_def)
  obtain cs where id: "txb_id ?b = CHR ''B'' # cs"
    by (simp add: strncpy_n_def TXB_ID_LEN_def c_str_def)
  have "txb_id (with_nonce (nemesis_block 1) n) = NUL # replicate 63 NUL" for n
    by (simp add: nemesis_block_def with_nonce_def zero_block_def TXB_ID_LEN_def numeral_eq_Suc)
  from easy_sha_first [OF this] e ledger_inv_chain [OF L]
  have tip: "last_block_hash L = concat (map hex_byte (replicate 31 NUL)) @ hex_byte NUL @ [NUL]" by auto
  have "hex_byte CHR ''B'' \<noteq> hex_byte NUL" using hex_byte_inj by blast
  then have ne: "compute_sha256 easy_sha 1 ?b \<noteq> last_block_hash L"
    unfolding easy_sha_first [OF id] unfolding tip same_append_eq by simp
  obtain L' where "commit_block easy_sha 1 ?b L = Committed L'"
    using commit_block_cases [OF L b verify_nonce_easy_sha length_easy_sha] cnt n by auto
  then show thesis using that [OF _ L cnt n b _ _ ne] by simp
qed

theorem commit_block_spec_witness:
  "\<exists>L b L'. commit_block easy_sha 1 b L = Committed L' \<and> entries L' = entries L @ [b]"
proof -
  obtain L b L' where L: "ledger_inv easy_sha 1 L" and b: "block_padded 1 b"
    and c: "commit_block easy_sha 1 b L = Committed L'" by (rule example_commit [OF tx_padded_zero])
  from commit_block_spec [OF digest_fn_easy_sha L b verify_nonce_easy_sha] c show ?thesis by auto
qed

text \<open>History is never rewritten. Whatever sequence of blocks the validators insert, the blocks
  already in the chain stay as they are, the new ones follow in order, and every block of the result
  names the hash of its predecessor.\<close>

theorem ledger_only_grows:
  assumes "digest_fn sha" and "ledger_inv sha tpb L"
    and "\<And>b. b \<in> set bs \<Longrightarrow> block_padded tpb b \<and> verify_nonce sha tpb b"
    and "put_list (add_block sha tpb) bs L = Some L'"
  shows "entries L' = entries L @ bs \<and> linked (compute_sha256 sha tpb) previous_block_hash (entries L @ bs)"
  using chain.put_list_chain [of sha tpb L bs L'] assms chain.chain_linked [of sha tpb L'] by auto

theorem ledger_only_grows_witness:
  "\<exists>L. entries L \<noteq> [] \<and> linked (compute_sha256 easy_sha 1) previous_block_hash (entries L @ [])"
proof -
  from example_origin obtain L where o: "create_origin easy_sha 1 (init_ledger demo_config) = Some L" ..
  then have L: "ledger_inv easy_sha 1 L"
    using create_origin_inv [OF digest_fn_easy_sha, of demo_config L] by (auto simp: demo_config_def)
  from ledger_only_grows [OF digest_fn_easy_sha L, of "[]" L] ledger_inv_chain [OF L] show ?thesis by auto
qed

text \<open>Of two blocks that compete for the same place only one is accepted: once a block has been
  inserted, another block with the same previous hash is refused, unless the first block hashes to its
  own previous hash.\<close>

theorem competing_block_refused:
  assumes "digest_fn sha" and "ledger_inv sha tpb L"
    and "block_padded tpb b" and "verify_nonce sha tpb b" and "block_padded tpb c" and "verify_nonce sha tpb c"
    and "commit_block sha tpb b L = Committed L'" and "previous_block_hash c = previous_block_hash b"
    and "compute_sha256 sha tpb b \<noteq> previous_block_hash b"
  shows "commit_block sha tpb c L' = Stale"
proof -
  have b: "previous_block_hash b = last_block_hash L" and L': "ledger_inv sha tpb L'"
    and tip: "last_block_hash L' = compute_sha256 sha tpb b"
    using commit_block_cases [OF assms(2-4) digest_fnD [OF assms(1)]] assms(7) by (metis Commit.distinct Commit.inject)+
  then have "previous_block_hash c \<noteq> last_block_hash L'" using assms(8,9) by simp
  then show ?thesis
    by (rule_tac commit_block_cases [OF L' assms(5,6) digest_fnD [OF assms(1)]]) simp_all
qed

theorem competing_block_refused_witness:
  "\<exists>L b c L'. commit_block easy_sha 1 b L = Committed L' \<and> commit_block easy_sha 1 c L' = Stale
     \<and> previous_block_hash c = previous_block_hash b \<and> nonce c = nonce b + 5"
proof -
  obtain L b L' where L: "ledger_inv easy_sha 1 L" and b: "block_padded 1 b"
    and com: "commit_block easy_sha 1 b L = Committed L'"
    and ne: "previous_block_hash b = last_block_hash L" "compute_sha256 easy_sha 1 b \<noteq> last_block_hash L"
    by (rule example_commit [OF tx_padded_zero])
  let ?c = "b\<lparr>nonce := nonce b + 5\<rparr>"
  have c: "block_padded 1 ?c" using b by (simp add: block_padded_def)
  have "commit_block easy_sha 1 ?c L' = Stale"
    by (rule competing_block_refused [OF digest_fn_easy_sha L b verify_nonce_easy_sha c verify_nonce_easy_sha com])
       (use ne in simp_all)
  with com show ?thesis by fastforce
qed

text \<open>C7: the last hash commits to the whole chain. Two valid ledgers with the same last hash hold the
  same blocks, or two different byte strings with the same SHA-256 value can be read off them.\<close>

theorem last_hash_commits_to_history:
  assumes "digest_fn sha" and "ledger_inv sha tpb L" and "ledger_inv sha tpb M"
    and "last_block_hash L = last_block_hash M"
  shows "entries L = entries M \<or>
    (\<exists>a\<in>set (entries L @ entries M). \<exists>b\<in>set (entries L @ entries M).
       serialize_block tpb a \<noteq> serialize_block tpb b \<and>
       sha (serialize_block tpb a) = sha (serialize_block tpb b))"
proof (cases "entries L = entries M")
  case False
  with chain.tip_determines_chain [of sha tpb L M] assms
  obtain a b where ab: "a \<in> set (entries L @ entries M)" "b \<in> set (entries L @ entries M)" "a \<noteq> b"
    and h: "compute_sha256 sha tpb a = compute_sha256 sha tpb b" by auto
  then have "block_sized tpb a" "block_sized tpb b"
    using assms(2,3) by (auto simp: ledger_inv_def block_padded_sized)
  then have "serialize_block tpb a \<noteq> serialize_block tpb b" using serialize_block_inj ab(3) by blast
  moreover have "sha (serialize_block tpb a) = sha (serialize_block tpb b)"
    using compute_sha256_digest [OF digest_fnD [OF assms(1)] h] .
  ultimately show ?thesis using ab by blast
qed simp

theorem last_hash_commits_to_history_witness:
  "\<exists>L. ledger_inv easy_sha 1 L \<and> entries L = entries (L\<lparr>num_blocks := num_blocks L\<rparr>)"
proof -
  from example_origin obtain L where o: "create_origin easy_sha 1 (init_ledger demo_config) = Some L" ..
  then have L: "ledger_inv easy_sha 1 L" and "\<exists>x. entries L = [x]"
    using create_origin_inv [OF digest_fn_easy_sha, of demo_config L] by (auto simp: demo_config_def)
  with last_hash_commits_to_history [OF digest_fn_easy_sha L L] show ?thesis by auto
qed

end
