(* ===== verification/TxPool.thy ===== *)
theory TxPool
  imports ShmLayout "HOL-Library.Multiset"
begin

text \<open>
  The transactions pool as the processes that share it rely on it: its invariant (the counter is
  the number of occupied slots, the flags are 0 or 1, every identifier is terminated), its
  abstraction (the multiset of pending transactions) and the interface \<open>bounded_store\<close> that the
  generator and the validator provide and the rest of the development uses.
\<close>

section \<open>Invariant and abstraction\<close>

definition occupied :: "PendingTransaction \<Rightarrow> bool" where
  "occupied p \<longleftrightarrow> filled p \<noteq> 0"

definition slot_ok :: "PendingTransaction \<Rightarrow> bool" where
  "slot_ok p \<longleftrightarrow> (filled p = 0 \<or> filled p = 1) \<and> terminated TX_ID_LEN (tx_id (tx p))"

definition pool_inv :: "TransactionPool \<Rightarrow> bool" where
  "pool_inv P \<longleftrightarrow>
     length (slots P) = unat (pool_size P) \<and>
     unat (pool_count P) = length (filter occupied (slots P)) \<and>
     (\<forall>p\<in>set (slots P). slot_ok p)"

definition pending :: "TransactionPool \<Rightarrow> PendingTransaction multiset" where
  "pending P = mset (filter occupied (slots P))"

definition capacity :: "TransactionPool \<Rightarrow> nat" where
  "capacity P = unat (pool_size P)"

lemma pool_inv_slots [simp]: "pool_inv P \<Longrightarrow> take (unat (pool_size P)) (slots P) = slots P"
  by (simp add: pool_inv_def)

lemma size_pending: "size (pending P) = length (filter occupied (slots P))"
  by (simp only: pending_def size_mset)

lemma pool_inv_count: "pool_inv P \<Longrightarrow> unat (pool_count P) = size (pending P)"
  by (simp add: pool_inv_def size_pending)

lemma pool_inv_count_le: "pool_inv P \<Longrightarrow> size (pending P) \<le> capacity P"
  using length_filter_le [of occupied "slots P"] by (simp add: pool_inv_def size_pending capacity_def)

lemma terminated_zero: "terminated TX_ID_LEN (tx_id zero_tx)"
  by (simp add: zero_tx_def terminated_def TX_ID_LEN_def)

lemma slot_ok_zero [wf_intros]: "slot_ok zero_pending"
  by (simp add: slot_ok_def zero_pending_def terminated_zero)

lemma pool_inv_init [wf_intros]: "pool_inv (init_pool cfg)"
  by (auto simp: pool_inv_def init_pool_def occupied_def zero_pending_def slot_ok_def terminated_zero)

lemma pending_init: "pending (init_pool cfg) = {#}"
  by (simp add: pending_def init_pool_def occupied_def zero_pending_def)

text \<open>The pool is full exactly when no slot is free.\<close>

lemma pool_full_iff:
  assumes "pool_inv P"
  shows "unat (pool_count P) < unat (pool_size P) \<longleftrightarrow> (\<exists>p\<in>set (slots P). \<not> occupied p)"
  using assms filter_full_iff [of occupied "slots P"] length_filter_le [of occupied "slots P"]
  unfolding pool_inv_def by (metis le_neq_implies_less nat_neq_iff)

lemma mset_filter_update:
  "i < length xs \<Longrightarrow> \<not> P (xs ! i) \<Longrightarrow> P y \<Longrightarrow>
     mset (filter P (xs[i := y])) = add_mset y (mset (filter P xs))"
proof (induction xs arbitrary: i)
  case Nil
  then show ?case by simp
next
  case (Cons x xs)
  then show ?case by (cases i) auto
qed

lemma mset_filter_clear:
  "i < length xs \<Longrightarrow> P (xs ! i) \<Longrightarrow> \<not> P y \<Longrightarrow>
     mset (filter P xs) = add_mset (xs ! i) (mset (filter P (xs[i := y])))"
proof (induction xs arbitrary: i)
  case Nil
  then show ?case by simp
next
  case (Cons x xs)
  then show ?case by (cases i) auto
qed

section \<open>An example\<close>

definition example_pending :: "string \<Rightarrow> c_int \<Rightarrow> PendingTransaction" where
  "example_pending name r =
     \<lparr>filled = 1, age = 0,
      tx = \<lparr>tx_id = strncpy_n TX_ID_LEN name, reward = r, tx_value = 0, tx_timestamp = 5\<rparr>\<rparr>"

definition example_pool :: TransactionPool where
  "example_pool = \<lparr>pool_size = 3, pool_count = 2, pool_num_miners = 1, pool_tpb = 2,
     slots = [example_pending ''TX-7-0'' 1, zero_pending, example_pending ''TX-7-1'' 3]\<rparr>"

lemma example_pool_slots:
  "filled (example_pending name r) = 1" "reward (tx (example_pending name r)) = r"
  "length name < 64 \<Longrightarrow> NUL \<notin> set name \<Longrightarrow> padded TX_ID_LEN (tx_id (tx (example_pending name r)))"
  by (simp_all add: example_pending_def TX_ID_LEN_def padded_strncpy_n c_str_no_NUL)

lemma example_pool_inv: "pool_inv example_pool"
  using padded_terminated [OF example_pool_slots(3) [of "''TX-7-0''" 1]]
    padded_terminated [OF example_pool_slots(3) [of "''TX-7-1''" 3]] slot_ok_zero
  by (simp add: pool_inv_def example_pool_def occupied_def slot_ok_def example_pool_slots)
     (simp add: zero_pending_def)

section \<open>The interface of a bounded store\<close>

text \<open>\<open>put\<close> stores an item if there is room.\<close>

locale bounded_store =
  fixes inv :: "'p \<Rightarrow> bool"
    and cap :: "'p \<Rightarrow> nat"
    and content :: "'p \<Rightarrow> 'b multiset"
    and item_ok :: "'a \<Rightarrow> bool"
    and entry :: "'a \<Rightarrow> 'b"
    and put :: "'a \<Rightarrow> 'p \<Rightarrow> 'p option"
  assumes content_le: "inv p \<Longrightarrow> size (content p) \<le> cap p"
    and put_Some: "inv p \<Longrightarrow> (\<exists>q. put x p = Some q) \<longleftrightarrow> size (content p) < cap p"
    and put_inv: "inv p \<Longrightarrow> item_ok x \<Longrightarrow> put x p = Some q \<Longrightarrow> inv q"
    and put_cap: "inv p \<Longrightarrow> put x p = Some q \<Longrightarrow> cap q = cap p"
    and put_content: "inv p \<Longrightarrow> put x p = Some q \<Longrightarrow> content q = add_mset (entry x) (content p)"
begin

lemma put_None: "inv p \<Longrightarrow> put x p = None \<longleftrightarrow> size (content p) = cap p"
  using put_Some [of p x] content_le [of p] by (cases "put x p") auto

lemma put_list_content:
  "inv p \<Longrightarrow> (\<And>x. x \<in> set xs \<Longrightarrow> item_ok x) \<Longrightarrow> put_list put xs p = Some q \<Longrightarrow>
   inv q \<and> cap q = cap p \<and> content q = mset (map entry xs) + content p"
proof (induction xs arbitrary: p)
  case Nil
  then show ?case by simp
next
  case (Cons x xs)
  from Cons.prems(3) obtain r where r: "put x p = Some r" and q: "put_list put xs r = Some q"
    by (auto split: option.splits)
  from Cons.prems r have "inv r" "cap r = cap p" "content r = add_mset (entry x) (content p)"
    by (auto intro: put_inv put_cap put_content)
  with Cons.IH [of r] Cons.prems(2) q show ?case by simp
qed

lemma put_list_Some:
  "inv p \<Longrightarrow> (\<And>x. x \<in> set xs \<Longrightarrow> item_ok x) \<Longrightarrow>
   (\<exists>q. put_list put xs p = Some q) \<longleftrightarrow> size (content p) + length xs \<le> cap p"
proof (induction xs arbitrary: p)
  case Nil
  then show ?case by (simp add: content_le)
next
  case (Cons x xs)
  show ?case
  proof (cases "put x p")
    case None
    with put_None [OF Cons.prems(1)] show ?thesis by simp
  next
    case (Some r)
    with Cons.prems have r: "inv r" "cap r = cap p" "content r = add_mset (entry x) (content p)"
      by (auto intro: put_inv put_cap put_content)
    with Cons.IH [of r] Cons.prems(2) Some show ?thesis by simp
  qed
qed

end

end
