(* ===== verification/Validator.thy ===== *)
theory Validator
  imports Pipe Ledger TxPool Rounding
begin

text \<open>
  \<open>src/Validator.c\<close>: what a validator does with a block it has read from the pipe. It checks the
  nonce and the previous hash against the last hash it copied (ledger \<open>L1\<close>); under
  \<open>sem_tx_pool\<close> it looks up every transaction of the block in the pool, removes them and ages the
  rest (pool \<open>P\<close>); under \<open>sem_ledger\<close> it checks the previous hash again and inserts the block
  (ledger \<open>L2\<close>); then it reports to the statistics process by a message queue that drops
  messages when it is full. The ledgers differ when another validator works in between. The
  buffers \<open>temp_tx_array\<close> and \<open>tx_found_bitmap\<close> are written and never read, and are left out.
\<close>

section \<open>Looking transactions up\<close>

text \<open>\<open>txCompare\<close>, with \<open>None\<close> for the null pointer.\<close>

definition txCompare :: "Transaction option \<Rightarrow> Transaction option \<Rightarrow> bool" where
  "txCompare tx1 tx2 =
     (case tx1 of None \<Rightarrow> False | Some a \<Rightarrow>
        (case tx2 of None \<Rightarrow> False | Some b \<Rightarrow>
           strcmp_eq (tx_id a) (tx_id b) \<and> reward a = reward b \<and>
           f32_eq (tx_value a) (tx_value b) \<and> tx_timestamp a = tx_timestamp b))"

text \<open>The inner loop over the pool: the first occupied slot with the transaction's identifier.\<close>

definition find_tx :: "Transaction \<Rightarrow> TransactionPool \<Rightarrow> nat option" where
  "find_tx t P =
     find_index (\<lambda>s. filled s \<noteq> 0 \<and> strcmp_eq (tx_id t) (tx_id (tx s))) (take (unat (pool_size P)) (slots P))"

datatype TxCheck = Match | ContentDiffers | Missing

definition check_tx :: "Transaction \<Rightarrow> TransactionPool \<Rightarrow> TxCheck" where
  "check_tx t P =
     (case find_tx t P of
        None \<Rightarrow> Missing
      | Some j \<Rightarrow> if txCompare (Some t) (Some (tx (slots P ! j))) then Match else ContentDiffers)"

text \<open>The outer loop ends at the first transaction that does not match.\<close>

fun check_txs :: "Transaction list \<Rightarrow> TransactionPool \<Rightarrow> TxCheck" where
  "check_txs [] P = Match"
| "check_txs (t # ts) P = (case check_tx t P of Match \<Rightarrow> check_txs ts P | e \<Rightarrow> e)"

section \<open>Changing the pool\<close>

definition remove_tx :: "Transaction \<Rightarrow> TransactionPool \<Rightarrow> TransactionPool" where
  "remove_tx t P =
     (case find_tx t P of
        None \<Rightarrow> P
      | Some j \<Rightarrow> P\<lparr>slots := (slots P)[j := (slots P ! j)\<lparr>filled := 0\<rparr>], pool_count := pool_count P - 1\<rparr>)"

fun remove_txs :: "Transaction list \<Rightarrow> TransactionPool \<Rightarrow> TransactionPool" where
  "remove_txs [] P = P"
| "remove_txs (t # ts) P = remove_txs ts (remove_tx t P)"

text \<open>Ageing: every 50th time, counted from the first, the reward rises by one.\<close>

definition age_slot :: "PendingTransaction \<Rightarrow> PendingTransaction" where
  "age_slot s =
     (if filled s = 1
      then s\<lparr>tx := (if age s mod 50 = 0 then (tx s)\<lparr>reward := reward (tx s) + 1\<rparr> else tx s),
             age := age s + 1\<rparr>
      else s)"

definition age_pool :: "TransactionPool \<Rightarrow> TransactionPool" where
  "age_pool P =
     P\<lparr>slots := map age_slot (take (unat (pool_size P)) (slots P)) @ drop (unat (pool_size P)) (slots P)\<rparr>"

text \<open>The critical section on the pool.\<close>

definition pool_phase :: "c_size \<Rightarrow> TransactionBlock \<Rightarrow> TransactionPool \<Rightarrow> TxCheck \<times> TransactionPool" where
  "pool_phase tpb b P =
     (let ts = take (unat tpb) (transactions b)
      in case check_txs ts P of
          Match \<Rightarrow> (Match, age_pool (remove_txs ts P))
        | e \<Rightarrow> (e, P))"

section \<open>Messages to the statistics process\<close>

text \<open>\<open>sscanf(txb_id, "BLOCK-%d-", &miner_id) == 1\<close>: the text after the number is not required.\<close>

definition scan_miner_id :: "bytes \<Rightarrow> c_int option" where
  "scan_miner_id txb =
     (let s = c_str txb
      in if take 6 s = ''BLOCK-''
         then map_option (\<lambda>(i, _). word_of_int i) (strtol (drop 6 s))
         else None)"

definition MINER_ID_SIZE :: nat where "MINER_ID_SIZE = 7"

definition miner_id_field :: "bytes \<Rightarrow> bytes" where
  "miner_id_field txb =
     snprintf_into (replicate MINER_ID_SIZE NUL) MINER_ID_SIZE
       (case scan_miner_id txb of Some m \<Rightarrow> dec_int (sint m) | None \<Rightarrow> ''-1'')"

definition txb_id_field :: "bytes \<Rightarrow> bytes" where
  "txb_id_field txb = snprintf_into (replicate TXB_ID_LEN NUL) TXB_ID_LEN (c_str txb)"

definition reject_message :: "TransactionBlock \<Rightarrow> StatisticsMessage" where
  "reject_message b =
     \<lparr>msg_txb_id = txb_id_field (txb_id b), miner_id = miner_id_field (txb_id b),
      block_index = -1, earned_amount = -1, msg_timestamp = 0\<rparr>"

definition earned :: "c_size \<Rightarrow> TransactionBlock \<Rightarrow> c_int" where
  "earned tpb b = foldl (\<lambda>a t. a + reward t) 0 (take (unat tpb) (transactions b))"

definition accept_message :: "c_size \<Rightarrow> TransactionBlock \<Rightarrow> c_uint \<Rightarrow> c_time \<Rightarrow> StatisticsMessage" where
  "accept_message tpb b next_index now =
     \<lparr>msg_txb_id = txb_id_field (txb_id b), miner_id = miner_id_field (txb_id b),
      block_index = next_index, earned_amount = earned tpb b, msg_timestamp = now\<rparr>"

text \<open>\<open>mq_send\<close> on the queue opened with \<open>O_NONBLOCK\<close>: the message is lost when the queue is full.\<close>

definition mq_send :: "StatisticsMessage \<Rightarrow> StatisticsMessage list \<Rightarrow> StatisticsMessage list" where
  "mq_send m q = (if length q < STATISTICS_MQ_SIZE then q @ [m] else q)"

section \<open>One block\<close>

record ValidatorEnv =
  malloc_buffer :: bool
  malloc_transactions :: bool
  calloc_found_bitmap :: bool
  now :: c_time

datatype Verdict =
    Stopped
  | Rejected StatisticsMessage
  | LostRace
  | Overrun
  | Accepted StatisticsMessage

text \<open>The nonce and the previous hash, before any lock on the pool.\<close>

definition prechecks :: "(bytes \<Rightarrow> bytes) \<Rightarrow> c_size \<Rightarrow> TransactionBlock \<Rightarrow> Ledger \<Rightarrow> bool" where
  "prechecks sha tpb b L \<longleftrightarrow>
     verify_nonce sha tpb b \<and> strncmp_eq HASH_SIZE (previous_block_hash b) (last_block_hash L)"

definition validate_block ::
    "(bytes \<Rightarrow> bytes) \<Rightarrow> c_size \<Rightarrow> ValidatorEnv \<Rightarrow> TransactionBlock \<Rightarrow>
     Ledger \<Rightarrow> TransactionPool \<Rightarrow> Ledger \<Rightarrow> Verdict \<times> TransactionPool \<times> Ledger" where
  "validate_block sha tpb env b L1 P L2 =
     (if \<not> calloc_found_bitmap env then (Stopped, P, L2)
      else if \<not> prechecks sha tpb b L1 then (Rejected (reject_message b), P, L2)
      else case pool_phase tpb b P of (check, P') \<Rightarrow>
        (case check of
           Match \<Rightarrow>
             (case commit_block sha tpb b L2 of
                Stale \<Rightarrow> (LostRace, P', L2)
              | OutOfBounds \<Rightarrow> (Overrun, P', L2)
              | Committed L3 \<Rightarrow>
                  (Accepted (accept_message tpb b (last_block_index L2 + 1) (now env)), P', L3))
         | _ \<Rightarrow> (Rejected (reject_message b), P', L2)))"

text \<open>One pass through the loop, from the bytes that \<open>read\<close> returned to the queue.\<close>

definition validator_iteration ::
    "(bytes \<Rightarrow> bytes) \<Rightarrow> c_size \<Rightarrow> ValidatorEnv \<Rightarrow> bytes \<Rightarrow> bytes \<Rightarrow> StatisticsMessage list \<Rightarrow>
     Ledger \<Rightarrow> TransactionPool \<Rightarrow> Ledger \<Rightarrow>
     Verdict \<times> TransactionPool \<times> Ledger \<times> StatisticsMessage list" where
  "validator_iteration sha tpb env heap chunk q L1 P L2 =
     (if \<not> malloc_buffer env then (Stopped, P, L2, q)
      else case read_block tpb heap chunk of
          Inl e \<Rightarrow> (Stopped, P, L2, q)
        | Inr b \<Rightarrow>
            if \<not> malloc_transactions env then (Stopped, P, L2, q)
            else (case validate_block sha tpb env b L1 P L2 of (v, P', L') \<Rightarrow>
              (v, P', L',
               case v of Rejected m \<Rightarrow> mq_send m q | Accepted m \<Rightarrow> mq_send m q | _ \<Rightarrow> q)))"

section \<open>Looking up\<close>

lemma find_tx_Some:
  assumes "pool_inv P" and "find_tx t P = Some j"
  shows "j < length (slots P)" and "occupied (slots P ! j)" and "strcmp_eq (tx_id t) (tx_id (tx (slots P ! j)))"
  using find_index_Some [of _ "slots P" j] assms by (auto simp: find_tx_def occupied_def)

lemma find_tx_None:
  "pool_inv P \<Longrightarrow> find_tx t P = None \<longleftrightarrow>
     (\<forall>s\<in>set (slots P). occupied s \<longrightarrow> \<not> strcmp_eq (tx_id t) (tx_id (tx s)))"
  by (auto simp: find_tx_def find_index_None occupied_def)

text \<open>No two pending transactions have the same identifier.\<close>

definition distinct_ids :: "TransactionPool \<Rightarrow> bool" where
  "distinct_ids P \<longleftrightarrow> distinct (map (\<lambda>s. c_str (tx_id (tx s))) (filter occupied (slots P)))"

lemma distinct_map_filter_nth:
  "distinct (map f (filter Q xs)) \<Longrightarrow> i < length xs \<Longrightarrow> j < length xs \<Longrightarrow> Q (xs ! i) \<Longrightarrow> Q (xs ! j) \<Longrightarrow>
   f (xs ! i) = f (xs ! j) \<Longrightarrow> i = j"
proof (induction xs arbitrary: i j)
  case Nil
  then show ?case by simp
next
  case (Cons x xs)
  have away: "f x \<noteq> f (xs ! k)" if "Q x" "k < length xs" "Q (xs ! k)" for k
    using Cons.prems(1) that by auto
  have IH: "i = j" if "i < length xs" "j < length xs" "Q (xs ! i)" "Q (xs ! j)" "f (xs ! i) = f (xs ! j)" for i j
    using Cons.IH [OF _ that] Cons.prems(1) by (simp split: if_splits)
  show ?case
    using Cons.prems IH away by (cases i; cases j) (auto dest: sym)
qed

lemma find_tx_unique:
  assumes "pool_inv P" and "distinct_ids P" and "j < length (slots P)" and "occupied (slots P ! j)"
    and "strcmp_eq (tx_id t) (tx_id (tx (slots P ! j)))"
  shows "find_tx t P = Some j"
proof (cases "find_tx t P")
  case None
  with assms show ?thesis by (auto simp: find_tx_None)
next
  case (Some i)
  note i = find_tx_Some [OF assms(1) Some]
  have "i = j"
    by (rule distinct_map_filter_nth [OF assms(2) [unfolded distinct_ids_def] i(1) assms(3) i(2) assms(4)])
       (use i(3) assms(5) in \<open>simp add: strcmp_eq_def\<close>)
  with Some show ?thesis by simp
qed

text \<open>A block passes the lookup exactly when each of its transactions agrees with the pending
  transaction that has its identifier.\<close>

lemma check_txs_Match: "check_txs ts P = Match \<longleftrightarrow> (\<forall>t\<in>set ts. check_tx t P = Match)"
  by (induction ts) (auto split: TxCheck.splits)

lemma check_tx_Match:
  assumes "pool_inv P" and "distinct_ids P"
  shows "check_tx t P = Match \<longleftrightarrow>
    (\<exists>s\<in>set (slots P). occupied s \<and> txCompare (Some t) (Some (tx s)))"
proof
  assume "check_tx t P = Match"
  then obtain j where "find_tx t P = Some j" "txCompare (Some t) (Some (tx (slots P ! j)))"
    by (auto simp: check_tx_def split: option.splits if_splits)
  with find_tx_Some [OF assms(1)] show "\<exists>s\<in>set (slots P). occupied s \<and> txCompare (Some t) (Some (tx s))"
    by (metis nth_mem)
next
  assume "\<exists>s\<in>set (slots P). occupied s \<and> txCompare (Some t) (Some (tx s))"
  then obtain j where "j < length (slots P)" "occupied (slots P ! j)"
    and c: "txCompare (Some t) (Some (tx (slots P ! j)))"
    by (metis in_set_conv_nth)
  then have "find_tx t P = Some j"
    by (intro find_tx_unique [OF assms]) (auto simp: txCompare_def)
  with c show "check_tx t P = Match" by (simp add: check_tx_def)
qed

section \<open>Removing\<close>

lemma remove_tx_pool_size [frame_simps]: "pool_size (remove_tx t P) = pool_size P"
  by (simp add: remove_tx_def split: option.splits)

lemma remove_tx_inv:
  assumes "pool_inv P"
  shows "pool_inv (remove_tx t P)"
proof (cases "find_tx t P")
  case None
  with assms show ?thesis by (simp add: remove_tx_def)
next
  case (Some j)
  note j = find_tx_Some [OF assms Some]
  let ?Q = "(slots P)[j := (slots P ! j)\<lparr>filled := 0\<rparr>]"
  have "Suc (length (filter occupied ?Q)) = length (filter occupied (slots P))"
    using j by (intro filter_update_off) (simp_all add: occupied_def)
  moreover from this have "unat (pool_count P - 1) = length (filter occupied ?Q)"
    using assms unat_pred [of "pool_count P"] unfolding pool_inv_def by (metis diff_Suc_1 zero_less_Suc)
  moreover have "\<forall>s\<in>set ?Q. slot_ok s"
  proof
    fix s
    assume "s \<in> set ?Q"
    then have "s \<in> insert ((slots P ! j)\<lparr>filled := 0\<rparr>) (set (slots P))"
      using set_update_subset_insert by (rule rev_subsetD)
    moreover have "slots P ! j \<in> set (slots P)" using j(1) by simp
    moreover have "slot_ok ((slots P ! j)\<lparr>filled := 0\<rparr>)" if "slot_ok (slots P ! j)"
      using that by (simp add: slot_ok_def)
    ultimately show "slot_ok s" using assms unfolding pool_inv_def by blast
  qed
  ultimately show ?thesis
    using assms by (simp add: remove_tx_def Some pool_inv_def)
qed

definition has_id_of :: "PendingTransaction \<Rightarrow> Transaction \<Rightarrow> bool" where
  "has_id_of s t \<longleftrightarrow> strcmp_eq (tx_id t) (tx_id (tx s))"

text \<open>Slots emptied by identifier.\<close>

definition clear_slot :: "Transaction list \<Rightarrow> PendingTransaction \<Rightarrow> PendingTransaction" where
  "clear_slot ts s = (if occupied s \<and> (\<exists>t\<in>set ts. has_id_of s t) then s\<lparr>filled := 0\<rparr> else s)"

lemma clear_slot_tx [simp]: "tx (clear_slot ts s) = tx s"
  by (simp add: clear_slot_def)

lemma occupied_clear_slot: "occupied (clear_slot ts s) \<longleftrightarrow> occupied s \<and> \<not> (\<exists>t\<in>set ts. has_id_of s t)"
  by (auto simp: clear_slot_def occupied_def)

lemma filter_clear_slot:
  "filter occupied (map (clear_slot ts) xs) = filter (\<lambda>s. \<not> (\<exists>t\<in>set ts. has_id_of s t)) (filter occupied xs)"
  by (induction xs) (auto simp: occupied_clear_slot, auto simp: clear_slot_def)

lemma clear_slot_Cons: "clear_slot ts (clear_slot [t] s) = clear_slot (t # ts) s"
  by (auto simp: clear_slot_def occupied_def has_id_of_def)

lemma remove_tx_map:
  assumes "pool_inv P" and "distinct_ids P"
  shows "slots (remove_tx t P) = map (clear_slot [t]) (slots P)"
proof (cases "find_tx t P")
  case None
  then have "clear_slot [t] s = s" if "s \<in> set (slots P)" for s
    using that find_tx_None [OF assms(1)] by (auto simp: clear_slot_def has_id_of_def)
  with None show ?thesis by (simp add: remove_tx_def map_idI)
next
  case (Some j)
  note j = find_tx_Some [OF assms(1) Some]
  show ?thesis
  proof (rule nth_equalityI)
    fix i
    assume "i < length (slots (remove_tx t P))"
    then have i: "i < length (slots P)" by (simp add: remove_tx_def Some)
    have "i = j" if "occupied (slots P ! i)" "has_id_of (slots P ! i) t"
      using find_tx_unique [OF assms i that(1)] that(2) Some by (simp add: has_id_of_def)
    then show "slots (remove_tx t P) ! i = map (clear_slot [t]) (slots P) ! i"
      using i j by (auto simp: remove_tx_def Some clear_slot_def nth_list_update has_id_of_def)
  qed (simp add: remove_tx_def Some)
qed

lemma distinct_ids_clear:
  assumes "distinct_ids P" and "slots Q = map (clear_slot ts) (slots P)"
  shows "distinct_ids Q"
  using assms unfolding distinct_ids_def by (simp only: filter_clear_slot distinct_map_filter)

lemma remove_txs_map:
  "pool_inv P \<Longrightarrow> distinct_ids P \<Longrightarrow>
   pool_inv (remove_txs ts P) \<and> distinct_ids (remove_txs ts P) \<and> pool_size (remove_txs ts P) = pool_size P \<and>
   slots (remove_txs ts P) = map (clear_slot ts) (slots P)"
proof (induction ts arbitrary: P)
  case Nil
  then show ?case by (simp add: clear_slot_def map_idI)
next
  case (Cons t ts)
  note m = remove_tx_map [OF Cons.prems, of t]
  from Cons.IH [OF remove_tx_inv [OF Cons.prems(1)] distinct_ids_clear [OF Cons.prems(2) m]] m
  show ?case by (simp add: frame_simps comp_def clear_slot_Cons)
qed

section \<open>Ageing\<close>

lemma age_slot_frame [simp]:
  "filled (age_slot s) = filled s" "tx_id (tx (age_slot s)) = tx_id (tx s)"
  "tx_value (tx (age_slot s)) = tx_value (tx s)"
  by (simp_all add: age_slot_def)

lemma occupied_age_slot [simp]: "occupied (age_slot s) = occupied s"
  by (simp add: occupied_def)

lemma age_pool_slots: "pool_inv P \<Longrightarrow> slots (age_pool P) = map age_slot (slots P)"
  by (simp add: age_pool_def pool_inv_def)

lemma filter_age_slot: "filter occupied (map age_slot xs) = map age_slot (filter occupied xs)"
  by (induction xs) simp_all

lemma age_pool_inv:
  assumes "pool_inv P"
  shows "pool_inv (age_pool P)" and "pool_size (age_pool P) = pool_size P"
    and "distinct_ids P \<Longrightarrow> distinct_ids (age_pool P)"
proof -
  have "pool_size (age_pool P) = pool_size P" "pool_count (age_pool P) = pool_count P"
    by (simp_all add: age_pool_def)
  then show "pool_inv (age_pool P)" "pool_size (age_pool P) = pool_size P"
    using assms by (auto simp: pool_inv_def age_pool_slots [OF assms] filter_age_slot slot_ok_def)
  show "distinct_ids P \<Longrightarrow> distinct_ids (age_pool P)"
    by (simp add: distinct_ids_def age_pool_slots [OF assms] filter_age_slot comp_def)
qed

lemma pending_age_pool: "pool_inv P \<Longrightarrow> pending (age_pool P) = image_mset age_slot (pending P)"
  by (simp only: pending_def age_pool_slots filter_age_slot mset_map)

text \<open>The critical section keeps the pool well formed, on every branch.\<close>

lemma pool_phase_inv:
  assumes "pool_inv P" and "distinct_ids P" and "pool_phase tpb b P = (c, P')"
  shows "pool_inv P' \<and> distinct_ids P' \<and> pool_size P' = pool_size P"
proof -
  let ?ts = "take (unat tpb) (transactions b)"
  note r = remove_txs_map [OF assms(1,2), of ?ts]
  have "P' = P \<or> P' = age_pool (remove_txs ?ts P)"
    using assms(3) by (auto simp: pool_phase_def Let_def split: TxCheck.splits)
  then show ?thesis using assms(1,2) r age_pool_inv [of "remove_txs ?ts P"] by auto
qed

lemma pool_phase_pending:
  assumes "pool_inv P" and "distinct_ids P" and "pool_phase tpb b P = (Match, P')"
  shows "pending P' = image_mset age_slot
    (filter_mset (\<lambda>s. \<not> (\<exists>t\<in>set (take (unat tpb) (transactions b)). has_id_of s t)) (pending P))"
proof -
  let ?ts = "take (unat tpb) (transactions b)"
  note r = remove_txs_map [OF assms(1,2), of ?ts]
  have "P' = age_pool (remove_txs ?ts P)"
    using assms(3) by (auto simp: pool_phase_def Let_def split: TxCheck.splits)
  moreover have "pending (remove_txs ?ts P) = filter_mset (\<lambda>s. \<not> (\<exists>t\<in>set ?ts. has_id_of s t)) (pending P)"
    unfolding pending_def using r by (simp only: filter_clear_slot mset_filter)
  ultimately show ?thesis using r pending_age_pool by metis
qed

lemma pool_phase_check: "pool_phase tpb b P = (c, P') \<Longrightarrow>
   c = check_txs (take (unat tpb) (transactions b)) P \<and> (c \<noteq> Match \<longrightarrow> P' = P)"
  by (auto simp: pool_phase_def Let_def split: TxCheck.splits)

section \<open>The cases of a validation\<close>

lemma strncmp_tip:
  assumes "digest_fn sha" and "ledger_inv sha tpb L" and "block_padded tpb b"
  shows "strncmp_eq HASH_SIZE (previous_block_hash b) (last_block_hash L) \<longleftrightarrow> previous_block_hash b = last_block_hash L"
proof (rule strncmp_padded)
  show "padded HASH_SIZE (previous_block_hash b)" using assms(3) by (simp add: block_padded_def)
  show "padded HASH_SIZE (last_block_hash L)"
    using ledger_inv_chain [OF assms(2)] padded_compute_sha256 [OF digest_fnD [OF assms(1)]] by simp
qed

lemma validate_block_cases:
  assumes "validate_block sha tpb env b L1 P L2 = (v, P', L')" and "calloc_found_bitmap env"
  obtains (nonce_or_tip) "\<not> prechecks sha tpb b L1" and "v = Rejected (reject_message b)" and "P' = P" and "L' = L2"
  | (mismatch) "prechecks sha tpb b L1" and "check_txs (take (unat tpb) (transactions b)) P \<noteq> Match"
      and "v = Rejected (reject_message b)" and "P' = P" and "L' = L2"
  | (race) "prechecks sha tpb b L1" and "pool_phase tpb b P = (Match, P')"
      and "commit_block sha tpb b L2 = Stale" and "v = LostRace" and "L' = L2"
  | (overrun) "prechecks sha tpb b L1" and "pool_phase tpb b P = (Match, P')"
      and "commit_block sha tpb b L2 = OutOfBounds" and "v = Overrun" and "L' = L2"
  | (accepted) "prechecks sha tpb b L1" and "pool_phase tpb b P = (Match, P')"
      and "commit_block sha tpb b L2 = Committed L'"
      and "v = Accepted (accept_message tpb b (last_block_index L2 + 1) (now env))"
proof (cases "prechecks sha tpb b L1")
  case False
  with assms have "v = Rejected (reject_message b)" "P' = P" "L' = L2" by (simp_all add: validate_block_def)
  with False show thesis by (rule nonce_or_tip)
next
  case pre: True
  obtain c P1 where p: "pool_phase tpb b P = (c, P1)" by (cases "pool_phase tpb b P")
  note c = pool_phase_check [OF p]
  show thesis
  proof (cases "c = Match")
    case False
    then have "check_txs (take (unat tpb) (transactions b)) P \<noteq> Match" and "P1 = P" using c by auto
    moreover from False pre p assms this have "v = Rejected (reject_message b)" "P' = P" "L' = L2"
      by (cases c; simp add: validate_block_def)+
    ultimately show thesis using pre mismatch by blast
  next
    case True
    then have p': "pool_phase tpb b P = (Match, P1)" using p by simp
    show thesis
    proof (cases "commit_block sha tpb b L2")
      case Stale
      with assms pre p' have "v = LostRace" "P' = P1" "L' = L2" by (simp_all add: validate_block_def)
      then show thesis using pre p' Stale race by blast
    next
      case OutOfBounds
      with assms pre p' have "v = Overrun" "P' = P1" "L' = L2" by (simp_all add: validate_block_def)
      then show thesis using pre p' OutOfBounds overrun by blast
    next
      case (Committed L3)
      with assms pre p' have "v = Accepted (accept_message tpb b (last_block_index L2 + 1) (now env))"
        "P' = P1" "L' = L3" by (simp_all add: validate_block_def)
      then show thesis using pre p' Committed accepted by blast
    qed
  qed
qed

text \<open>Ageing in closed form.\<close>

lemma ticks_step: "(Suc n + 49) div 50 = (n + 49) div 50 + (if n mod 50 = 0 then 1 else 0)"
proof -
  define q r where "q = n div 50" and "r = n mod 50"
  have n: "n = 50 * q + r" and r: "r < 50" by (simp_all add: q_def r_def)
  have "Suc n + 49 = 50 * q + (r + 50)" "n + 49 = 50 * q + (r + 49)" using n by simp_all
  then have "(Suc n + 49) div 50 = q + (r + 50) div 50" "(n + 49) div 50 = q + (r + 49) div 50"
    by (simp_all only: div_mult_self4 zero_neq_numeral not_False_eq_True)
  moreover have "(r + 50) div 50 = 1" using r by (intro div_nat_eqI) simp_all
  moreover have "(r + 49) div 50 = (if r = 0 then 0 else 1)"
    using r by (cases "r = 0") (simp, auto intro!: div_nat_eqI)
  ultimately show ?thesis by (simp add: r_def)
qed

lemma age_slot_on:
  "filled s = 1 \<Longrightarrow> age (age_slot s) = age s + 1"
  "filled s = 1 \<Longrightarrow> reward (tx (age_slot s)) = reward (tx s) + (if age s mod 50 = 0 then 1 else 0)"
  by (simp_all add: age_slot_def)

lemma age_slot_iterate:
  assumes "filled s = 1" and "age s = 0" and "n < 2 ^ 32"
  shows "filled ((age_slot ^^ n) s) = 1 \<and> age ((age_slot ^^ n) s) = word_of_nat n
    \<and> reward (tx ((age_slot ^^ n) s)) = reward (tx s) + word_of_nat ((n + 49) div 50)"
  using assms(3)
proof (induction n)
  case 0
  then show ?case using assms by simp
next
  case (Suc n)
  let ?s = "(age_slot ^^ n) s"
  have IH: "filled ?s = 1" "age ?s = word_of_nat n"
    "reward (tx ?s) = reward (tx s) + word_of_nat ((n + 49) div 50)"
    using Suc by simp_all
  have "unat (age ?s mod 50) = n mod 50"
    using Suc.prems by (simp add: IH unat_mod unat_of_nat_32)
  then have tick: "age ?s mod 50 = 0 \<longleftrightarrow> n mod 50 = 0" by (metis unat_eq_0)
  have "reward (tx (age_slot ?s)) = reward (tx ?s) + (if n mod 50 = 0 then 1 else 0)"
    using IH(1) tick by (simp add: age_slot_on)
  also have "\<dots> = reward (tx s) + word_of_nat ((Suc n + 49) div 50)"
    unfolding IH(3) ticks_step by simp
  finally show ?case using IH(1,2) by (simp add: age_slot_on)
qed

text \<open>Rewards add up.\<close>

lemma earned_sum:
  assumes "length (transactions b) = unat tpb"
  shows "earned tpb b = word_of_int (\<Sum>t\<leftarrow>transactions b. sint (reward t))"
proof -
  have "foldl (\<lambda>a t. a + reward t) a ts = a + word_of_int (\<Sum>t\<leftarrow>ts. sint (reward t))" for a ts
    by (induction ts arbitrary: a) simp_all
  from this [of 0] show ?thesis by (simp add: earned_def assms)
qed

text \<open>The miner's identifier survives the way from the block to the statistics.\<close>

lemma dec_nat_6: "n < 1000000 \<Longrightarrow> length (dec_nat n) \<le> 6"
proof -
  have len: "n < 10 ^ Suc k \<Longrightarrow> length (dec_nat n) \<le> Suc k" for n k
  proof (induction k arbitrary: n)
    case 0
    then show ?case by (subst dec_nat.simps) simp
  next
    case (Suc k)
    then show ?case by (subst dec_nat.simps) (auto simp: less_mult_imp_div_less)
  qed
  assume "n < 1000000"
  then show ?thesis using len [of n 5] by simp
qed

lemma scan_miner_id_block:
  assumes "c_str txb = ''BLOCK-'' @ dec_int (sint t) @ CHR ''-'' # rest"
  shows "scan_miner_id txb = Some t"
proof -
  have "strtol (dec_int (sint t) @ CHR ''-'' # rest) = Some (long_sat (sint t), CHR ''-'' # rest)"
    by (rule strtol_dec_int) (simp add: isdigit_def)
  moreover have "long_sat (sint t) = sint t"
    using sint_32_lower [of t] sint_32_upper [of t] by (intro long_sat_id) simp_all
  ultimately show ?thesis by (simp add: scan_miner_id_def assms)
qed

text \<open>A block of one pending transaction that continues a ledger.\<close>

lemma example_pool_distinct: "distinct_ids example_pool"
  by (simp add: distinct_ids_def example_pool_def occupied_def example_pool_slots)
     (simp add: zero_pending_def example_pending_def c_str_strncpy_n c_str_no_NUL TX_ID_LEN_def)

definition example_venv :: ValidatorEnv where
  "example_venv = \<lparr>malloc_buffer = True, malloc_transactions = True, calloc_found_bitmap = True, now = 9\<rparr>"

definition example_tx :: Transaction where
  "example_tx = tx (example_pending ''TX-7-0'' 1)"

lemma example_tx_Match: "\<exists>s\<in>set (slots example_pool). occupied s \<and> txCompare (Some example_tx) (Some (tx s))"
  by (simp add: example_pool_def occupied_def example_pool_slots(1))
     (simp add: txCompare_def example_tx_def strcmp_eq_def f32_eq_def f32_is_nan_def, 
      simp add: example_pending_def)

lemma example_validation:
  obtains L b L' where "transactions b = [example_tx]" and "ledger_inv easy_sha 1 L" and "block_padded 1 b"
    and "prechecks easy_sha 1 b L" and "commit_block easy_sha 1 b L = Committed L'"
    and "ledger_inv easy_sha 1 L'" and "commit_block easy_sha 1 b L' = Stale"
proof -
  have "tx_padded example_tx"
    using example_pool_slots(3) [of "''TX-7-0''" 1] by (simp add: tx_padded_def example_tx_def)
  then obtain L b L' where b: "transactions b = [example_tx]" "block_padded 1 b" and L: "ledger_inv easy_sha 1 L"
    and c: "commit_block easy_sha 1 b L = Committed L'" and p: "previous_block_hash b = last_block_hash L"
    and ne: "compute_sha256 easy_sha 1 b \<noteq> last_block_hash L" by (rule example_commit)
  have L': "ledger_inv easy_sha 1 L'" and tip: "last_block_hash L' = compute_sha256 easy_sha 1 b"
    using commit_block_cases [OF L b(2) verify_nonce_easy_sha length_easy_sha] c by (metis Commit.distinct Commit.inject)+
  have "commit_block easy_sha 1 b L' = Stale"
    using commit_block_cases [OF L' b(2) verify_nonce_easy_sha length_easy_sha] p tip ne by metis
  then show thesis
    using that b L c L' verify_nonce_easy_sha by (simp add: prechecks_def p strncmp_eq_def)
qed

lemma example_pool_phase: "transactions b = [example_tx] \<Longrightarrow> \<exists>P'. pool_phase 1 b example_pool = (Match, P')"
  using check_tx_Match [OF example_pool_inv example_pool_distinct, of example_tx] example_tx_Match
  by (simp add: pool_phase_def Let_def)

section \<open>Properties\<close>

lemma commit_in_place:
  assumes "digest_fn sha" and "ledger_inv sha tpb L2" and "block_padded tpb b" and "verify_nonce sha tpb b"
  shows "case commit_block sha tpb b L2 of
      Stale \<Rightarrow> previous_block_hash b \<noteq> last_block_hash L2
    | OutOfBounds \<Rightarrow> ledger_count L2 = num_blocks L2
    | Committed L' \<Rightarrow> previous_block_hash b = last_block_hash L2 \<and> ledger_inv sha tpb L'
        \<and> entries L' = entries L2 @ [b]"
  by (rule commit_block_cases [OF assms(2-4) digest_fnD [OF assms(1)]]) auto



text \<open>The identifiers of the transactions of a block that passed the lookup.\<close>

definition id_of :: "Transaction \<Rightarrow> bytes" where
  "id_of t = c_str (tx_id t)"

lemma matched_ids:
  assumes "pool_inv P" and "distinct_ids P" and "distinct (map id_of ts)" and "check_txs ts P = Match"
  shows "image_mset (\<lambda>s. id_of (tx s)) (filter_mset (\<lambda>s. \<exists>t\<in>set ts. has_id_of s t) (pending P)) = mset (map id_of ts)"
proof -
  let ?xs = "filter (\<lambda>s. \<exists>t\<in>set ts. has_id_of s t) (filter occupied (slots P))"
  have "set (map (\<lambda>s. id_of (tx s)) ?xs) = set (map id_of ts)"
  proof
    show "set (map (\<lambda>s. id_of (tx s)) ?xs) \<subseteq> set (map id_of ts)"
      by (auto simp: has_id_of_def strcmp_eq_def id_of_def intro: rev_image_eqI)
    show "set (map id_of ts) \<subseteq> set (map (\<lambda>s. id_of (tx s)) ?xs)"
    proof
      fix x
      assume "x \<in> set (map id_of ts)"
      then obtain t where t: "t \<in> set ts" and x: "x = id_of t" by auto
      then have "check_tx t P = Match" using assms(4) by (simp add: check_txs_Match)
      then obtain s where "s \<in> set (slots P)" "occupied s" "strcmp_eq (tx_id t) (tx_id (tx s))"
        using check_tx_Match [OF assms(1,2)] by (auto simp: txCompare_def)
      with t x show "x \<in> set (map (\<lambda>s. id_of (tx s)) ?xs)"
        by (auto simp: has_id_of_def id_of_def strcmp_eq_def intro!: image_eqI [where x = s])
    qed
  qed
  moreover have "distinct (map (\<lambda>s. id_of (tx s)) ?xs)"
    using assms(2) unfolding distinct_ids_def id_of_def by (rule distinct_map_filter)
  ultimately have "mset (map (\<lambda>s. id_of (tx s)) ?xs) = mset (map id_of ts)"
    using assms(3) set_eq_iff_mset_eq_distinct by blast
  then show ?thesis unfolding pending_def by (simp only: mset_map mset_filter)
qed

text \<open>C16: transactions are neither lost nor invented by an accepted block. The identifiers pending before
  are those of the block together with those pending after, with their multiplicities.\<close>

theorem accepted_block_conserves_transactions:
  assumes "pool_inv P" and "distinct_ids P" and "calloc_found_bitmap env"
    and "length (transactions b) = unat tpb" and "distinct (map id_of (transactions b))"
    and "validate_block sha tpb env b L1 P L2 = (Accepted m, P', L')"
  shows "image_mset (\<lambda>s. id_of (tx s)) (pending P)
    = mset (map id_of (transactions b)) + image_mset (\<lambda>s. id_of (tx s)) (pending P')"
proof -
  have ts: "take (unat tpb) (transactions b) = transactions b" using assms(4) by simp
  from assms(6,3) have p: "pool_phase tpb b P = (Match, P')"
    by (cases rule: validate_block_cases) simp_all
  let ?q = "\<lambda>s. \<exists>t\<in>set (transactions b). has_id_of s t"
  have "check_txs (transactions b) P = Match" using pool_phase_check [OF p] by (simp add: ts)
  then have "image_mset (\<lambda>s. id_of (tx s)) (filter_mset ?q (pending P)) = mset (map id_of (transactions b))"
    by (rule matched_ids [OF assms(1,2,5)])
  moreover have "image_mset (\<lambda>s. id_of (tx s)) (pending P')
      = image_mset (\<lambda>s. id_of (tx s)) (filter_mset (\<lambda>s. \<not> ?q s) (pending P))"
    unfolding pool_phase_pending [OF assms(1,2) p] ts
    by (simp only: image_mset.compositionality comp_def) (simp add: id_of_def)
  moreover have "image_mset (\<lambda>s. id_of (tx s)) (pending P)
      = image_mset (\<lambda>s. id_of (tx s)) (filter_mset ?q (pending P))
        + image_mset (\<lambda>s. id_of (tx s)) (filter_mset (\<lambda>s. \<not> ?q s) (pending P))"
    by (subst multiset_partition [of "pending P" ?q]) (rule image_mset_union)
  ultimately show ?thesis by (simp only:)
qed

theorem accepted_block_conserves_transactions_witness:
  "\<exists>b L m P' L'. validate_block easy_sha 1 example_venv b L example_pool L = (Accepted m, P', L')
     \<and> image_mset (\<lambda>s. id_of (tx s)) (pending example_pool)
       = {#id_of example_tx#} + image_mset (\<lambda>s. id_of (tx s)) (pending P')"
proof -
  obtain L b L' where b: "transactions b = [example_tx]"
    and pre: "prechecks easy_sha 1 b L" and c: "commit_block easy_sha 1 b L = Committed L'"
    by (rule example_validation)
  obtain P' where "pool_phase 1 b example_pool = (Match, P')" using example_pool_phase [OF b(1)] ..
  with pre c obtain m where v: "validate_block easy_sha 1 example_venv b L example_pool L = (Accepted m, P', L')"
    by (simp add: validate_block_def example_venv_def)
  have "calloc_found_bitmap example_venv" by (simp add: example_venv_def)
  from accepted_block_conserves_transactions [OF example_pool_inv example_pool_distinct this _ _ v] b
  have "image_mset (\<lambda>s. id_of (tx s)) (pending example_pool)
       = {#id_of example_tx#} + image_mset (\<lambda>s. id_of (tx s)) (pending P')" by simp
  with v show ?thesis by blast
qed

text \<open>C18: a block that loses the race for the ledger takes its transactions with it. The transactions are
  removed from the pool before the second check of the tip; when that fails they are in no block and
  no longer pending, and the statistics are not told.\<close>

theorem lost_race_loses_transactions:
  assumes "pool_inv P" and "distinct_ids P" and "calloc_found_bitmap env"
    and "length (transactions b) = unat tpb" and "validate_block sha tpb env b L1 P L2 = (LostRace, P', L')"
  shows "L' = L2 \<and> (\<forall>t\<in>set (transactions b). (\<exists>s\<in>#pending P. has_id_of s t) \<and> (\<forall>s\<in>#pending P'. \<not> has_id_of s t))"
proof -
  have ts: "take (unat tpb) (transactions b) = transactions b" using assms(4) by simp
  from assms(5,3) have p: "pool_phase tpb b P = (Match, P')" and L: "L' = L2"
    by (cases rule: validate_block_cases; simp)+
  have "check_txs (transactions b) P = Match" using pool_phase_check [OF p] by (simp add: ts)
  then have "\<exists>s\<in>#pending P. has_id_of s t" if "t \<in> set (transactions b)" for t
    using that check_tx_Match [OF assms(1,2), of t]
    by (fastforce simp: check_txs_Match pending_def has_id_of_def txCompare_def)
  moreover have "\<not> has_id_of s t" if "t \<in> set (transactions b)" "s \<in># pending P'" for s t
    using that unfolding pool_phase_pending [OF assms(1,2) p] ts by (auto simp: has_id_of_def)
  ultimately show ?thesis using L by blast
qed

theorem lost_race_loses_transactions_witness:
  "\<exists>b L L' P'. validate_block easy_sha 1 example_venv b L example_pool L' = (LostRace, P', L')
     \<and> (\<exists>s\<in>#pending example_pool. has_id_of s example_tx) \<and> (\<forall>s\<in>#pending P'. \<not> has_id_of s example_tx)"
proof -
  obtain L b L' where b: "transactions b = [example_tx]"
    and pre: "prechecks easy_sha 1 b L" and c: "commit_block easy_sha 1 b L' = Stale"
    by (rule example_validation)
  obtain P' where "pool_phase 1 b example_pool = (Match, P')" using example_pool_phase [OF b(1)] ..
  with pre c have v: "validate_block easy_sha 1 example_venv b L example_pool L' = (LostRace, P', L')"
    by (simp add: validate_block_def example_venv_def)
  have "calloc_found_bitmap example_venv" by (simp add: example_venv_def)
  from lost_race_loses_transactions [OF example_pool_inv example_pool_distinct this _ v] b
  have "(\<exists>s\<in>#pending example_pool. has_id_of s example_tx) \<and> (\<forall>s\<in>#pending P'. \<not> has_id_of s example_tx)"
    by simp
  with v show ?thesis by blast
qed

lemma earned_replicate: "transactions b = replicate (unat tpb) t \<Longrightarrow> earned tpb b = word_of_nat (unat tpb) * reward t"
proof -
  have "foldl (\<lambda>a t. a + reward t) a (replicate n t) = a + word_of_nat n * reward t" for a n
    by (induction n arbitrary: a) (simp_all add: algebra_simps)
  from this [of 0] show "transactions b = replicate (unat tpb) t \<Longrightarrow> earned tpb b = word_of_nat (unat tpb) * reward t"
    by (simp add: earned_def)
qed

text \<open>C36: a block of copies of one pending transaction is accepted, and the miner earns the reward once
  for every copy, while the pool loses the single transaction.\<close>

theorem repeated_transaction_paid_repeatedly:
  assumes "pool_inv P" and "distinct_ids P" and "calloc_found_bitmap env"
    and "s \<in> set (slots P)" and "occupied s" and "txCompare (Some t) (Some (tx s))"
    and "transactions b = replicate (unat tpb) t" and "tpb \<noteq> 0"
    and "prechecks sha tpb b L1" and "commit_block sha tpb b L2 = Committed L'"
  shows "\<exists>m P'. validate_block sha tpb env b L1 P L2 = (Accepted m, P', L')
    \<and> size (pending P) = Suc (size (pending P')) \<and> earned_amount m = word_of_nat (unat tpb) * reward t"
proof -
  have one: "check_tx t P = Match" using assms(4-6) by (auto simp: check_tx_Match [OF assms(1,2)])
  then have "check_txs (take (unat tpb) (transactions b)) P = Match"
    by (simp add: check_txs_Match assms(7))
  then obtain P' where p: "pool_phase tpb b P = (Match, P')"
    by (simp add: pool_phase_def Let_def)
  let ?q = "\<lambda>s. has_id_of s t"
  have set_t: "set (take (unat tpb) (transactions b)) = {t}"
    using assms(8) by (simp add: assms(7) set_replicate_conv_if unat_eq_0)
  have "size (image_mset (\<lambda>s. id_of (tx s)) (filter_mset ?q (pending P))) = 1"
    using matched_ids [OF assms(1,2), of "[t]"] one by simp
  moreover have "size (pending P') = size (filter_mset (\<lambda>s. \<not> ?q s) (pending P))"
    using pool_phase_pending [OF assms(1,2) p] by (simp add: set_t)
  moreover have "size (pending P) = size (filter_mset ?q (pending P)) + size (filter_mset (\<lambda>s. \<not> ?q s) (pending P))"
    by (subst multiset_partition [of "pending P" ?q]) (rule size_union)
  moreover have "validate_block sha tpb env b L1 P L2
      = (Accepted (accept_message tpb b (last_block_index L2 + 1) (now env)), P', L')"
    using assms(3,9,10) p by (simp add: validate_block_def)
  ultimately show ?thesis
    using earned_replicate [OF assms(7)] by (simp add: accept_message_def)
qed

theorem repeated_transaction_paid_repeatedly_witness:
  "\<exists>b L m P' L'. validate_block easy_sha 1 example_venv b L example_pool L = (Accepted m, P', L')
     \<and> earned_amount m = 1"
proof -
  obtain L b L' where b: "transactions b = [example_tx]"
    and pre: "prechecks easy_sha 1 b L" and c: "commit_block easy_sha 1 b L = Committed L'"
    by (rule example_validation)
  obtain s where s: "s \<in> set (slots example_pool)" "occupied s" "txCompare (Some example_tx) (Some (tx s))"
    using example_tx_Match by blast
  have "calloc_found_bitmap example_venv" by (simp add: example_venv_def)
  from repeated_transaction_paid_repeatedly [OF example_pool_inv example_pool_distinct this s _ _ pre c] b
  obtain m P' where "validate_block easy_sha 1 example_venv b L example_pool L = (Accepted m, P', L')"
    and "earned_amount m = reward example_tx" by auto
  moreover have "reward example_tx = 1" by (simp add: example_tx_def example_pool_slots)
  ultimately show ?thesis by (metis (no_types))
qed

text \<open>Ageing raises the reward of a pending transaction by one in the first round it sees and then
  in every 50th: after \<open>n\<close> rounds by \<open>n / 50\<close>, rounded up.\<close>

theorem ageing_schedule:
  assumes "filled s = 1" and "age s = 0" and "n < 2 ^ 32"
  shows "age ((age_slot ^^ n) s) = word_of_nat n
    \<and> reward (tx ((age_slot ^^ n) s)) = reward (tx s) + word_of_nat ((n + 49) div 50)"
  using age_slot_iterate [OF assms] by simp

theorem ageing_schedule_witness:
  "reward (tx ((age_slot ^^ 101) (example_pending ''TX-7-0'' 1))) = 4"
  using ageing_schedule [of "example_pending ''TX-7-0'' 1" 101] by (simp add: example_pool_slots example_pending_def)

end
