(* ===== verification/Miner.thy ===== *)
theory Miner
  imports Pipe TxPool
begin

text \<open>
  \<open>src/Miner.c\<close>: one iteration of a miner thread. It looks at the two counters, selects
  transactions from the pool by random draws, takes the hash of the last block of the ledger,
  builds a block, searches a nonce and writes the block to the pipe. The pool and the ledger are
  shared, so an iteration takes the value each has when the thread holds the corresponding
  semaphore. The draws of \<open>rand\<close> and the readings of the clock are lists; a loop that has used up
  its list is still running (\<open>None\<close>). \<open>stop_threads\<close> is never set by the program and stays 0.
\<close>

section \<open>Selecting transactions\<close>

text \<open>The copy of a pool entry into the zeroed array of selected transactions.\<close>

definition copy_selected :: "Transaction \<Rightarrow> Transaction" where
  "copy_selected t =
     \<lparr>tx_id = strncpy_n TX_ID_LEN (tx_id t), reward = reward t, tx_value = tx_value t,
      tx_timestamp = tx_timestamp t\<rparr>"

definition selectable :: "PendingTransaction \<Rightarrow> bool" where
  "selectable p \<longleftrightarrow> \<not> strcmp_eq (tx_id (tx p)) (''0'' @ [NUL]) \<and> filled p = 1"

text \<open>The \<open>while\<close> loop over random draws. \<open>selected_bitmap\<close> is consulted but never written.\<close>

fun select_loop ::
    "nat list \<Rightarrow> c_size \<Rightarrow> TransactionPool \<Rightarrow> bool list \<Rightarrow> Transaction list \<Rightarrow> Transaction list option" where
  "select_loop rnds tpb P selected_bitmap selected =
     (if int (length selected) < sint (ucast tpb :: c_int) \<and> unat tpb \<le> unat (pool_count P)
      then case rnds of
          [] \<Rightarrow> None
        | r # rs \<Rightarrow>
            let random_index = r mod unat (pool_size P)
            in if selected_bitmap ! random_index then select_loop rs tpb P selected_bitmap selected
               else let current_transaction = slots P ! random_index
               in if selectable current_transaction
                  then select_loop rs tpb P selected_bitmap
                         (selected @ [copy_selected (tx current_transaction)])
                  else select_loop rs tpb P selected_bitmap selected
      else Some selected)"

declare select_loop.simps [simp del]

datatype Selection = StillSelecting | NotEnough | AllocFailed | Selected "Transaction list"

text \<open>The critical section on the pool: the recheck, the bitmap, the loop, \<open>enough_transactions\<close>.\<close>

definition select_transactions ::
    "bool \<Rightarrow> nat list \<Rightarrow> c_size \<Rightarrow> TransactionPool \<Rightarrow> Selection" where
  "select_transactions calloc_ok rnds tpb P =
     (if unat tpb \<le> unat (pool_count P)
      then if \<not> calloc_ok then AllocFailed
           else case select_loop rnds tpb P (replicate (unat (pool_size P)) False) [] of
               None \<Rightarrow> StillSelecting
             | Some selected \<Rightarrow>
                 if int (length selected) = sint (ucast tpb :: c_int) then Selected selected else NotEnough
      else NotEnough)"

section \<open>The other steps of an iteration\<close>

text \<open>The unlocked check of the two counters that were read under their semaphores.\<close>

definition nothing_to_do :: "c_size \<Rightarrow> c_int \<Rightarrow> c_uint \<Rightarrow> c_uint \<Rightarrow> bool" where
  "nothing_to_do tpb nblocks tx_count ledger_cnt \<longleftrightarrow> unat tx_count < unat tpb \<or> nblocks \<le> ledger_cnt"

text \<open>The critical section on the ledger: \<open>None\<close> when it is full.\<close>

definition get_previous_hash :: "c_int \<Rightarrow> Ledger \<Rightarrow> bytes option" where
  "get_previous_hash nblocks L =
     (if ledger_count L < nblocks then Some (strncpy_n HASH_SIZE (last_block_hash L)) else None)"

definition block_id_text :: "c_int \<Rightarrow> c_int \<Rightarrow> string" where
  "block_id_text thread_id block_number =
     ''BLOCK-'' @ dec_int (sint thread_id) @ ''-'' @ dec_int (sint block_number)"

definition build_block :: "c_int \<Rightarrow> c_int \<Rightarrow> bytes \<Rightarrow> Transaction list \<Rightarrow> TransactionBlock" where
  "build_block thread_id block_number previous selected =
     \<lparr>txb_id = snprintf_into (replicate TXB_ID_LEN NUL) TXB_ID_LEN (block_id_text thread_id block_number),
      previous_block_hash = strncpy_n HASH_SIZE previous,
      blk_timestamp = 0, nonce = 0, transactions = selected\<rparr>"

text \<open>The \<open>do ... while\<close> around \<open>proof_of_work\<close>: a new timestamp for each attempt.\<close>

fun mine_loop :: "(bytes \<Rightarrow> bytes) \<Rightarrow> c_size \<Rightarrow> c_time list \<Rightarrow> TransactionBlock \<Rightarrow> TransactionBlock option" where
  "mine_loop sha tpb [] block = None"
| "mine_loop sha tpb (now # clocks) block =
     (case proof_of_work sha tpb (block\<lparr>blk_timestamp := now\<rparr>) of
        (block', r) \<Rightarrow> if pow_error r = 1 then mine_loop sha tpb clocks block' else Some block')"

section \<open>A whole iteration\<close>

record MinerThread =
  thread_id :: c_int
  block_number :: c_int

record MinerEnv =
  calloc_resources_ok :: bool
  calloc_selected_ok :: bool
  calloc_bitmap_ok :: bool
  malloc_buffer_ok :: bool
  rand_draws :: "nat list"
  clock_times :: "c_time list"

datatype MinerOutcome = Continue | Break | Running | Written bytes TransactionBlock

text \<open>One pass through the outer loop after \<open>sem_timedwait\<close>. The arguments \<open>P1\<close>, \<open>L1\<close>, \<open>P2\<close>, \<open>L2\<close>
  are the pool and the ledger at the four critical sections, in order.\<close>

definition miner_iteration ::
    "(bytes \<Rightarrow> bytes) \<Rightarrow> Config \<Rightarrow> MinerEnv \<Rightarrow> MinerThread \<Rightarrow>
     TransactionPool \<Rightarrow> Ledger \<Rightarrow> TransactionPool \<Rightarrow> Ledger \<Rightarrow> MinerThread \<times> MinerOutcome" where
  "miner_iteration sha cfg env th P1 L1 P2 L2 =
     (let tpb = TRANSACTIONS_PER_BLOCK cfg; nblocks = BLOCKCHAIN_BLOCKS cfg
      in if \<not> calloc_resources_ok env then (th, Continue)
         else if nothing_to_do tpb nblocks (pool_count P1) (ledger_count L1) then (th, Continue)
         else if \<not> calloc_selected_ok env then (th, Continue)
         else case select_transactions (calloc_bitmap_ok env) (rand_draws env) tpb P2 of
             StillSelecting \<Rightarrow> (th, Running)
           | NotEnough \<Rightarrow> (th, Continue)
           | AllocFailed \<Rightarrow> (th, Continue)
           | Selected selected \<Rightarrow>
               (case get_previous_hash nblocks L2 of
                  None \<Rightarrow> (th, Break)
                | Some previous \<Rightarrow>
                    let block = build_block (thread_id th) (block_number th) previous selected;
                        th' = th\<lparr>block_number := block_number th + 1\<rparr>
                    in case mine_loop sha tpb (clock_times env) block of
                         None \<Rightarrow> (th', Running)
                       | Some mined \<Rightarrow>
                           if malloc_buffer_ok env then (th', Written (pipe_message tpb mined) mined)
                           else (th', Continue)))"

section \<open>The selection loop\<close>

text \<open>The transactions that a sequence of draws hits, in order.\<close>

definition hits :: "nat list \<Rightarrow> TransactionPool \<Rightarrow> Transaction list" where
  "hits rnds P =
     map (\<lambda>p. copy_selected (tx p)) (filter selectable (map (\<lambda>r. slots P ! (r mod unat (pool_size P))) rnds))"

lemma tpb_int: "unat tpb < 2147483648 \<Longrightarrow> sint (ucast (tpb :: c_size) :: c_int) = int (unat tpb)"
proof -
  assume "unat tpb < 2147483648"
  moreover from this have "unat (ucast tpb :: c_int) = unat tpb"
    by (simp add: unsigned_ucast_eq take_bit_nat_eq_self)
  ultimately show ?thesis using sint_small [of "ucast tpb"] by simp
qed

lemma tpb_guard:
  assumes "unat tpb < 2147483648"
  shows "int n < sint (ucast (tpb :: c_size) :: c_int) \<longleftrightarrow> n < unat tpb"
    and "int n = sint (ucast tpb :: c_int) \<longleftrightarrow> n = unat tpb"
  by (simp_all only: tpb_int [OF assms] of_nat_less_iff of_nat_eq_iff)

text \<open>The loop returns the first hits, as many as a block needs, and otherwise is still running.\<close>

lemma select_loop_hits:
  assumes "unat tpb < 2147483648" and "unat tpb \<le> unat (pool_count P)" and "0 < unat (pool_size P)"
    and "length sel \<le> unat tpb"
  shows "select_loop rnds tpb P (replicate (unat (pool_size P)) False) sel =
    (if unat tpb \<le> length sel + length (hits rnds P)
     then Some (sel @ take (unat tpb - length sel) (hits rnds P)) else None)"
  using assms(4)
proof (induction rnds arbitrary: sel)
  case Nil
  then show ?case
    by (subst select_loop.simps) (auto simp: hits_def tpb_guard [OF assms(1)] assms(2))
next
  case (Cons r rs)
  let ?p = "slots P ! (r mod unat (pool_size P))"
  have bit: "\<not> replicate (unat (pool_size P)) False ! (r mod unat (pool_size P))"
    using assms(3) by simp
  show ?case
  proof (cases "length sel < unat tpb")
    case False
    with Cons.prems have "length sel = unat tpb" by simp
    then show ?thesis
      by (subst select_loop.simps) (simp add: tpb_int [OF assms(1)])
  next
    case True
    have step: "select_loop (r # rs) tpb P (replicate (unat (pool_size P)) False) sel =
      select_loop rs tpb P (replicate (unat (pool_size P)) False)
        (if selectable ?p then sel @ [copy_selected (tx ?p)] else sel)"
      using True bit by (subst select_loop.simps) (simp add: tpb_guard [OF assms(1)] assms(2) Let_def)
    have hits: "hits (r # rs) P = (if selectable ?p then [copy_selected (tx ?p)] else []) @ hits rs P"
      by (simp add: hits_def)
    show ?thesis
    proof (cases "selectable ?p")
      case True
      have "unat tpb - length sel = Suc (unat tpb - Suc (length sel))"
        using \<open>length sel < unat tpb\<close> by simp
      then show ?thesis
        using True Cons.IH [of "sel @ [copy_selected (tx ?p)]"] \<open>length sel < unat tpb\<close>
        by (simp add: step hits)
    next
      case False
      then show ?thesis using Cons.IH [of sel] Cons.prems by (simp add: step hits)
    qed
  qed
qed

lemma select_transactions_hits:
  assumes "unat tpb < 2147483648" and "unat tpb \<le> unat (pool_count P)" and "0 < unat (pool_size P)"
  shows "select_transactions True rnds tpb P =
    (if unat tpb \<le> length (hits rnds P) then Selected (take (unat tpb) (hits rnds P)) else StillSelecting)"
  using select_loop_hits [OF assms, of "[]" rnds]
  by (simp add: select_transactions_def assms(2) tpb_int [OF assms(1)] min_def)

lemma select_transactions_few:
  "unat (pool_count P) < unat tpb \<Longrightarrow> select_transactions ok rnds tpb P = NotEnough"
  by (simp add: select_transactions_def)

lemma set_hits:
  assumes "t \<in> set (hits rnds P)" and "length (slots P) = unat (pool_size P)" and "0 < unat (pool_size P)"
  shows "\<exists>p\<in>set (slots P). selectable p \<and> t = copy_selected (tx p)"
proof -
  from assms(1) obtain r where "selectable (slots P ! (r mod unat (pool_size P)))"
    and "t = copy_selected (tx (slots P ! (r mod unat (pool_size P))))" by (auto simp: hits_def)
  moreover have "slots P ! (r mod unat (pool_size P)) \<in> set (slots P)"
    using assms(2,3) by simp
  ultimately show ?thesis by blast
qed

lemma Selected_from_pool:
  assumes "pool_inv P" and "0 < unat tpb" and "unat tpb < 2147483648"
    and "select_transactions ok rnds tpb P = Selected ts"
  shows "unat tpb \<le> unat (pool_count P) \<and> length ts = unat tpb \<and>
    (\<forall>t\<in>set ts. \<exists>p\<in>set (slots P). selectable p \<and> t = copy_selected (tx p))"
proof -
  from assms(4) have n: "unat tpb \<le> unat (pool_count P)" and ok: "ok"
    by (auto simp: select_transactions_def split: if_splits)
  have pos: "0 < unat (pool_size P)"
    using n assms(2) pool_inv_count_le [OF assms(1)] pool_inv_count [OF assms(1)] by (simp add: capacity_def)
  have ts: "ts = take (unat tpb) (hits rnds P)" and l: "unat tpb \<le> length (hits rnds P)"
    using assms(4) ok select_transactions_hits [OF assms(3) n pos, of rnds] by (auto split: if_splits)
  have "\<forall>t\<in>set ts. \<exists>p\<in>set (slots P). selectable p \<and> t = copy_selected (tx p)"
    using set_hits [of _ rnds P] assms(1) pos unfolding ts pool_inv_def by (meson in_set_takeD)
  with n ts l show ?thesis by simp
qed

section \<open>Blocks\<close>

lemma copy_selected_padded:
  "terminated TX_ID_LEN (tx_id t) \<Longrightarrow> tx_padded (copy_selected t)"
  by (simp add: tx_padded_def copy_selected_def padded_strncpy_n terminated_c_str)

lemma Selected_padded:
  assumes "pool_inv P" and "0 < unat tpb" and "unat tpb < 2147483648"
    and "select_transactions ok rnds tpb P = Selected ts"
  shows "list_all tx_padded ts"
  using Selected_from_pool [OF assms] assms(1) copy_selected_padded
  by (fastforce simp: list_all_iff pool_inv_def slot_ok_def)

lemma NUL_notin_block_id_text [simp]: "NUL \<notin> set (block_id_text t n)"
  by (simp add: block_id_text_def)

lemma length_block_id_text: "length (block_id_text t n) \<le> 29"
proof -
  have "\<bar>sint w\<bar> \<le> 2147483648" for w :: c_int
    using sint_32_lower [of w] sint_32_upper [of w] by linarith
  then have "length (dec_int (sint w)) \<le> 11" for w :: c_int by (rule dec_int_length_32)
  from this [of t] this [of n] show ?thesis by (simp add: block_id_text_def)
qed

lemma block_id_padded:
  "padded TXB_ID_LEN (snprintf_into (replicate TXB_ID_LEN NUL) TXB_ID_LEN (block_id_text t n))"
  using length_block_id_text [of t n] by (intro padded_snprintf_into) (simp_all add: TXB_ID_LEN_def)

lemma c_str_block_id:
  "c_str (snprintf_into (replicate TXB_ID_LEN NUL) TXB_ID_LEN (block_id_text t n)) = block_id_text t n"
  using length_block_id_text [of t n] by (simp add: c_str_snprintf_into TXB_ID_LEN_def)

lemma build_block_padded:
  assumes "padded HASH_SIZE prev" and "list_all tx_padded ts" and "length ts = unat tpb"
  shows "block_padded tpb (build_block t n prev ts)"
  using assms by (simp add: block_padded_def build_block_def block_id_padded strncpy_n_padded)

lemma mine_loop_Some:
  "mine_loop sha tpb clocks b = Some b' \<Longrightarrow>
   verify_nonce sha tpb b' \<and> (\<exists>t n. b' = b\<lparr>blk_timestamp := t, nonce := n\<rparr>)"
proof (induction clocks arbitrary: b)
  case Nil
  then show ?case by simp
next
  case (Cons now clocks)
  show ?case
  proof (cases rule: proof_of_work_cases [of sha tpb "b\<lparr>blk_timestamp := now\<rparr>"])
    case (found n)
    with Cons.prems have "b' = with_nonce (b\<lparr>blk_timestamp := now\<rparr>) n" by simp
    with found(2) show ?thesis by (auto simp: nonce_passes_def with_nonce_def)
  next
    case gave_up
    with Cons.prems have "mine_loop sha tpb clocks (with_nonce (b\<lparr>blk_timestamp := now\<rparr>) (Suc POW_MAX_OPS)) = Some b'"
      by simp
    from Cons.IH [OF this] show ?thesis by (auto simp: with_nonce_def)
  qed
qed

text \<open>Everything a written block is known to satisfy.\<close>

lemma miner_iteration_Written:
  assumes "miner_iteration sha cfg env th P1 L1 P2 L2 = (th', Written msg b)"
    and "pool_inv P2" and "padded HASH_SIZE (last_block_hash L2)"
    and "0 < unat (TRANSACTIONS_PER_BLOCK cfg)" and "unat (TRANSACTIONS_PER_BLOCK cfg) < 2147483648"
  shows "msg = pipe_message (TRANSACTIONS_PER_BLOCK cfg) b
    \<and> block_padded (TRANSACTIONS_PER_BLOCK cfg) b
    \<and> verify_nonce sha (TRANSACTIONS_PER_BLOCK cfg) b
    \<and> previous_block_hash b = last_block_hash L2 \<and> ledger_count L2 < BLOCKCHAIN_BLOCKS cfg
    \<and> c_str (txb_id b) = block_id_text (thread_id th) (block_number th)
    \<and> (\<forall>t\<in>set (transactions b). \<exists>p\<in>set (slots P2). selectable p \<and> t = copy_selected (tx p))"
proof -
  let ?tpb = "TRANSACTIONS_PER_BLOCK cfg"
  from assms(1) obtain ts prev where
    sel: "select_transactions (calloc_bitmap_ok env) (rand_draws env) ?tpb P2 = Selected ts"
    and prev: "get_previous_hash (BLOCKCHAIN_BLOCKS cfg) L2 = Some prev"
    and mined: "mine_loop sha ?tpb (clock_times env) (build_block (thread_id th) (block_number th) prev ts) = Some b"
    and msg: "msg = pipe_message ?tpb b"
    unfolding miner_iteration_def Let_def
    by (auto split: if_splits Selection.splits option.splits)
  from prev have p: "prev = last_block_hash L2" "ledger_count L2 < BLOCKCHAIN_BLOCKS cfg"
    using strncpy_n_padded [OF assms(3)] by (auto simp: get_previous_hash_def split: if_splits)
  from mine_loop_Some [OF mined] obtain t n where
    b: "b = (build_block (thread_id th) (block_number th) prev ts)\<lparr>blk_timestamp := t, nonce := n\<rparr>"
    and ok: "verify_nonce sha ?tpb b" by blast
  note from_pool = Selected_from_pool [OF assms(2,4,5) sel]
  have "list_all tx_padded ts" by (rule Selected_padded [OF assms(2,4,5) sel])
  then have "block_padded ?tpb (build_block (thread_id th) (block_number th) prev ts)"
    using from_pool assms(3) p(1) by (intro build_block_padded) simp_all
  then have "block_padded ?tpb b" by (simp add: b block_padded_def)
  then show ?thesis
    using msg ok p from_pool strncpy_n_padded [OF assms(3)]
    by (simp add: b build_block_def c_str_block_id)
qed

lemma select_loop_cong_hits:
  assumes "pool_inv P" and "unat tpb \<le> unat (pool_count P)" and "0 < unat tpb" and "unat tpb < 2147483648"
  shows "select_transactions True rnds tpb P =
    (if unat tpb \<le> length (hits rnds P) then Selected (take (unat tpb) (hits rnds P)) else StillSelecting)"
proof (rule select_transactions_hits [OF assms(4,2)])
  show "0 < unat (pool_size P)"
    using assms(2,3) pool_inv_count_le [OF assms(1)] pool_inv_count [OF assms(1)] by (simp add: capacity_def)
qed

section \<open>Properties\<close>

text \<open>C19: the selection loop returns exactly the first \<open>TRANSACTIONS_PER_BLOCK\<close> draws that hit a pending
  transaction, in the order of the draws, and goes on drawing as long as there are fewer hits. A pool
  that holds fewer transactions than a block needs is left at once.\<close>

theorem selection_is_first_hits:
  assumes "pool_inv P" and "0 < unat tpb" and "unat tpb < 2147483648"
  shows "select_transactions True rnds tpb P =
    (if unat (pool_count P) < unat tpb then NotEnough
     else if unat tpb \<le> length (hits rnds P) then Selected (take (unat tpb) (hits rnds P))
     else StillSelecting)"
  using select_loop_cong_hits [OF assms(1) _ assms(2,3), of rnds] select_transactions_few [of P tpb True rnds]
  by (simp add: not_less)

lemma example_selectable: "selectable (example_pending ''TX-7-0'' r)" "selectable (example_pending ''TX-7-1'' r)"
  "\<not> selectable zero_pending"
  by (simp_all add: selectable_def example_pending_def strcmp_eq_def strncpy_n_def TX_ID_LEN_def
      c_str_def zero_pending_def)

theorem selection_is_first_hits_witness:
  "select_transactions True [4, 3, 7, 2, 8] 2 example_pool =
     Selected [copy_selected (tx (example_pending ''TX-7-0'' 1)), copy_selected (tx (example_pending ''TX-7-1'' 3))]"
proof -
  have "hits [4, 3, 7, 2, 8] example_pool =
    [copy_selected (tx (example_pending ''TX-7-0'' 1)), copy_selected (tx (example_pending ''TX-7-1'' 3)),
     copy_selected (tx (example_pending ''TX-7-1'' 3))]"
    by (simp add: hits_def example_pool_def example_selectable)
  then show ?thesis
    using selection_is_first_hits [OF example_pool_inv, of 2 "[4, 3, 7, 2, 8]"]
    by (simp add: example_pool_def)
qed

text \<open>A transaction can be selected several times for one block. The bitmap that should prevent it
  is read but never written, so when the draws keep hitting the same pending transaction the block
  consists of copies of it alone.\<close>

theorem selection_repeats_a_transaction:
  assumes "pool_inv P" and "0 < unat tpb" and "unat tpb \<le> unat (pool_count P)"
    and "unat tpb < 2147483648"
    and "i < length (slots P)" and "selectable (slots P ! i)"
  shows "select_transactions True (replicate (unat tpb) i) tpb P =
    Selected (replicate (unat tpb) (copy_selected (tx (slots P ! i))))"
proof -
  have "i mod unat (pool_size P) = i" using assms(1,5) by (simp add: pool_inv_def)
  then have "hits (replicate (unat tpb) i) P = replicate (unat tpb) (copy_selected (tx (slots P ! i)))"
    using assms(6) by (simp add: hits_def filter_replicate)
  then show ?thesis using select_loop_cong_hits [OF assms(1,3,2,4)] by simp
qed

theorem selection_repeats_a_transaction_witness:
  "\<exists>t. select_transactions True [0, 0] 2 example_pool = Selected [t, t]"
proof -
  have "select_transactions True (replicate (unat (2::c_size)) 0) 2 example_pool =
      Selected (replicate (unat (2::c_size)) (copy_selected (tx (slots example_pool ! 0))))"
    by (rule selection_repeats_a_transaction [OF example_pool_inv])
       (simp_all add: example_pool_def example_selectable)
  moreover have "unat (2 :: c_size) = Suc (Suc 0)" by simp
  ultimately show ?thesis by (simp only: replicate_Suc replicate_0) blast
qed

text \<open>C20: a block that a miner thread writes to the pipe is a well-formed child of the ledger's last
  block: the message is read back as this block, its transactions are copies of transactions pending
  in the pool, its previous hash is the hash of the last block, it carries the thread's identifier and
  running number, and its nonce passes for the largest reward in it.\<close>

theorem miner_writes_good_blocks:
  assumes "miner_iteration sha cfg env th P1 L1 P2 L2 = (th', Written msg b)"
    and "pool_inv P2" and "padded HASH_SIZE (last_block_hash L2)"
    and "0 < unat (TRANSACTIONS_PER_BLOCK cfg)" and "unat (TRANSACTIONS_PER_BLOCK cfg) < 2147483648"
  shows "read_block (TRANSACTIONS_PER_BLOCK cfg) heap msg = Inr b
    \<and> verify_nonce sha (TRANSACTIONS_PER_BLOCK cfg) b
    \<and> previous_block_hash b = last_block_hash L2 \<and> ledger_count L2 < BLOCKCHAIN_BLOCKS cfg
    \<and> c_str (txb_id b) = block_id_text (thread_id th) (block_number th)
    \<and> (\<forall>t\<in>set (transactions b). \<exists>p\<in>set (slots P2). selectable p \<and> t = copy_selected (tx p))"
  using miner_iteration_Written [OF assms]
    read_block_message [OF block_padded_sized, of "TRANSACTIONS_PER_BLOCK cfg" b heap] assms(5)
  by simp

lemma example_iteration:
  "\<exists>msg b. miner_iteration easy_sha
     \<lparr>NUM_MINERS = 1, TRANSACTION_POOL_SIZE = 3, TRANSACTIONS_PER_BLOCK = 2, BLOCKCHAIN_BLOCKS = 9\<rparr>
     \<lparr>calloc_resources_ok = True, calloc_selected_ok = True, calloc_bitmap_ok = True,
      malloc_buffer_ok = True, rand_draws = [0, 2], clock_times = [7]\<rparr>
     \<lparr>thread_id = 1, block_number = 0\<rparr> example_pool L example_pool L
     = (\<lparr>thread_id = 1, block_number = 1\<rparr>, Written msg b)"
  if "ledger_count L = 1"
proof -
  have sel: "select_transactions True [0, 2] 2 example_pool = 
    Selected [copy_selected (tx (example_pending ''TX-7-0'' 1)), copy_selected (tx (example_pending ''TX-7-1'' 3))]"
    using select_loop_cong_hits [OF example_pool_inv, of 2 "[0, 2]"]
    by (simp add: example_pool_def hits_def example_selectable)
  have "\<not> nothing_to_do 2 9 (pool_count example_pool) (ledger_count L)"
    by (simp add: nothing_to_do_def example_pool_def that word_le_nat_alt)
  then show ?thesis
    by (simp add: miner_iteration_def Let_def sel get_previous_hash_def that proof_of_work_easy_sha
        word_less_nat_alt)
qed

theorem miner_writes_good_blocks_witness:
  "\<exists>msg b. read_block 2 [] msg = Inr b \<and> c_str (txb_id b) = ''BLOCK-1-0''"
proof -
  let ?cfg = "\<lparr>NUM_MINERS = 1, TRANSACTION_POOL_SIZE = 3, TRANSACTIONS_PER_BLOCK = 2, BLOCKCHAIN_BLOCKS = 9\<rparr>"
  let ?L = "\<lparr>last_block_index = 0, last_block_hash = replicate HASH_SIZE NUL, num_blocks = 9,
    ledger_count = 1, blocks = []\<rparr>"
  have "padded HASH_SIZE (last_block_hash ?L)" using padded_zero [of HASH_SIZE] by (simp add: HASH_SIZE_def)
  moreover obtain msg b where "miner_iteration easy_sha ?cfg
     \<lparr>calloc_resources_ok = True, calloc_selected_ok = True, calloc_bitmap_ok = True,
      malloc_buffer_ok = True, rand_draws = [0, 2], clock_times = [7]\<rparr>
     \<lparr>thread_id = 1, block_number = 0\<rparr> example_pool ?L example_pool ?L
     = (\<lparr>thread_id = 1, block_number = 1\<rparr>, Written msg b)"
    using example_iteration [of ?L] by auto
  ultimately have "read_block 2 [] msg = Inr b \<and> c_str (txb_id b) = block_id_text 1 0"
    using miner_writes_good_blocks [of easy_sha ?cfg _ "\<lparr>thread_id = 1, block_number = 0\<rparr>" example_pool ?L
        example_pool ?L _ msg b "[]"] example_pool_inv by fastforce
  moreover have "block_id_text 1 0 = ''BLOCK-1-0''" by code_simp
  ultimately show ?thesis by metis
qed

text \<open>With a pool smaller than a block the miners never mine: whatever the transactions, the draws
  and the ledger, every iteration ends before the selection.\<close>

theorem small_pool_never_mines:
  assumes "pool_inv P1" and "unat (pool_size P1) < unat (TRANSACTIONS_PER_BLOCK cfg)"
  shows "miner_iteration sha cfg env th P1 L1 P2 L2 = (th, Continue)"
proof -
  have "unat (pool_count P1) < unat (TRANSACTIONS_PER_BLOCK cfg)"
    using assms(2) pool_inv_count_le [OF assms(1)] pool_inv_count [OF assms(1)] by (simp add: capacity_def)
  then show ?thesis by (simp add: miner_iteration_def Let_def nothing_to_do_def)
qed

theorem small_pool_never_mines_witness:
  "\<forall>env L. miner_iteration easy_sha
       \<lparr>NUM_MINERS = 1, TRANSACTION_POOL_SIZE = 3, TRANSACTIONS_PER_BLOCK = 4, BLOCKCHAIN_BLOCKS = 9\<rparr>
       env \<lparr>thread_id = 1, block_number = 0\<rparr> example_pool L example_pool L
     = (\<lparr>thread_id = 1, block_number = 0\<rparr>, Continue)"
  by (intro allI small_pool_never_mines [OF example_pool_inv]) (simp add: example_pool_def)

end
