(* ===== verification/StatisticsProc.thy ===== *)
theory StatisticsProc
  imports Validator Miner
begin

text \<open>
  \<open>src/Statistics.c\<close>: the counters of the statistics process, one pass of its receive loop, and what
  it prints. A message is received as bytes. \<open>total_tx_time\<close> is a \<open>double\<close> that only ever holds
  integers, so it is an integer rounded to 53 significant bits after every addition. An array index
  outside its array is the outcome \<open>OutOfRange\<close>. The lemmas relate the counters to the messages: the
  totals agree with the counters of the miners, every miner is credited with what his blocks earned,
  and a message that a validator sends is credited to the miner thread that built the block.
\<close>

section \<open>State\<close>

record Statistics =
  miner_valid_blocks :: "c_int list"
  miner_invalid_blocks :: "c_int list"
  total_tx_time :: int
  miner_credits :: "c_int list"
  total_blocks_processed :: c_int
  blocks_in_chain :: c_int

definition init_statistics :: "Config \<Rightarrow> Statistics" where
  "init_statistics cfg =
     (let n = unat (NUM_MINERS cfg)
      in \<lparr>miner_valid_blocks = replicate n 0, miner_invalid_blocks = replicate n 0,
          total_tx_time = 0, miner_credits = replicate n 0,
          total_blocks_processed = 0, blocks_in_chain = 0\<rparr>)"

section \<open>Messages as bytes\<close>

definition message_bytes :: "StatisticsMessage \<Rightarrow> bytes" where
  "message_bytes m =
     msg_txb_id m @ miner_id m @ le32 (block_index m) @ le32 (earned_amount m) @ le64 (msg_timestamp m)"

definition rd_message :: "bytes \<Rightarrow> StatisticsMessage" where
  "rd_message bs =
     \<lparr>msg_txb_id = take TXB_ID_LEN bs,
      miner_id = take MINER_ID_SIZE (drop TXB_ID_LEN bs),
      block_index = rd32 (drop (TXB_ID_LEN + MINER_ID_SIZE) bs),
      earned_amount = rd32 (drop (TXB_ID_LEN + MINER_ID_SIZE + 4) bs),
      msg_timestamp = rd64 (drop (TXB_ID_LEN + MINER_ID_SIZE + 8) bs)\<rparr>"

definition message_sized :: "StatisticsMessage \<Rightarrow> bool" where
  "message_sized m \<longleftrightarrow> length (msg_txb_id m) = TXB_ID_LEN \<and> length (miner_id m) = MINER_ID_SIZE"

interpretation msg: sized_codec message_bytes rd_message message_sized sizeof_StatisticsMessage
proof unfold_locales
  fix m
  assume "message_sized m"
  then have l: "length (msg_txb_id m) = 64" "length (miner_id m) = 7"
    by (simp_all add: message_sized_def TXB_ID_LEN_def MINER_ID_SIZE_def)
  then show "length (message_bytes m) = sizeof_StatisticsMessage"
    by (simp add: message_bytes_def size_simps)
  from l show "rd_message (message_bytes m) = m"
    by (simp add: rd_message_def message_bytes_def TXB_ID_LEN_def MINER_ID_SIZE_def)
qed (simp add: size_simps)

section \<open>The receive loop\<close>

text \<open>What \<open>mq_receive\<close> delivers.\<close>

datatype Receive = Received bytes | Interrupted | ReceiveFailed

datatype StatOutcome = Updated Statistics | OutOfRange | LoopEnded

text \<open>\<open>atoi(msg->miner_id) - 1\<close> as an index into an array of the given length.\<close>

definition miner_index :: "StatisticsMessage \<Rightarrow> nat \<Rightarrow> nat option" where
  "miner_index m n =
     (let i = sint (atoi (miner_id m) - 1) in if 0 \<le> i \<and> nat i < n then Some (nat i) else None)"

definition count_invalid :: "nat \<Rightarrow> Statistics \<Rightarrow> Statistics" where
  "count_invalid i st =
     st\<lparr>miner_invalid_blocks := (miner_invalid_blocks st)[i := miner_invalid_blocks st ! i + 1],
        total_blocks_processed := total_blocks_processed st + 1\<rparr>"

text \<open>The time from the creation of each transaction to the insertion of its block.\<close>

definition add_times :: "c_time \<Rightarrow> Transaction list \<Rightarrow> int \<Rightarrow> int" where
  "add_times ts txs start =
     foldl (\<lambda>a t. f64_of_int (a + f64_of_int (sint (ts - tx_timestamp t)))) start txs"

definition count_valid :: "c_size \<Rightarrow> Ledger \<Rightarrow> StatisticsMessage \<Rightarrow> nat \<Rightarrow> Statistics \<Rightarrow> Statistics" where
  "count_valid tpb L m i st =
     st\<lparr>miner_valid_blocks := (miner_valid_blocks st)[i := miner_valid_blocks st ! i + 1],
        miner_credits := (miner_credits st)[i := miner_credits st ! i + earned_amount m],
        total_blocks_processed := total_blocks_processed st + 1,
        blocks_in_chain := blocks_in_chain st + 1,
        total_tx_time :=
          add_times (msg_timestamp m)
            (take (unat tpb) (transactions (blocks L ! unat (block_index m)))) (total_tx_time st)\<rparr>"

definition process_message :: "c_size \<Rightarrow> Ledger \<Rightarrow> StatisticsMessage \<Rightarrow> Statistics \<Rightarrow> StatOutcome" where
  "process_message tpb L m st =
     (if block_index m = -1
      then (case miner_index m (length (miner_invalid_blocks st)) of
              None \<Rightarrow> OutOfRange
            | Some i \<Rightarrow> Updated (count_invalid i st))
      else (case miner_index m (length (miner_valid_blocks st)) of
              None \<Rightarrow> OutOfRange
            | Some i \<Rightarrow>
                if sint (block_index m) < 0 \<or> length (blocks L) \<le> unat (block_index m) then OutOfRange
                else Updated (count_valid tpb L m i st)))"

definition statistics_iteration :: "c_size \<Rightarrow> Ledger \<Rightarrow> Receive \<Rightarrow> Statistics \<Rightarrow> StatOutcome" where
  "statistics_iteration tpb L r st =
     (case r of
        Received bs \<Rightarrow>
          if length bs < sizeof_StatisticsMessage then Updated st
          else process_message tpb L (rd_message bs) st
      | Interrupted \<Rightarrow> Updated st
      | ReceiveFailed \<Rightarrow> LoopEnded)"

text \<open>The loop on a list of messages; the ledger is the one at the time of each message.\<close>

fun process_messages :: "c_size \<Rightarrow> (Ledger \<times> StatisticsMessage) list \<Rightarrow> Statistics \<Rightarrow> StatOutcome" where
  "process_messages tpb [] st = Updated st"
| "process_messages tpb ((L, m) # ms) st =
     (case statistics_iteration tpb L (Received (message_bytes m)) st of
        Updated st' \<Rightarrow> process_messages tpb ms st'
      | e \<Rightarrow> e)"

section \<open>Printing\<close>

text \<open>The figures that \<open>printStatistics\<close> prints: the totals, the two operands of the average, one line
  per miner. The divisor is zero before the first block.\<close>

record Report =
  rep_total :: int
  rep_valid :: int
  rep_time :: int
  rep_divisor :: c_size
  rep_miners :: "(int \<times> int \<times> int \<times> int) list"

definition printStatistics :: "Config \<Rightarrow> Statistics \<Rightarrow> Report" where
  "printStatistics cfg st =
     \<lparr>rep_total = sint (total_blocks_processed st), rep_valid = sint (blocks_in_chain st),
      rep_time = total_tx_time st,
      rep_divisor = scast (blocks_in_chain st) * TRANSACTIONS_PER_BLOCK cfg,
      rep_miners = map (\<lambda>i. (int i + 1, sint (miner_valid_blocks st ! i),
                              sint (miner_invalid_blocks st ! i), sint (miner_credits st ! i)))
                       [0..<unat (NUM_MINERS cfg)]\<rparr>"

section \<open>The counters and the messages\<close>

definition for_miner :: "nat \<Rightarrow> nat \<Rightarrow> bool \<Rightarrow> (Ledger \<times> StatisticsMessage) list \<Rightarrow> StatisticsMessage list" where
  "for_miner n i accepted ms =
     filter (\<lambda>m. (block_index m \<noteq> -1) = accepted \<and> miner_index m n = Some i) (map snd ms)"

definition earnings :: "StatisticsMessage list \<Rightarrow> c_int" where
  "earnings ms = sum_list (map earned_amount ms)"

lemma miner_index_less: "miner_index m n = Some i \<Longrightarrow> i < n"
  by (auto simp: miner_index_def Let_def split: if_splits)

lemma statistics_iteration_message:
  "message_sized m \<Longrightarrow> statistics_iteration tpb L (Received (message_bytes m)) st = process_message tpb L m st"
  by (simp add: statistics_iteration_def msg.enc_width msg.rd_enc)

text \<open>One message: which counters move.\<close>

lemma process_message_Updated:
  assumes "process_message tpb L m st = Updated st'" and "length (miner_valid_blocks st) = n"
    and "length (miner_invalid_blocks st) = n" and "length (miner_credits st) = n"
  obtains (invalid) i where "miner_index m n = Some i" and "block_index m = -1" and "st' = count_invalid i st"
  | (valid) i where "miner_index m n = Some i" and "block_index m \<noteq> -1" and "st' = count_valid tpb L m i st"
proof (cases "block_index m = -1")
  case True
  with assms have "\<exists>i. miner_index m n = Some i \<and> st' = count_invalid i st"
    by (auto simp: process_message_def split: option.splits)
  with True show thesis using invalid by blast
next
  case False
  with assms have "\<exists>i. miner_index m n = Some i \<and> st' = count_valid tpb L m i st"
    by (auto simp: process_message_def split: option.splits if_splits)
  with False show thesis using valid by blast
qed

lemma process_messages_counters:
  "process_messages tpb ms st = Updated st' \<Longrightarrow> (\<And>L m. (L, m) \<in> set ms \<Longrightarrow> message_sized m) \<Longrightarrow>
   length (miner_valid_blocks st) = n \<Longrightarrow> length (miner_invalid_blocks st) = n \<Longrightarrow>
   length (miner_credits st) = n \<Longrightarrow>
   length (miner_valid_blocks st') = n \<and> length (miner_invalid_blocks st') = n \<and> length (miner_credits st') = n \<and>
   (\<forall>i<n. miner_valid_blocks st' ! i = miner_valid_blocks st ! i + word_of_nat (length (for_miner n i True ms)) \<and>
          miner_invalid_blocks st' ! i = miner_invalid_blocks st ! i + word_of_nat (length (for_miner n i False ms)) \<and>
          miner_credits st' ! i = miner_credits st ! i + earnings (for_miner n i True ms)) \<and>
   total_blocks_processed st' = total_blocks_processed st + word_of_nat (length ms) \<and>
   blocks_in_chain st' = blocks_in_chain st + word_of_nat (length (filter (\<lambda>(L, m). block_index m \<noteq> -1) ms))"
proof (induction ms arbitrary: st)
  case Nil
  then show ?case by (simp add: for_miner_def earnings_def)
next
  case (Cons lm ms)
  obtain L m where lm: "lm = (L, m)" by (cases lm)
  have sized: "message_sized m" using Cons.prems(2) [of L m] by (simp add: lm)
  from Cons.prems(1) obtain st1 where 1: "process_message tpb L m st = Updated st1"
    and rest: "process_messages tpb ms st1 = Updated st'"
    by (auto simp: lm statistics_iteration_message [OF sized] split: StatOutcome.splits)
  have ms: "\<And>L m. (L, m) \<in> set ms \<Longrightarrow> message_sized m" using Cons.prems(2) by auto
  from 1 Cons.prems(3-5) show ?case
  proof (cases rule: process_message_Updated)
    case (invalid i)
    note i = miner_index_less [OF invalid(1)]
    have l: "length (miner_valid_blocks st1) = n" "length (miner_invalid_blocks st1) = n" "length (miner_credits st1) = n"
      using Cons.prems(3-5) by (simp_all add: invalid(3) count_invalid_def)
    from Cons.IH [OF rest ms l] show ?thesis
      using invalid(1,2) i Cons.prems(3-5)
      by (auto simp: lm invalid(3) count_invalid_def for_miner_def nth_list_update)
  next
    case (valid i)
    note i = miner_index_less [OF valid(1)]
    have l: "length (miner_valid_blocks st1) = n" "length (miner_invalid_blocks st1) = n" "length (miner_credits st1) = n"
      using Cons.prems(3-5) by (simp_all add: valid(3) count_valid_def)
    from Cons.IH [OF rest ms l] show ?thesis
      using valid(1,2) i Cons.prems(3-5)
      by (auto simp: lm valid(3) count_valid_def for_miner_def earnings_def nth_list_update)
  qed
qed

text \<open>The totals agree with the counters of the miners.\<close>

definition stat_inv :: "nat \<Rightarrow> Statistics \<Rightarrow> bool" where
  "stat_inv n st \<longleftrightarrow>
     length (miner_valid_blocks st) = n \<and> length (miner_invalid_blocks st) = n \<and> length (miner_credits st) = n \<and>
     blocks_in_chain st = sum_list (miner_valid_blocks st) \<and>
     total_blocks_processed st = sum_list (miner_valid_blocks st) + sum_list (miner_invalid_blocks st)"

lemma sum_list_bump: "i < length xs \<Longrightarrow> sum_list (xs[i := xs ! i + 1]) = sum_list xs + (1 :: c_int)"
proof (induction xs arbitrary: i)
  case Nil
  then show ?case by simp
next
  case (Cons x xs)
  then show ?case by (cases i) (simp_all add: algebra_simps)
qed

lemma stat_inv_init: "stat_inv (unat (NUM_MINERS cfg)) (init_statistics cfg)"
  by (simp add: stat_inv_def init_statistics_def Let_def sum_list_replicate)

lemma stat_inv_count_invalid: "stat_inv n st \<Longrightarrow> i < n \<Longrightarrow> stat_inv n (count_invalid i st)"
  by (simp add: stat_inv_def count_invalid_def sum_list_bump)

lemma stat_inv_count_valid: "stat_inv n st \<Longrightarrow> i < n \<Longrightarrow> stat_inv n (count_valid tpb L m i st)"
  by (simp add: stat_inv_def count_valid_def sum_list_bump)

lemma stat_inv_message:
  assumes "stat_inv n st" and "process_message tpb L m st = Updated st'"
  shows "stat_inv n st'"
  using assms(2)
proof (rule process_message_Updated)
  show "length (miner_valid_blocks st) = n" "length (miner_invalid_blocks st) = n" "length (miner_credits st) = n"
    using assms(1) by (simp_all add: stat_inv_def)
next
  fix i
  assume "miner_index m n = Some i" and "st' = count_invalid i st"
  then show ?thesis using stat_inv_count_invalid [OF assms(1)] miner_index_less by blast
next
  fix i
  assume "miner_index m n = Some i" and "st' = count_valid tpb L m i st"
  then show ?thesis using stat_inv_count_valid [OF assms(1)] miner_index_less by blast
qed

lemma stat_inv_step:
  assumes "stat_inv n st" and "statistics_iteration tpb L r st = Updated st'"
  shows "stat_inv n st'"
  using assms stat_inv_message [OF assms(1)]
  by (auto simp: statistics_iteration_def split: Receive.splits if_splits)

section \<open>From a block to its miner\<close>

lemma atoi_miner_id_field:
  assumes "c_str txb = block_id_text t k" and "0 \<le> sint t" and "sint t < 1000000"
  shows "atoi (miner_id_field txb) = t"
proof -
  let ?d = "dec_int (sint t)"
  have scan: "scan_miner_id txb = Some t"
    by (rule scan_miner_id_block [where rest = "dec_int (sint k)"]) (simp add: assms(1) block_id_text_def)
  have "length ?d \<le> 6" using assms(2,3) dec_nat_6 [of "nat (sint t)"] by (simp add: dec_int_def)
  then have "c_str (miner_id_field txb) = ?d"
    by (simp add: miner_id_field_def scan c_str_snprintf_into MINER_ID_SIZE_def)
  then have "atoi (miner_id_field txb) = atoi ?d"
    by (simp add: atoi_def c_str_no_NUL)
  moreover have "sint (atoi ?d) = sint t"
    using atoi_dec_int [of "sint t" "[]"] assms(2,3) by simp
  ultimately show ?thesis by (simp add: word_32_eq_sint)
qed

lemma message_sized_fields:
  "message_sized (reject_message b)" "message_sized (accept_message tpb b i t)"
proof -
  have "length (snprintf_into (replicate TXB_ID_LEN NUL) TXB_ID_LEN x) = TXB_ID_LEN"
    and "length (snprintf_into (replicate MINER_ID_SIZE NUL) MINER_ID_SIZE y) = MINER_ID_SIZE" for x y
    by (rule length_snprintf_into; simp add: TXB_ID_LEN_def MINER_ID_SIZE_def)+
  then show "message_sized (reject_message b)" "message_sized (accept_message tpb b i t)"
    by (simp_all add: message_sized_def reject_message_def accept_message_def txb_id_field_def miner_id_field_def)
qed

lemma miner_index_block:
  assumes "c_str (txb_id b) = block_id_text t k" and "1 \<le> sint t" and "nat (sint t) \<le> n" and "sint t < 1000000"
    and "m = reject_message b \<or> m = accept_message tpb b i stamp"
  shows "miner_index m n = Some (nat (sint t) - 1)"
proof -
  have "atoi (miner_id m) = t"
    using assms(5) atoi_miner_id_field [OF assms(1) _ assms(4)] assms(2)
    by (auto simp: reject_message_def accept_message_def)
  moreover have "sint (t - 1) = sint t - 1"
    using assms(2) sint_32_upper [of t] by (simp add: sint_word_ariths signed_take_bit_int_eq_self)
  ultimately show ?thesis
    using assms(2,3) by (auto simp: miner_index_def Let_def nat_diff_distrib)
qed

section \<open>Properties\<close>

text \<open>C30: every miner's counters are exactly the messages about his blocks. After a list of messages
  without a bad index, the counters of miner \<open>i\<close> have grown by the numbers of acceptances and
  rejections that name him and his credits by what the accepted blocks earned, modulo \<open>2 ^ 32\<close>; the
  total counts all messages and \<open>blocks_in_chain\<close> the acceptances.\<close>

theorem statistics_count_messages:
  assumes "process_messages tpb ms (init_statistics cfg) = Updated st"
    and "\<And>L m. (L, m) \<in> set ms \<Longrightarrow> message_sized m" and "i < unat (NUM_MINERS cfg)"
  shows "miner_valid_blocks st ! i = word_of_nat (length (for_miner (unat (NUM_MINERS cfg)) i True ms)) \<and>
    miner_invalid_blocks st ! i = word_of_nat (length (for_miner (unat (NUM_MINERS cfg)) i False ms)) \<and>
    miner_credits st ! i = earnings (for_miner (unat (NUM_MINERS cfg)) i True ms) \<and>
    total_blocks_processed st = word_of_nat (length ms) \<and>
    blocks_in_chain st = word_of_nat (length (filter (\<lambda>(L, m). block_index m \<noteq> -1) ms))"
  using process_messages_counters [OF assms(1,2), where n = "unat (NUM_MINERS cfg)"] assms(3)
  by (simp add: init_statistics_def Let_def)

definition demo_message :: "string \<Rightarrow> c_int \<Rightarrow> c_int \<Rightarrow> StatisticsMessage" where
  "demo_message name idx amount =
     \<lparr>msg_txb_id = replicate TXB_ID_LEN NUL, miner_id = strncpy_n MINER_ID_SIZE name,
      block_index = idx, earned_amount = amount, msg_timestamp = 50\<rparr>"

lemma demo_message:
  "message_sized (demo_message name idx amount)"
  "miner_index (demo_message ''1'' idx amount) 2 = Some 0"
  "miner_index (demo_message ''2'' idx amount) 2 = Some 1"
proof -
  show "message_sized (demo_message name idx amount)" by (simp add: message_sized_def demo_message_def)
  have "c_str (strncpy_n MINER_ID_SIZE ''1'') = ''1''" "c_str (strncpy_n MINER_ID_SIZE ''2'') = ''2''"
    by (simp_all add: c_str_strncpy_n c_str_no_NUL MINER_ID_SIZE_def)
  then have "atoi (strncpy_n MINER_ID_SIZE ''1'') = 1" "atoi (strncpy_n MINER_ID_SIZE ''2'') = 2"
    by (simp_all add: atoi_def strtol_def Let_def isspace_def isdigit_def digit_val_def long_sat_def)
  then show "miner_index (demo_message ''1'' idx amount) 2 = Some 0"
    "miner_index (demo_message ''2'' idx amount) 2 = Some 1"
    by (simp_all add: miner_index_def demo_message_def)
qed

lemma demo_message_index:
  "block_index (demo_message name idx a) = idx" "earned_amount (demo_message name idx a) = a"
  by (simp_all add: demo_message_def)

theorem statistics_count_messages_witness:
  "\<exists>st. process_messages 1 [(init_ledger demo_config, demo_message ''2'' 1 7),
      (init_ledger demo_config, demo_message ''2'' (-1) (-1)), (init_ledger demo_config, demo_message ''2'' 2 4)]
      (init_statistics demo_config) = Updated st
    \<and> miner_credits st ! 1 = 11 \<and> total_blocks_processed st = 3 \<and> blocks_in_chain st = 2"
proof -
  let ?ms = "[(init_ledger demo_config, demo_message ''2'' 1 7),
      (init_ledger demo_config, demo_message ''2'' (-1) (-1)), (init_ledger demo_config, demo_message ''2'' 2 4)]"
  have n: "unat (NUM_MINERS demo_config) = 2" by (simp add: demo_config_def)
  have idx: "block_index (demo_message name i a) = i" "earned_amount (demo_message name i a) = a" for name i a
    by (simp_all add: demo_message_index)
  obtain st where st: "process_messages 1 ?ms (init_statistics demo_config) = Updated st"
    by (simp add: statistics_iteration_message demo_message process_message_def count_valid_def count_invalid_def
        init_statistics_def n idx init_ledger_def demo_config_def)
  have "message_sized m" if "(L, m) \<in> set ?ms" for L m using that by (auto simp: demo_message)
  from statistics_count_messages [OF st this, where i = 1] show ?thesis
    using st by (auto simp: n idx for_miner_def demo_message earnings_def)
qed

text \<open>The totals are consistent at every moment: blocks in the chain are the valid blocks of all miners,
  and processed blocks the valid and the invalid ones, whatever is received.\<close>

theorem statistics_totals:
  assumes "stat_inv n st" and "statistics_iteration tpb L r st = Updated st'"
  shows "blocks_in_chain st' = sum_list (miner_valid_blocks st') \<and>
    total_blocks_processed st' = sum_list (miner_valid_blocks st') + sum_list (miner_invalid_blocks st') \<and>
    stat_inv n st'"
  using stat_inv_step [OF assms] by (simp add: stat_inv_def)

theorem statistics_totals_witness:
  "\<exists>st. statistics_iteration 1 (init_ledger demo_config) (Received (message_bytes (demo_message ''1'' (-1) 0)))
      (init_statistics demo_config) = Updated st \<and> stat_inv 2 st"
proof -
  have n: "unat (NUM_MINERS demo_config) = 2" by (simp add: demo_config_def)
  obtain st where st: "statistics_iteration 1 (init_ledger demo_config)
      (Received (message_bytes (demo_message ''1'' (-1) 0))) (init_statistics demo_config) = Updated st"
    by (simp add: statistics_iteration_message demo_message process_message_def init_statistics_def n
        demo_message_index)
  from statistics_totals [OF stat_inv_init st] st show ?thesis by (auto simp: n)
qed

text \<open>C31: the miner thread that built a block is the one whose counters move. A message about a block
  with identifier \<open>BLOCK-t-k\<close>, accepted or rejected, survives the queue as bytes and is counted for
  thread \<open>t\<close>, as long as the thread number has at most six digits.\<close>

theorem message_reaches_its_miner:
  assumes "c_str (txb_id b) = block_id_text t k" and "1 \<le> sint t" and "nat (sint t) \<le> n" and "sint t < 1000000"
    and "m = reject_message b \<or> m = accept_message tpb b i stamp"
  shows "rd_message (message_bytes m) = m \<and> length (message_bytes m) = sizeof_StatisticsMessage
    \<and> miner_index m n = Some (nat (sint t) - 1)"
proof -
  have "message_sized m" using assms(5) message_sized_fields by auto
  then show ?thesis
    using msg.enc_width msg.rd_enc miner_index_block [OF assms] by simp
qed

theorem message_reaches_its_miner_witness:
  "miner_index (reject_message (build_block 3 14 [] [])) 5 = Some 2"
  using message_reaches_its_miner [of "build_block 3 14 [] []" 3 14 5 "reject_message (build_block 3 14 [] [])"]
  by (simp add: build_block_def c_str_block_id)

text \<open>A block whose identifier has no readable number makes the statistics process write outside its
  arrays: the validator then reports miner \<open>-1\<close>, which is used as index \<open>-2\<close>.\<close>

theorem unreadable_id_out_of_range:
  assumes "scan_miner_id (txb_id b) = None"
  shows "process_message tpb L (reject_message b) st = OutOfRange"
proof -
  have "miner_id_field (txb_id b) = ''-1'' @ replicate 5 NUL"
    using assms by (simp add: miner_id_field_def snprintf_into_def MINER_ID_SIZE_def numeral_eq_Suc)
  moreover have "c_str (''-1'' @ replicate 5 NUL) = ''-1''" by (rule c_str_pad) simp
  ultimately have "atoi (miner_id (reject_message b)) = -1"
    by (simp add: reject_message_def atoi_def strtol_def Let_def isspace_def isdigit_def digit_val_def long_sat_def)
  then show ?thesis
    by (simp add: process_message_def miner_index_def reject_message_def)
qed

theorem unreadable_id_out_of_range_witness:
  "process_message 1 (init_ledger demo_config) (reject_message (zero_block 1)) (init_statistics demo_config) = OutOfRange"
  by (rule unreadable_id_out_of_range) (simp add: scan_miner_id_def zero_block_def)

end
