(* ===== verification/TxGen.thy ===== *)
theory TxGen
  imports TxPool Rounding
begin

text \<open>
  \<open>src/txGen.c\<close>: the command line of a transaction generator, the transactions it makes, one
  iteration of its loop (insert a transaction in the first free slot, decide whether to signal
  the miners) and the posts on \<open>sem_minerwork\<close>. The inputs of an iteration that come from the
  system (process id, random number, clock, semaphore value, failures of the semaphore calls, the
  old contents of the stack) are the record \<open>TxGenEnv\<close>. Printing is left out. The lemmas show that
  insertion keeps the pool's invariant and adds one transaction, that identifiers never repeat,
  and how often the miners are signalled.
\<close>

section \<open>State and inputs\<close>

record TxGen =
  tx_number :: c_int
  generated_transactions :: c_int
  last_signal_count :: c_int

record TxGenEnv =
  env_pid :: c_int
  env_rand :: nat
  env_time :: c_time
  env_stack :: bytes
  env_wait_ok :: bool
  env_post_ok :: bool
  env_semval :: c_int

datatype TxGenError = BadUsage | BadReward | BadSleepTime

text \<open>The checks of the command line in \<open>main\<close>: \<open>argv\<close> includes the program's name.\<close>

definition txgen_args :: "bytes list \<Rightarrow> TxGenError + (c_int \<times> c_int)" where
  "txgen_args argv =
     (if length argv \<noteq> 3 then Inl BadUsage
      else let r = atoi (argv ! 1); sleep_time = atoi (argv ! 2)
      in if sint r < 1 \<or> 3 < sint r then Inl BadReward
         else if sint sleep_time < 200 \<or> 3000 < sint sleep_time then Inl BadSleepTime
         else Inr (r, sleep_time))"

section \<open>One transaction\<close>

definition tx_id_text :: "c_int \<Rightarrow> c_int \<Rightarrow> string" where
  "tx_id_text pid n = ''TX-'' @ dec_int (sint pid) @ ''-'' @ dec_int (sint n)"

text \<open>\<open>(double)(rand() % 10000) / 100.0\<close>, stored in a \<open>float\<close>.\<close>

definition random_value :: "nat \<Rightarrow> 32 word" where
  "random_value rnd =
     f32_bits (f32_of_f64 (fp_div 53 (f64_of_nat (rnd mod 10000)) (f64_of_nat 100)))"

definition generate_transaction ::
    "TxGenEnv \<Rightarrow> c_int \<Rightarrow> c_int \<Rightarrow> PendingTransaction \<times> c_int" where
  "generate_transaction env n r =
     (let new_tx = \<lparr>tx_id = snprintf_into (env_stack env) TX_ID_LEN (tx_id_text (env_pid env) n),
                    reward = r,
                    tx_value = random_value (env_rand env),
                    tx_timestamp = env_time env\<rparr>
      in (\<lparr>filled = 1, age = 0, tx = new_tx\<rparr>, n + 1))"

section \<open>The loop body\<close>

text \<open>Inserting: the first slot with \<open>filled == 0\<close>, searched only when the counter says there is
  room.\<close>

definition pool_put :: "PendingTransaction \<Rightarrow> TransactionPool \<Rightarrow> TransactionPool option" where
  "pool_put p P =
     (if pool_count P < pool_size P
      then case find_index (\<lambda>s. filled s = 0) (take (unat (pool_size P)) (slots P)) of
          Some i \<Rightarrow> Some (P\<lparr>slots := (slots P)[i := p], pool_count := pool_count P + 1\<rparr>)
        | None \<Rightarrow> None
      else None)"

definition add_transaction ::
    "TxGenEnv \<Rightarrow> c_int \<Rightarrow> TxGen \<Rightarrow> TransactionPool \<Rightarrow> TxGen \<times> TransactionPool \<times> bool" where
  "add_transaction env r g P =
     (case generate_transaction env (tx_number g) r of (new_tx, n') \<Rightarrow>
        case pool_put new_tx P of
          Some P' \<Rightarrow> (g\<lparr>tx_number := n', generated_transactions := generated_transactions g + 1\<rparr>, P', True)
        | None \<Rightarrow> (g, P, False))"

definition should_signal :: "TxGen \<Rightarrow> TransactionPool \<Rightarrow> c_uint \<Rightarrow> bool \<Rightarrow> bool" where
  "should_signal g P tpb transaction_added \<longleftrightarrow>
     (let current_count = pool_count P
      in sint tpb \<le> sint current_count \<and>
         (transaction_added \<or> current_count \<noteq> last_signal_count g \<or> current_count = pool_size P))"

text \<open>\<open>to_post = num_miners - semval\<close>, computed in \<open>unsigned int\<close> and read back as \<open>int\<close>.\<close>

definition to_post :: "c_uint \<Rightarrow> c_int \<Rightarrow> nat" where
  "to_post num_miners semval =
     (let n = num_miners - semval in if 0 < sint n then nat (sint n) else 0)"

text \<open>One iteration after the sleep: \<open>None\<close> when a semaphore call fails and the loop ends,
  otherwise the new state, the new pool and the number of posts on \<open>sem_minerwork\<close>.\<close>

definition txgen_iteration ::
    "TxGenEnv \<Rightarrow> c_int \<Rightarrow> c_uint \<Rightarrow> c_uint \<Rightarrow> TxGen \<Rightarrow> TransactionPool \<Rightarrow>
     (TxGen \<times> TransactionPool \<times> nat) option" where
  "txgen_iteration env r num_miners tpb g P =
     (if \<not> env_wait_ok env then None
      else case add_transaction env r g P of (g1, P1, transaction_added) \<Rightarrow>
        let signal = should_signal g1 P1 tpb transaction_added;
            g2 = (if signal then g1\<lparr>last_signal_count := pool_count P1\<rparr> else g1)
        in if \<not> env_post_ok env then None
           else Some (g2, P1, if signal then to_post num_miners (env_semval env) else 0))"

text \<open>The pool and the generator when the loop ends because a semaphore call failed: if it was the
  \<open>sem_post\<close>, the insertion has already happened and the semaphore stays locked.\<close>

definition txgen_exit_pool :: "TxGenEnv \<Rightarrow> c_int \<Rightarrow> TxGen \<Rightarrow> TransactionPool \<Rightarrow> TransactionPool" where
  "txgen_exit_pool env r g P =
     (if \<not> env_wait_ok env then P else (case add_transaction env r g P of (g1, P1, _) \<Rightarrow> P1))"

section \<open>Identifiers\<close>

lemma NUL_notin_tx_id_text [simp]: "NUL \<notin> set (tx_id_text pid n)"
  by (simp add: tx_id_text_def)

lemma length_tx_id_text: "length (tx_id_text pid n) \<le> 26"
proof -
  have "\<bar>sint w\<bar> \<le> 2147483648" for w :: c_int
    using sint_32_lower [of w] sint_32_upper [of w] by linarith
  then have "length (dec_int (sint w)) \<le> 11" for w :: c_int by (rule dec_int_length_32)
  from this [of pid] this [of n] show ?thesis by (simp add: tx_id_text_def)
qed

text \<open>The value of a generated transaction: \<open>n / 100\<close> rounded twice, to \<open>k / 2^v\<close>. It is a number, and closer to
  \<open>n\<close> hundredths than to any other number of hundredths.\<close>

lemma random_value_rounded:
  assumes "0 < r mod 10000"
  obtains k v where "random_value r = f32_bits (k, int v)" and "2 ^ 23 \<le> k" and "k \<le> 2 ^ 24" and "8 \<le> v" and "v \<le> 35"
    and "200 * k < 2 * (r mod 10000) * 2 ^ v + 2 ^ v" and "2 * (r mod 10000) * 2 ^ v < 200 * k + 2 ^ v"
proof -
  let ?n = "r mod 10000"
  have n: "0 < ?n" "?n < 10000" using assms by simp_all
  have hundred: "f64_of_nat 100 = (100 * 2 ^ 46, int 46)"
    unfolding f64_of_nat_def using fp_round_binade [of 100 53 1 46] by (simp add: rne_div_1)
  obtain x where x: "f64_of_nat ?n = (?n * 2 ^ x, int x)"
  proof -
    obtain u where u: "2 ^ (53 - 1) * 1 \<le> ?n * 2 ^ u" "?n * 2 ^ u < 2 ^ 53 * 1"
      using binade_ex [of ?n 53 1] n by auto
    from fp_round_binade [OF n(1) _ u] that show thesis by (simp add: f64_of_nat_def rne_div_1)
  qed
  define a b where "a = ?n * 2 ^ x * 2 ^ nat (int 46 - int x)" and "b = 100 * 2 ^ 46 * (2::nat) ^ nat (int x - int 46)"
  define z where "z = max x 46"
  have "x + nat (int 46 - int x) = z" "46 + nat (int x - int 46) = z" by (simp_all add: z_def)
  then have ab: "a = ?n * 2 ^ z" "b = 100 * 2 ^ z"
    unfolding a_def b_def by (simp_all only: mult.assoc power_add [symmetric])
  have d: "fp_div 53 (f64_of_nat ?n) (f64_of_nat 100) = fp_round 53 a b"
    by (simp only: x hundred fp_div.simps a_def b_def)
  have pos: "0 < a" "0 < b" using n by (simp_all add: ab)
  have "a < 2 ^ 53 * b" using n(2) by (simp add: ab)
  then obtain u m where q: "fp_round 53 a b = (m, int u)" and m: "m \<le> 2 ^ 53" "2 ^ 52 \<le> m"
    and bin: "2 ^ 52 * b \<le> a * 2 ^ u" "a * 2 ^ u < 2 ^ 53 * b"
    by (rule fp_round_nonneg [OF pos(1) _ _ pos(2)]) simp_all
  have m_eq: "m = rne_div (a * 2 ^ u) b" using fp_round_binade [OF pos(1) _ _ bin(2)] bin(1) q by simp
  have "2 ^ 52 * 100 * 2 ^ z \<le> ?n * 2 ^ u * 2 ^ z" "?n * 2 ^ u * 2 ^ z < 2 ^ 53 * 100 * 2 ^ z"
    using bin by (simp_all add: ab algebra_simps)
  then have u: "2 ^ 52 * 100 \<le> ?n * 2 ^ u" "?n * 2 ^ u < 2 ^ 53 * 100" by simp_all
  have "1 * 2 ^ u \<le> ?n * 2 ^ u" "?n * 2 ^ u \<le> 10000 * 2 ^ u"
    using n by (intro mult_le_mono1; simp)+
  from order_trans [OF u(1) this(2)] le_less_trans [OF this(1) u(2)]
  have y: "(2::nat) ^ u < 2 ^ 60" "(2::nat) ^ 45 < 2 ^ u" by simp_all
  have ub: "u < 60" "45 < u" using y [THEN power_less_imp_less_exp [rotated]] by simp_all
  have "(2::nat) ^ 45 \<le> 2 ^ u" using ub(2) by (intro power_increasing) simp_all
  then have less: "m < 2 ^ 24 * 2 ^ u" using m(1) by simp
  have "0 < m" using m(2) by (rule less_le_trans [rotated]) simp
  obtain v k where f: "fp_round 24 m (2 ^ u) = (k, int v)" and k: "k \<le> 2 ^ 24" "2 ^ 23 \<le> k"
    and v: "2 ^ 23 * 2 ^ u \<le> m * 2 ^ v" "m * 2 ^ v < 2 ^ 24 * 2 ^ u"
    by (rule fp_round_nonneg [OF \<open>0 < m\<close> less]) simp_all
  have k_eq: "k = rne_div (m * 2 ^ v) (2 ^ u)" using fp_round_binade [OF \<open>0 < m\<close> _ _ v(2)] v(1) f by simp
  have "2 ^ 52 * 2 ^ v \<le> m * 2 ^ v" using m(2) by simp
  with v(2) have "(2::nat) ^ (52 + v) < 2 ^ (24 + u)" unfolding power_add by (rule le_less_trans [rotated])
  then have "52 + v < 24 + u" by (rule power_less_imp_less_exp [rotated]) simp
  with ub(1) have "v \<le> 35" by simp
  moreover have "8 \<le> v"
  proof -
    have "m * 2 ^ v \<le> 2 ^ 53 * 2 ^ v" using m(1) by simp
    with v(1) have "(2::nat) ^ (23 + u) \<le> 2 ^ (53 + v)" unfolding power_add by (rule order_trans)
    then have "23 + u \<le> 53 + v" by (rule power_le_imp_le_exp [rotated]) simp
    with ub(2) show ?thesis by simp
  qed
  ultimately have vb: "8 \<le> v" "v \<le> 35" by simp_all
  define U V where "U = (2::nat) ^ u" and "V = (2::nat) ^ v"
  have p8: "(2::nat) ^ 8 \<le> 2 ^ e" if "8 \<le> e" for e by (rule power_increasing) (use that in simp_all)
  have UV: "256 \<le> U" "256 \<le> V" using p8 [of u] p8 [of v] ub(2) vb(1) by (simp_all add: U_def V_def)
  have r1: "200 * m \<le> 2 * ?n * U + 100" "2 * ?n * U \<le> 200 * m + 100"
  proof -
    have "2 * m * b \<le> 2 * (a * U) + b" "2 * (a * U) \<le> 2 * m * b + b"
      using rne_div_upper [OF pos(2), of "a * U"] rne_div_lower [OF pos(2), of "a * U"] by (simp_all only: m_eq U_def)
    then have "200 * m * 2 ^ z \<le> (2 * ?n * U + 100) * 2 ^ z" "2 * ?n * U * 2 ^ z \<le> (200 * m + 100) * 2 ^ z"
      by (simp_all add: ab algebra_simps)
    then show "200 * m \<le> 2 * ?n * U + 100" "2 * ?n * U \<le> 200 * m + 100" by simp_all
  qed
  have r2: "2 * (k * U) \<le> 2 * (m * V) + U" "2 * (m * V) \<le> 2 * (k * U) + U"
    using rne_div_upper [of "2 ^ u" "m * V"] rne_div_lower [of "2 ^ u" "m * V"]
    by (simp_all only: k_eq U_def V_def zero_less_power zero_less_numeral mult.assoc)
  have r3: "200 * m * V \<le> (2 * ?n * U + 100) * V" "2 * ?n * U * V \<le> (200 * m + 100) * V"
    using r1 by (simp_all only: mult_le_mono1)
  have "256 * V \<le> U * V" "U * 256 \<le> U * V" using UV by (simp_all only: mult_le_mono1 mult_le_mono2)
  then have small: "100 * V + 100 * U < U * V" using UV by linarith
  have "200 * k * U < (2 * ?n * V + V) * U" "2 * ?n * V * U < (200 * k + V) * U"
    using r2 r3 small by (simp_all add: algebra_simps)
  then have "200 * k < 2 * ?n * 2 ^ v + 2 ^ v" "2 * ?n * 2 ^ v < 200 * k + 2 ^ v" by (simp_all add: V_def)
  moreover have "random_value r = f32_bits (k, int v)" by (simp add: random_value_def d q f)
  ultimately show thesis using that vb k by blast
qed

lemma random_value_zero: "r mod 10000 = 0 \<Longrightarrow> random_value r = 0"
  by (cases "f64_of_nat 100") (simp add: random_value_def f64_of_nat_def fp_round_def)

lemma random_value_number: "\<not> f32_is_nan (random_value r)"
proof (cases "r mod 10000 = 0")
  case True
  then show ?thesis by (simp add: random_value_zero f32_is_nan_def)
next
  case False
  then have "0 < r mod 10000" by simp
  then obtain k v where "random_value r = f32_bits (k, int v)" "k \<le> 2 ^ 24" "v \<le> 35"
    using random_value_rounded by blast
  then show ?thesis using f32_bits_number [of k v] by simp
qed

lemma generated_id:
  assumes "length (env_stack env) = TX_ID_LEN"
  shows "c_str (tx_id (tx (fst (generate_transaction env n r)))) = tx_id_text (env_pid env) n"
    and "terminated TX_ID_LEN (tx_id (tx (fst (generate_transaction env n r))))"
proof -
  have "take (TX_ID_LEN - 1) (tx_id_text (env_pid env) n) = tx_id_text (env_pid env) n"
    using length_tx_id_text [of "env_pid env" n] by (simp add: TX_ID_LEN_def)
  then show "c_str (tx_id (tx (fst (generate_transaction env n r)))) = tx_id_text (env_pid env) n"
    by (simp add: generate_transaction_def Let_def c_str_snprintf_into)
  show "terminated TX_ID_LEN (tx_id (tx (fst (generate_transaction env n r))))"
    using assms by (simp add: generate_transaction_def Let_def terminated_snprintf_into TX_ID_LEN_def)
qed

lemma tx_id_text_inj: "tx_id_text p n = tx_id_text q m \<Longrightarrow> p = q \<and> n = m"
proof -
  assume "tx_id_text p n = tx_id_text q m"
  then have eq: "dec_int (sint p) @ ''-'' @ dec_int (sint n) = dec_int (sint q) @ ''-'' @ dec_int (sint m)"
    by (simp add: tx_id_text_def)
  have dash: "case ''-'' @ x of [] \<Rightarrow> True | c # _ \<Rightarrow> \<not> isdigit c" for x
    by (simp add: isdigit_def)
  from dec_int_append_inj [OF dash dash eq] have "sint p = sint q" "dec_int (sint n) = dec_int (sint m)"
    by simp_all
  moreover from this(2) have "sint n = sint m"
    using dec_int_append_inj [of "[]" "[]" "sint n" "sint m"] by simp
  ultimately show ?thesis by (simp add: word_32_eq_sint)
qed

section \<open>Insertion\<close>

lemma pool_put_None:
  assumes "pool_inv P"
  shows "pool_put p P = None \<longleftrightarrow> pool_count P = pool_size P"
proof -
  have "(\<exists>i. find_index (\<lambda>s. filled s = 0) (slots P) = Some i) \<longleftrightarrow> unat (pool_count P) < unat (pool_size P)"
    unfolding pool_full_iff [OF assms] find_index_ex occupied_def by simp
  moreover have "unat (pool_count P) \<le> unat (pool_size P)"
    using pool_inv_count_le [OF assms] pool_inv_count [OF assms] by (simp add: capacity_def)
  ultimately show ?thesis
    using assms by (auto simp: pool_put_def word_less_nat_alt word_unat_eq_iff split: option.splits)
qed

text \<open>What a successful insertion does.\<close>

lemma pool_put_cases:
  assumes "pool_inv P" and "pool_put p P = Some Q"
  obtains i where "i < length (slots P)" and "filled (slots P ! i) = 0"
    and "Q = P\<lparr>slots := (slots P)[i := p], pool_count := pool_count P + 1\<rparr>"
    and "unat (pool_count P) < unat (pool_size P)"
    and "\<forall>j<i. filled (slots P ! j) \<noteq> 0"
proof -
  from assms obtain i where f: "find_index (\<lambda>s. filled s = 0) (slots P) = Some i"
    and Q: "Q = P\<lparr>slots := (slots P)[i := p], pool_count := pool_count P + 1\<rparr>"
    and c: "pool_count P < pool_size P"
    by (auto simp: pool_put_def split: if_splits option.splits)
  from find_index_Some [OF f] Q c show thesis
    using that [of i] by (simp add: word_less_nat_alt)
qed

definition fresh_entry :: "PendingTransaction \<Rightarrow> bool" where
  "fresh_entry p \<longleftrightarrow> filled p = 1 \<and> terminated TX_ID_LEN (tx_id (tx p))"

lemma pool_put_inv:
  assumes "pool_inv P" and "fresh_entry p" and "pool_put p P = Some Q"
  shows "pool_inv Q"
proof -
  from pool_put_cases [OF assms(1,3)] obtain i where i: "i < length (slots P)" "filled (slots P ! i) = 0"
    and Q: "Q = P\<lparr>slots := (slots P)[i := p], pool_count := pool_count P + 1\<rparr>"
    and c: "unat (pool_count P) < unat (pool_size P)" .
  have "unat (pool_count P + 1) = Suc (unat (pool_count P))"
  proof -
    have "unat (pool_count P) + 1 < 4294967296"
      using c unat_32_bound [of "pool_size P"] by linarith
    then show ?thesis using unat_add_1 [of "pool_count P"] by simp
  qed
  moreover have "length (filter occupied ((slots P)[i := p])) = Suc (length (filter occupied (slots P)))"
    using i assms(2) by (intro filter_update_on) (simp_all add: occupied_def fresh_entry_def)
  moreover have "\<forall>s\<in>set ((slots P)[i := p]). slot_ok s"
    using assms(1,2) set_update_subset_insert [of "slots P" i p]
    by (auto simp: pool_inv_def fresh_entry_def slot_ok_def)
  ultimately show ?thesis using assms(1) by (simp add: Q pool_inv_def)
qed

lemma pool_put_pending:
  assumes "pool_inv P" and "fresh_entry p" and "pool_put p P = Some Q"
  shows "pending Q = add_mset p (pending P)"
proof -
  from pool_put_cases [OF assms(1,3)] obtain i where i: "i < length (slots P)" "filled (slots P ! i) = 0"
    and Q: "Q = P\<lparr>slots := (slots P)[i := p], pool_count := pool_count P + 1\<rparr>" .
  with assms(2) show ?thesis
    unfolding pending_def Q
    by (simp del: mset_filter)
       (intro mset_filter_update, simp_all add: occupied_def fresh_entry_def)
qed

lemma pool_put_size [frame_simps]: "pool_put p P = Some Q \<Longrightarrow> pool_size Q = pool_size P"
  by (auto simp: pool_put_def split: if_splits option.splits)

lemma fresh_generated: "length (env_stack env) = TX_ID_LEN \<Longrightarrow> fresh_entry (fst (generate_transaction env n r))"
  using generated_id [of env n r] by (simp add: fresh_entry_def) (simp add: generate_transaction_def Let_def)

text \<open>The pool with the generator's insertion is a bounded store. An item is an entry to insert,
  forced to be a fresh one, so that the law on contents needs no side condition.\<close>

definition put_tx :: "Transaction \<Rightarrow> TransactionPool \<Rightarrow> TransactionPool option" where
  "put_tx t P = pool_put \<lparr>filled = 1, age = 0, tx = t\<rparr> P"

interpretation txpool: bounded_store pool_inv capacity "\<lambda>P. image_mset tx (pending P)"
  "\<lambda>t. terminated TX_ID_LEN (tx_id t)" "\<lambda>t. t" put_tx
proof unfold_locales
  fix P Q t
  assume P: "pool_inv P"
  show "size (image_mset tx (pending P)) \<le> capacity P" by (simp add: pool_inv_count_le P)
  have "pool_count P = pool_size P \<longleftrightarrow> \<not> size (pending P) < capacity P"
    using pool_inv_count_le [OF P] pool_inv_count [OF P]
    by (auto simp: capacity_def word_unat_eq_iff)
  then show "(\<exists>q. put_tx t P = Some q) \<longleftrightarrow> size (image_mset tx (pending P)) < capacity P"
    using pool_put_None [OF P] by (auto simp: put_tx_def not_None_eq [symmetric] simp del: not_None_eq)
  {
    assume "terminated TX_ID_LEN (tx_id t)" and "put_tx t P = Some Q"
    then show "pool_inv Q"
      using pool_put_inv [OF P, of "\<lparr>filled = 1, age = 0, tx = t\<rparr>" Q]
      by (simp add: put_tx_def fresh_entry_def)
  }
  assume Q: "put_tx t P = Some Q"
  then show "capacity Q = capacity P" by (simp add: put_tx_def capacity_def frame_simps)
  from pool_put_cases [OF P Q [unfolded put_tx_def]] obtain i where i: "i < length (slots P)"
    "filled (slots P ! i) = 0"
    and e: "Q = P\<lparr>slots := (slots P)[i := \<lparr>filled = 1, age = 0, tx = t\<rparr>], pool_count := pool_count P + 1\<rparr>" .
  have "mset (filter occupied (slots Q)) = add_mset \<lparr>filled = 1, age = 0, tx = t\<rparr> (mset (filter occupied (slots P)))"
    using i mset_filter_update [of i "slots P" occupied "\<lparr>filled = 1, age = 0, tx = t\<rparr>"]
    by (simp add: e occupied_def del: mset_filter)
  then show "image_mset tx (pending Q) = add_mset t (image_mset tx (pending P))"
    by (simp add: pending_def del: mset_filter)
qed

section \<open>Signalling\<close>

lemma to_post_spec:
  assumes "0 \<le> sint semval" and "0 \<le> sint num_miners"
  shows "sint semval + int (to_post num_miners semval) = max (sint semval) (sint num_miners)"
proof -
  have "sint (num_miners - semval) = sint num_miners - sint semval"
    using assms sint_32_upper [of num_miners] sint_32_upper [of semval]
    by (simp add: sint_word_ariths signed_take_bit_int_eq_self)
  then show ?thesis by (simp add: to_post_def Let_def)
qed

lemma add_transaction_cases:
  assumes "pool_inv P" and "length (env_stack env) = TX_ID_LEN"
  obtains (full) "pool_count P = pool_size P" and "add_transaction env r g P = (g, P, False)"
    | (added) P' where "unat (pool_count P) < unat (pool_size P)" and "pool_inv P'"
      and "pool_size P' = pool_size P"
      and "pending P' = add_mset (fst (generate_transaction env (tx_number g) r)) (pending P)"
      and "add_transaction env r g P =
        (g\<lparr>tx_number := tx_number g + 1, generated_transactions := generated_transactions g + 1\<rparr>, P', True)"
proof -
  obtain p where gen: "generate_transaction env (tx_number g) r = (p, tx_number g + 1)"
    by (simp add: generate_transaction_def Let_def)
  have fresh: "fresh_entry p"
    using fresh_generated [OF assms(2), of "tx_number g" r] by (simp add: gen)
  show thesis
  proof (cases "pool_put p P")
    case None
    then have "add_transaction env r g P = (g, P, False)"
      by (simp add: add_transaction_def gen)
    with None pool_put_None [OF assms(1)] show thesis by (blast intro: full)
  next
    case (Some Q)
    then have "add_transaction env r g P =
        (g\<lparr>tx_number := tx_number g + 1, generated_transactions := generated_transactions g + 1\<rparr>, Q, True)"
      by (simp add: add_transaction_def gen)
    moreover have "unat (pool_count P) < unat (pool_size P)"
      by (rule pool_put_cases [OF assms(1) Some])
    moreover have "pending Q = add_mset (fst (generate_transaction env (tx_number g) r)) (pending P)"
      using pool_put_pending [OF assms(1) fresh Some] by (simp add: gen)
    ultimately show thesis
      using added pool_put_inv [OF assms(1) fresh Some] pool_put_size [OF Some] by blast
  qed
qed

lemma txgen_iteration_Some:
  "env_wait_ok env \<Longrightarrow> env_post_ok env \<Longrightarrow>
   \<exists>g' P' posts. txgen_iteration env r num_miners tpb g P = Some (g', P', posts)"
  by (cases "add_transaction env r g P") (simp add: txgen_iteration_def Let_def)

text \<open>An iteration that ends normally: the pool was full, or one transaction was added.\<close>

lemma txgen_iteration_cases:
  assumes "pool_inv P" and "length (env_stack env) = TX_ID_LEN"
    and "txgen_iteration env r num_miners tpb g P = Some (g', P', posts)"
  obtains (unchanged) "pool_count P = pool_size P" and "P' = P" and "tx_number g' = tx_number g"
      and "generated_transactions g' = generated_transactions g"
    | (extended) "pool_count P \<noteq> pool_size P" and "pool_inv P'" and "pool_size P' = pool_size P"
      and "pending P' = add_mset (fst (generate_transaction env (tx_number g) r)) (pending P)"
      and "tx_number g' = tx_number g + 1"
      and "generated_transactions g' = generated_transactions g + 1"
proof -
  show thesis
    using assms(1,2)
  proof (cases rule: add_transaction_cases [where r = r and g = g])
    case full
    with assms(3) have "P' = P" "tx_number g' = tx_number g" "generated_transactions g' = generated_transactions g"
      by (auto simp: txgen_iteration_def Let_def split: if_splits)
    with full(1) show thesis by (rule that(1))
  next
    case (added P1)
    then have "P' = P1" "tx_number g' = tx_number g + 1" "generated_transactions g' = generated_transactions g + 1"
      using assms(3) by (auto simp: txgen_iteration_def Let_def split: if_splits)
    moreover have "pool_count P \<noteq> pool_size P" using added(1) by auto
    ultimately show thesis using added(2-4) that(2) by simp
  qed
qed

section \<open>Properties\<close>

text \<open>C25: an iteration of the generator keeps the pool's invariant. When the pool is full it changes
  nothing in the pool and consumes no identifier; otherwise it adds exactly the one transaction it
  generated, in a free slot, and counts it.\<close>

theorem txgen_iteration_pool:
  assumes "pool_inv P" and "length (env_stack env) = TX_ID_LEN"
    and "txgen_iteration env r num_miners tpb g P = Some (g', P', posts)"
  shows "pool_inv P' \<and> pool_size P' = pool_size P \<and>
    (if pool_count P = pool_size P
     then P' = P \<and> tx_number g' = tx_number g \<and> generated_transactions g' = generated_transactions g
     else pending P' = add_mset (fst (generate_transaction env (tx_number g) r)) (pending P)
       \<and> tx_number g' = tx_number g + 1
       \<and> generated_transactions g' = generated_transactions g + 1)"
  using assms
proof (cases rule: txgen_iteration_cases)
  case unchanged
  then show ?thesis using assms(1) by simp
next
  case extended
  then show ?thesis by simp
qed

definition example_env :: TxGenEnv where
  "example_env = \<lparr>env_pid = 41, env_rand = 1250, env_time = 1700000000,
     env_stack = replicate 64 CHR ''?'', env_wait_ok = True, env_post_ok = True, env_semval = 0\<rparr>"

definition example_config :: Config where
  "example_config = \<lparr>NUM_MINERS = 2, TRANSACTION_POOL_SIZE = 3, TRANSACTIONS_PER_BLOCK = 1, BLOCKCHAIN_BLOCKS = 5\<rparr>"

definition example_gen :: TxGen where
  "example_gen = \<lparr>tx_number = 0, generated_transactions = 0, last_signal_count = 0\<rparr>"

theorem txgen_iteration_pool_witness:
  "\<exists>g' P' posts. txgen_iteration example_env 2 2 1 example_gen (init_pool example_config) = Some (g', P', posts)
     \<and> pool_inv P' \<and> size (pending P') = 1"
proof -
  let ?P = "init_pool example_config"
  obtain g' P' posts where it: "txgen_iteration example_env 2 2 1 example_gen ?P = Some (g', P', posts)"
    using txgen_iteration_Some [of example_env 2 2 1 example_gen ?P] by (auto simp: example_env_def)
  have "length (env_stack example_env) = TX_ID_LEN" by (simp add: example_env_def TX_ID_LEN_def)
  from txgen_iteration_pool [OF pool_inv_init this it]
  have "pool_inv P'" and "pending P' = add_mset (fst (generate_transaction example_env (tx_number example_gen) 2)) (pending ?P)"
    by (simp_all add: init_pool_def example_config_def)
  with it show ?thesis by (auto simp: pending_init)
qed

text \<open>C26: transaction identifiers are unique. The identifiers of two generated transactions are equal
  as strings only if they come from the same process and carry the same number, whatever the bytes
  on the stack were.\<close>

theorem generated_ids_unique:
  assumes "length (env_stack e) = TX_ID_LEN" and "length (env_stack e') = TX_ID_LEN"
  shows "strcmp_eq (tx_id (tx (fst (generate_transaction e n r))))
                   (tx_id (tx (fst (generate_transaction e' n' r'))))
     \<longleftrightarrow> env_pid e = env_pid e' \<and> n = n'"
  using generated_id(1) [OF assms(1), of n r] generated_id(1) [OF assms(2), of n' r']
    tx_id_text_inj [of "env_pid e" n "env_pid e'" n']
  by (auto simp: strcmp_eq_def)

theorem generated_ids_unique_witness:
  "\<not> strcmp_eq (tx_id (tx (fst (generate_transaction example_env 1 2))))
               (tx_id (tx (fst (generate_transaction example_env 12 2))))"
proof -
  have l: "length (env_stack example_env) = TX_ID_LEN" by (simp add: example_env_def TX_ID_LEN_def)
  show ?thesis using generated_ids_unique [OF l l, of 1 2 12 2] by simp
qed

text \<open>The generator tops \<open>sem_minerwork\<close> up to the number of miners and never beyond: from the
  value it read, its posts lead to the larger of that value and the number of miners.\<close>

theorem posts_top_up:
  assumes "0 \<le> sint semval" and "0 \<le> sint num_miners"
  shows "sint semval + int (to_post num_miners semval) = max (sint semval) (sint num_miners)"
  using assms by (rule to_post_spec)

theorem posts_top_up_witness: "sint (2 :: c_int) + int (to_post 5 2) = 5"
  using posts_top_up [of 2 5] by simp

text \<open>The miners are signalled only when a block's worth of transactions is pending, and always
  when there is and this iteration added one.\<close>

theorem txgen_signals:
  assumes "pool_inv P" and "length (env_stack env) = TX_ID_LEN"
    and "txgen_iteration env r num_miners tpb g P = Some (g', P', posts)"
  shows "(0 < posts \<longrightarrow> sint tpb \<le> sint (pool_count P'))
    \<and> (sint tpb \<le> sint (pool_count P') \<and> pool_count P \<noteq> pool_size P
         \<longrightarrow> posts = to_post num_miners (env_semval env) \<and> last_signal_count g' = pool_count P')"
  using assms(1,2)
proof (cases rule: add_transaction_cases [where r = r and g = g])
  case full
  with assms(3) show ?thesis
    by (auto simp: txgen_iteration_def should_signal_def Let_def split: if_splits)
next
  case (added P1)
  with assms(3) show ?thesis
    by (auto simp: txgen_iteration_def should_signal_def Let_def split: if_splits)
qed

theorem txgen_signals_witness:
  "\<exists>g' P'. txgen_iteration example_env 2 2 1 example_gen (init_pool example_config) = Some (g', P', 2)"
proof -
  let ?P = "init_pool example_config"
  obtain g' P' posts where it: "txgen_iteration example_env 2 2 1 example_gen ?P = Some (g', P', posts)"
    using txgen_iteration_Some [of example_env 2 2 1 example_gen ?P] by (auto simp: example_env_def)
  have l: "length (env_stack example_env) = TX_ID_LEN" by (simp add: example_env_def TX_ID_LEN_def)
  have room: "pool_count ?P \<noteq> pool_size ?P" by (simp add: init_pool_def example_config_def)
  have "unat (pool_count P') = 1"
    using pool_inv_init [of example_config] l
  proof (cases rule: add_transaction_cases [where r = 2 and g = example_gen])
    case full
    with room show ?thesis by simp
  next
    case (added P1)
    with it have "P' = P1" by (auto simp: txgen_iteration_def Let_def split: if_splits)
    with added pool_inv_count [of P1] show ?thesis by (simp add: pending_init)
  qed
  then have "pool_count P' = 1" by (simp add: word_unat_eq_iff)
  with txgen_signals [OF pool_inv_init l it] room have "posts = to_post 2 (env_semval example_env)" by simp
  then have "posts = 2" by (simp add: to_post_def example_env_def)
  with it show ?thesis by blast
qed

text \<open>The pool is a bounded store. From any state that satisfies the invariant, a sequence of
  insertions succeeds exactly when it fits in the free slots, and then the pending transactions are
  the old ones and the new ones.\<close>

theorem pool_accepts_exactly_its_capacity:
  assumes "pool_inv P" and "\<And>t. t \<in> set ts \<Longrightarrow> terminated TX_ID_LEN (tx_id t)"
  shows "((\<exists>Q. put_list put_tx ts P = Some Q) \<longleftrightarrow> unat (pool_count P) + length ts \<le> unat (pool_size P))
    \<and> (\<forall>Q. put_list put_tx ts P = Some Q \<longrightarrow>
         pool_inv Q \<and> image_mset tx (pending Q) = mset ts + image_mset tx (pending P))"
  using txpool.put_list_Some [OF assms(1), of ts] txpool.put_list_content [OF assms(1), of ts]
    assms(2) pool_inv_count [OF assms(1)]
  by (auto simp: capacity_def)

theorem pool_accepts_exactly_its_capacity_witness:
  "(\<exists>Q. put_list put_tx (replicate 3 zero_tx) (init_pool example_config) = Some Q)
   \<and> \<not> (\<exists>Q. put_list put_tx (replicate 4 zero_tx) (init_pool example_config) = Some Q)"
proof -
  have "unat (pool_count (init_pool example_config)) = 0" "unat (pool_size (init_pool example_config)) = 3"
    by (simp_all add: init_pool_def example_config_def)
  then show ?thesis
    using pool_accepts_exactly_its_capacity [OF pool_inv_init [of example_config], of "replicate 3 zero_tx"]
      pool_accepts_exactly_its_capacity [OF pool_inv_init [of example_config], of "replicate 4 zero_tx"]
      terminated_zero
    by simp
qed

text \<open>The command line is read back exactly. The program accepts the printed form of a reward
  from 1 to 3 and a sleep time from 200 to 3000, and rejects every number outside these ranges with
  the corresponding error.\<close>

theorem txgen_args_roundtrip:
  assumes "- 2147483648 \<le> r" and "r < 2147483648" and "- 2147483648 \<le> s" and "s < 2147483648"
  shows "txgen_args [prog, dec_int r, dec_int s] =
    (if r < 1 \<or> 3 < r then Inl BadReward
     else if s < 200 \<or> 3000 < s then Inl BadSleepTime
     else Inr (word_of_int r, word_of_int s))"
proof -
  have "sint (atoi (dec_int r)) = r" "sint (atoi (dec_int s)) = s"
    using atoi_dec_int [of r "[]"] atoi_dec_int [of s "[]"] assms by simp_all
  moreover from this have "atoi (dec_int r) = word_of_int r" "atoi (dec_int s) = word_of_int s"
    using assms by (simp_all add: word_32_eq_sint signed_of_int signed_take_bit_int_eq_self)
  ultimately show ?thesis by (simp add: txgen_args_def Let_def)
qed

theorem txgen_args_roundtrip_witness:
  "txgen_args [''txgen'', dec_int 2, dec_int 500] = Inr (2, 500)
   \<and> txgen_args [''txgen'', dec_int 4, dec_int 500] = Inl BadReward"
  using txgen_args_roundtrip [of 2 500 "''txgen''"] txgen_args_roundtrip [of 4 500 "''txgen''"] by simp

end
