(* ===== verification/Simulation.thy ===== *)
theory Simulation
  imports StatisticsProc TxGen
begin

text \<open>
  The processes together: generators, miner threads and validators that interleave their critical
  sections over the shared pool and ledger, the pipe, the message queue and the statistics process.
  One step of the relation is one critical section, or one use of the pipe or the queue, by one
  process; the functions it uses are those of the component theories. A miner thread or a validator
  keeps, between its steps, what the code keeps in local variables. Messages are written to the pipe
  as a whole (blocks of at most 49 transactions). Validators may be ended and miner threads cancelled
  between their critical sections. The lemmas show an invariant of all reachable states by rule
  induction, from which the properties of the components hold in every interleaving.
\<close>

section \<open>States\<close>

datatype MinerState =
    Idle
  | HasTransactions "Transaction list"
  | Mining TransactionBlock
  | Ended

datatype ValidatorState =
    Waiting
  | Prechecked TransactionBlock
  | PoolDone TransactionBlock

record System =
  pool :: TransactionPool
  ledger :: Ledger
  pipe :: "bytes list"
  queue :: "StatisticsMessage list"
  stats :: Statistics
  generators :: "c_int \<Rightarrow> TxGen"
  miners :: "nat \<Rightarrow> MinerState"
  block_numbers :: "nat \<Rightarrow> c_int"
  validators :: "nat \<Rightarrow> ValidatorState"

text \<open>Miner thread \<open>i\<close> of the array has the identifier \<open>i + 1\<close>.\<close>

definition thread_number :: "nat \<Rightarrow> c_int" where
  "thread_number i = word_of_nat (i + 1)"

text \<open>The state when the first validator has created the origin block.\<close>

definition initial :: "(bytes \<Rightarrow> bytes) \<Rightarrow> Config \<Rightarrow> System \<Rightarrow> bool" where
  "initial sha cfg s \<longleftrightarrow>
     pool s = init_pool cfg \<and>
     create_origin sha (TRANSACTIONS_PER_BLOCK cfg) (init_ledger cfg) = Some (ledger s) \<and>
     pipe s = [] \<and> queue s = [] \<and> stats s = init_statistics cfg \<and>
     generators s = (\<lambda>_. \<lparr>tx_number = 0, generated_transactions = 0, last_signal_count = 0\<rparr>) \<and>
     miners s = (\<lambda>_. Idle) \<and> block_numbers s = (\<lambda>_. 0) \<and> validators s = (\<lambda>_. Waiting)"

section \<open>Steps\<close>

text \<open>The last three: a validator that has read a block and ends without using it (it cannot allocate memory, or
  SIGTERM reaches it), a validator that SIGTERM ends between its critical sections (the launcher does so
  when the load falls; a validator started in its place waits for a block again), and a miner thread that is
  cancelled.\<close>

inductive step :: "(bytes \<Rightarrow> bytes) \<Rightarrow> Config \<Rightarrow> System \<Rightarrow> System \<Rightarrow> bool" for sha cfg where
  generate:
    "txgen_iteration env r (pool_num_miners (pool s)) (pool_tpb (pool s)) (generators s pid) (pool s) = Some (g, P, posts) \<Longrightarrow>
     env_pid env = pid \<Longrightarrow> length (env_stack env) = TX_ID_LEN \<Longrightarrow>
     unat (tx_number (generators s pid)) + 1 < 2 ^ 32 \<Longrightarrow>
     step sha cfg s (s\<lparr>pool := P, generators := (generators s)(pid := g)\<rparr>)"
| select:
    "i < unat (NUM_MINERS cfg) \<Longrightarrow> miners s i = Idle \<Longrightarrow>
     select_transactions True rnds (TRANSACTIONS_PER_BLOCK cfg) (pool s) = Selected ts \<Longrightarrow>
     step sha cfg s (s\<lparr>miners := (miners s)(i := HasTransactions ts)\<rparr>)"
| previous_hash:
    "i < unat (NUM_MINERS cfg) \<Longrightarrow> miners s i = HasTransactions ts \<Longrightarrow>
     get_previous_hash (BLOCKCHAIN_BLOCKS cfg) (ledger s) = Some prev \<Longrightarrow>
     step sha cfg s
       (s\<lparr>miners := (miners s)(i := Mining (build_block (thread_number i) (block_numbers s i) prev ts)),
          block_numbers := (block_numbers s)(i := block_numbers s i + 1)\<rparr>)"
| ledger_full:
    "i < unat (NUM_MINERS cfg) \<Longrightarrow> miners s i = HasTransactions ts \<Longrightarrow>
     get_previous_hash (BLOCKCHAIN_BLOCKS cfg) (ledger s) = None \<Longrightarrow>
     step sha cfg s (s\<lparr>miners := (miners s)(i := Ended)\<rparr>)"
| write_block:
    "i < unat (NUM_MINERS cfg) \<Longrightarrow> miners s i = Mining b \<Longrightarrow>
     mine_loop sha (TRANSACTIONS_PER_BLOCK cfg) clocks b = Some b' \<Longrightarrow>
     step sha cfg s
       (s\<lparr>miners := (miners s)(i := Idle), pipe := pipe s @ [pipe_message (TRANSACTIONS_PER_BLOCK cfg) b']\<rparr>)"
| no_buffer:
    "i < unat (NUM_MINERS cfg) \<Longrightarrow> miners s i = Mining b \<Longrightarrow>
     step sha cfg s (s\<lparr>miners := (miners s)(i := Idle)\<rparr>)"
| precheck:
    "validators s k = Waiting \<Longrightarrow> pipe s = msg # rest \<Longrightarrow>
     read_block (TRANSACTIONS_PER_BLOCK cfg) heap msg = Inr b \<Longrightarrow>
     prechecks sha (TRANSACTIONS_PER_BLOCK cfg) b (ledger s) \<Longrightarrow>
     step sha cfg s (s\<lparr>pipe := rest, validators := (validators s)(k := Prechecked b)\<rparr>)"
| reject:
    "validators s k = Waiting \<Longrightarrow> pipe s = msg # rest \<Longrightarrow>
     read_block (TRANSACTIONS_PER_BLOCK cfg) heap msg = Inr b \<Longrightarrow>
     \<not> prechecks sha (TRANSACTIONS_PER_BLOCK cfg) b (ledger s) \<Longrightarrow>
     step sha cfg s (s\<lparr>pipe := rest, queue := mq_send (reject_message b) (queue s)\<rparr>)"
| pool_match:
    "validators s k = Prechecked b \<Longrightarrow>
     pool_phase (TRANSACTIONS_PER_BLOCK cfg) b (pool s) = (Match, P) \<Longrightarrow>
     step sha cfg s (s\<lparr>pool := P, validators := (validators s)(k := PoolDone b)\<rparr>)"
| pool_mismatch:
    "validators s k = Prechecked b \<Longrightarrow>
     pool_phase (TRANSACTIONS_PER_BLOCK cfg) b (pool s) = (c, P) \<Longrightarrow> c \<noteq> Match \<Longrightarrow>
     step sha cfg s
       (s\<lparr>validators := (validators s)(k := Waiting), queue := mq_send (reject_message b) (queue s)\<rparr>)"
| commit:
    "validators s k = PoolDone b \<Longrightarrow>
     commit_block sha (TRANSACTIONS_PER_BLOCK cfg) b (ledger s) = Committed L \<Longrightarrow>
     step sha cfg s
       (s\<lparr>ledger := L, validators := (validators s)(k := Waiting),
          queue := mq_send (accept_message (TRANSACTIONS_PER_BLOCK cfg) b (last_block_index (ledger s) + 1) stamp)
                     (queue s)\<rparr>)"
| lost_race:
    "validators s k = PoolDone b \<Longrightarrow>
     commit_block sha (TRANSACTIONS_PER_BLOCK cfg) b (ledger s) = Stale \<Longrightarrow>
     step sha cfg s (s\<lparr>validators := (validators s)(k := Waiting)\<rparr>)"
| count:
    "queue s = m # q \<Longrightarrow>
     process_message (TRANSACTIONS_PER_BLOCK cfg) (ledger s) m (stats s) = Updated st \<Longrightarrow>
     step sha cfg s (s\<lparr>queue := q, stats := st\<rparr>)"
| lose_message:
    "validators s k = Waiting \<Longrightarrow> pipe s = msg # rest \<Longrightarrow> step sha cfg s (s\<lparr>pipe := rest\<rparr>)"
| terminate_validator:
    "validators s k \<noteq> Waiting \<Longrightarrow> step sha cfg s (s\<lparr>validators := (validators s)(k := Waiting)\<rparr>)"
| cancel_miner:
    "i < unat (NUM_MINERS cfg) \<Longrightarrow> step sha cfg s (s\<lparr>miners := (miners s)(i := Ended)\<rparr>)"

inductive reachable :: "(bytes \<Rightarrow> bytes) \<Rightarrow> Config \<Rightarrow> System \<Rightarrow> bool" for sha cfg where
  start: "initial sha cfg s \<Longrightarrow> reachable sha cfg s"
| continue: "reachable sha cfg s \<Longrightarrow> step sha cfg s t \<Longrightarrow> reachable sha cfg t"

inductive_cases step_cases: "step sha cfg s t"

text \<open>The configurations considered: what the controller accepts, with digits for the thread
  numbers and atomic writes to the pipe.\<close>

definition sane :: "Config \<Rightarrow> bool" where
  "sane cfg \<longleftrightarrow>
     1 \<le> sint (NUM_MINERS cfg) \<and> sint (NUM_MINERS cfg) < 1000000 \<and>
     1 \<le> sint (TRANSACTION_POOL_SIZE cfg) \<and> 2 \<le> sint (BLOCKCHAIN_BLOCKS cfg) \<and>
     0 < unat (TRANSACTIONS_PER_BLOCK cfg) \<and> unat (TRANSACTIONS_PER_BLOCK cfg) \<le> 49"

section \<open>The pool\<close>

definition was_generated :: "System \<Rightarrow> PendingTransaction \<Rightarrow> bool" where
  "was_generated s x \<longleftrightarrow>
     \<not> f32_is_nan (tx_value (tx x)) \<and>
     (\<exists>pid n. c_str (tx_id (tx x)) = tx_id_text pid n \<and> unat n < unat (tx_number (generators s pid)))"

definition pool_ok :: "Config \<Rightarrow> System \<Rightarrow> bool" where
  "pool_ok cfg s \<longleftrightarrow>
     pool_inv (pool s) \<and> pool_size (pool s) = TRANSACTION_POOL_SIZE cfg \<and> distinct_ids (pool s) \<and>
     (\<forall>x\<in>#pending (pool s). was_generated s x)"

lemma distinct_ids_add:
  assumes "distinct_ids P" and "pending Q = add_mset x (pending P)"
    and "\<And>y. y \<in># pending P \<Longrightarrow> c_str (tx_id (tx y)) \<noteq> c_str (tx_id (tx x))"
  shows "distinct_ids Q"
proof -
  let ?f = "\<lambda>s. c_str (tx_id (tx s))"
  have "mset (map ?f (filter occupied (slots Q))) = mset (map ?f (x # filter occupied (slots P)))"
    using assms(2) unfolding pending_def by (metis mset.simps(2) mset_map)
  moreover have "distinct (map ?f (x # filter occupied (slots P)))"
    using assms(1) assms(3) [THEN not_sym] by (auto simp: distinct_ids_def pending_def)
  ultimately show ?thesis unfolding distinct_ids_def by (metis mset_eq_imp_distinct_iff)
qed

lemma was_generated_mono:
  assumes "was_generated s y" and "unat (tx_number (generators s p)) \<le> unat (tx_number g)"
  shows "was_generated (s\<lparr>pool := P, generators := (generators s)(p := g)\<rparr>) y"
proof -
  from assms(1) obtain q k where k: "c_str (tx_id (tx y)) = tx_id_text q k" "unat k < unat (tx_number (generators s q))"
    by (auto simp: was_generated_def)
  then have "unat k < unat (tx_number (((generators s)(p := g)) q))" using assms(2) by (cases "q = p") simp_all
  with k(1) assms(1) show ?thesis
    unfolding was_generated_def by (intro conjI exI [of _ q] exI [of _ k]) simp_all
qed

lemma pool_ok_generate:
  assumes ok: "pool_ok cfg s" and env: "length (env_stack env) = TX_ID_LEN" and room: "unat (tx_number (generators s (env_pid env))) + 1 < 2 ^ 32"
    and it: "txgen_iteration env r nm tpb (generators s (env_pid env)) (pool s) = Some (g, P, posts)"
  shows "pool_ok cfg (s\<lparr>pool := P, generators := (generators s)(env_pid env := g)\<rparr>)"
proof -
  let ?n = "tx_number (generators s (env_pid env))"
  let ?t = "s\<lparr>pool := P, generators := (generators s)(env_pid env := g)\<rparr>"
  have inv: "pool_inv (pool s)" using ok by (simp add: pool_ok_def)
  from inv env it show ?thesis
  proof (cases rule: txgen_iteration_cases)
    case unchanged
    then have "was_generated ?t x" if "was_generated s x" for x using that by (intro was_generated_mono) simp_all
    with ok unchanged show ?thesis by (simp add: pool_ok_def)
  next
    case extended
    let ?x = "fst (generate_transaction env ?n r)"
    have x: "c_str (tx_id (tx ?x)) = tx_id_text (env_pid env) ?n" by (rule generated_id(1) [OF env])
    have n: "unat (tx_number g) = Suc (unat ?n)" using extended room by (simp add: unat_add_1)
    have fresh: "c_str (tx_id (tx y)) \<noteq> c_str (tx_id (tx ?x))" if "y \<in># pending (pool s)" for y
    proof -
      from ok that obtain pid n where "c_str (tx_id (tx y)) = tx_id_text pid n" "unat n < unat (tx_number (generators s pid))"
        by (auto simp: pool_ok_def was_generated_def)
      then show ?thesis using tx_id_text_inj [of pid n "env_pid env" ?n] x by auto
    qed
    have known: "was_generated ?t y" if "was_generated s y" for y using that n by (intro was_generated_mono) simp_all
    have "was_generated ?t ?x"
      unfolding was_generated_def using x n random_value_number
      by (intro conjI exI [of _ "env_pid env"] exI [of _ ?n]) (simp_all add: generate_transaction_def)
    with extended ok known distinct_ids_add [OF _ extended(4) fresh] show ?thesis
      by (auto simp: pool_ok_def)
  qed
qed

lemma pool_ok_match:
  assumes ok: "pool_ok cfg s" and p: "pool_phase tpb b (pool s) = (Match, P)"
  shows "pool_ok cfg (s\<lparr>pool := P, validators := v\<rparr>)"
proof -
  have inv: "pool_inv (pool s)" "distinct_ids (pool s)" using ok by (simp_all add: pool_ok_def)
  have "was_generated (s\<lparr>pool := P, validators := v\<rparr>) y" if "y \<in># pending P" for y
  proof -
    from that obtain x where "x \<in># pending (pool s)" "y = age_slot x"
      unfolding pool_phase_pending [OF inv p] by auto
    with ok show ?thesis by (auto simp: pool_ok_def was_generated_def)
  qed
  with pool_phase_inv [OF inv p] ok show ?thesis by (simp add: pool_ok_def)
qed

lemma pool_ok_frame:
  "pool_ok cfg s \<Longrightarrow> pool t = pool s \<Longrightarrow> generators t = generators s \<Longrightarrow> pool_ok cfg t"
  by (simp add: pool_ok_def was_generated_def)

lemma pool_ok_step: "step sha cfg s t \<Longrightarrow> pool_ok cfg s \<Longrightarrow> pool_ok cfg t"
proof (induction rule: step.induct)
  case (generate env r s pid g P posts)
  then show ?case using pool_ok_generate by blast
next
  case (pool_match s k b P)
  then show ?case using pool_ok_match by blast
qed (auto elim: pool_ok_frame)

section \<open>Ledger and blocks in flight\<close>

definition ledger_ok :: "(bytes \<Rightarrow> bytes) \<Rightarrow> Config \<Rightarrow> Ledger \<Rightarrow> bool" where
  "ledger_ok sha cfg L \<longleftrightarrow>
     ledger_inv sha (TRANSACTIONS_PER_BLOCK cfg) L \<and> num_blocks L = BLOCKCHAIN_BLOCKS cfg"

text \<open>A block under construction continues a block of the chain that is not the last possible one, and
  names a miner thread; a good block passes its nonce as well.\<close>

definition draft :: "(bytes \<Rightarrow> bytes) \<Rightarrow> Config \<Rightarrow> Ledger \<Rightarrow> TransactionBlock \<Rightarrow> bool" where
  "draft sha cfg L b \<longleftrightarrow>
     block_padded (TRANSACTIONS_PER_BLOCK cfg) b \<and>
     (\<exists>i. Suc i < unat (BLOCKCHAIN_BLOCKS cfg) \<and> i < length (entries L) \<and>
          previous_block_hash b = compute_sha256 sha (TRANSACTIONS_PER_BLOCK cfg) (entries L ! i)) \<and>
     (\<exists>j n. j < unat (NUM_MINERS cfg) \<and> c_str (txb_id b) = block_id_text (thread_number j) n)"

definition good :: "(bytes \<Rightarrow> bytes) \<Rightarrow> Config \<Rightarrow> Ledger \<Rightarrow> TransactionBlock \<Rightarrow> bool" where
  "good sha cfg L b \<longleftrightarrow> draft sha cfg L b \<and> verify_nonce sha (TRANSACTIONS_PER_BLOCK cfg) b"

definition flight_ok :: "(bytes \<Rightarrow> bytes) \<Rightarrow> Config \<Rightarrow> System \<Rightarrow> bool" where
  "flight_ok sha cfg s \<longleftrightarrow>
     (\<forall>i ts. miners s i = HasTransactions ts \<longrightarrow>
        length ts = unat (TRANSACTIONS_PER_BLOCK cfg) \<and> list_all tx_padded ts) \<and>
     (\<forall>i b. miners s i = Mining b \<longrightarrow> draft sha cfg (ledger s) b) \<and>
     (\<forall>m\<in>set (pipe s). \<exists>b. good sha cfg (ledger s) b \<and> m = pipe_message (TRANSACTIONS_PER_BLOCK cfg) b) \<and>
     (\<forall>k b. validators s k = Prechecked b \<or> validators s k = PoolDone b \<longrightarrow> good sha cfg (ledger s) b)"

lemma draft_grows: "draft sha cfg L b \<Longrightarrow> entries L' = entries L @ bs \<Longrightarrow> draft sha cfg L' b"
  unfolding draft_def by (metis length_append nth_append trans_less_add1)

lemma good_grows: "good sha cfg L b \<Longrightarrow> entries L' = entries L @ bs \<Longrightarrow> good sha cfg L' b"
  unfolding good_def using draft_grows by blast

lemma draft_fields: "draft sha cfg L b \<Longrightarrow> draft sha cfg L (b\<lparr>blk_timestamp := t, nonce := n\<rparr>)"
  by (simp add: draft_def block_padded_def)

text \<open>The block that a thread starts to mine.\<close>

lemma draft_build_block:
  assumes "digest_fn sha" and "ledger_ok sha cfg L" and "i < unat (NUM_MINERS cfg)"
    and "get_previous_hash (BLOCKCHAIN_BLOCKS cfg) L = Some prev"
    and "length ts = unat (TRANSACTIONS_PER_BLOCK cfg)" and "list_all tx_padded ts"
  shows "draft sha cfg L (build_block (thread_number i) n prev ts)"
proof -
  let ?hash = "compute_sha256 sha (TRANSACTIONS_PER_BLOCK cfg)"
  have inv: "ledger_inv sha (TRANSACTIONS_PER_BLOCK cfg) L" using assms(2) by (simp add: ledger_ok_def)
  note chain = ledger_inv_chain [OF inv]
  have pad: "padded HASH_SIZE (last_block_hash L)"
    using chain padded_compute_sha256 [OF digest_fnD [OF assms(1)]] by simp
  have prev: "prev = last_block_hash L" and room: "unat (ledger_count L) < unat (BLOCKCHAIN_BLOCKS cfg)"
    using assms(4) strncpy_n_padded [OF pad] by (auto simp: get_previous_hash_def word_less_nat_alt split: if_splits)
  let ?i = "unat (last_block_index L)"
  have len: "length (entries L) = Suc ?i" and cnt: "unat (ledger_count L) = Suc ?i"
    using inv by (simp_all add: ledger_inv_def length_entries)
  have "prev = ?hash (entries L ! ?i)"
    using chain len by (simp add: prev last_conv_nth)
  moreover have "block_padded (TRANSACTIONS_PER_BLOCK cfg) (build_block (thread_number i) n prev ts)"
    by (rule build_block_padded) (use pad prev assms(5,6) in simp_all)
  moreover have "previous_block_hash (build_block (thread_number i) n prev ts) = prev"
    using strncpy_n_padded [OF pad] by (simp add: build_block_def prev)
  moreover have "c_str (txb_id (build_block (thread_number i) n prev ts)) = block_id_text (thread_number i) n"
    by (simp add: build_block_def c_str_block_id)
  ultimately show ?thesis
    unfolding draft_def using assms(3) room len cnt by (metis lessI)
qed

text \<open>What an insertion of a good block does to the ledger.\<close>

lemma commit_grows:
  assumes "digest_fn sha" and "ledger_ok sha cfg L" and "good sha cfg L b"
    and "commit_block sha (TRANSACTIONS_PER_BLOCK cfg) b L = Committed L'"
  shows "ledger_ok sha cfg L' \<and> entries L' = entries L @ [b] \<and> length (blocks L') = length (blocks L)
    \<and> Suc (unat (last_block_index L)) < length (blocks L) \<and> unat (last_block_index L + 1) = Suc (unat (last_block_index L))"
proof -
  have inv: "ledger_inv sha (TRANSACTIONS_PER_BLOCK cfg) L" using assms(2) by (simp add: ledger_ok_def)
  have b: "block_padded (TRANSACTIONS_PER_BLOCK cfg) b" "verify_nonce sha (TRANSACTIONS_PER_BLOCK cfg) b"
    using assms(3) by (simp_all add: good_def draft_def)
  show ?thesis
  proof (rule commit_block_cases [OF inv b digest_fnD [OF assms(1)]])
    fix L1
    assume room: "unat (ledger_count L) < unat (num_blocks L)"
      and c: "commit_block sha (TRANSACTIONS_PER_BLOCK cfg) b L = Committed L1"
      and L1: "ledger_inv sha (TRANSACTIONS_PER_BLOCK cfg) L1" "entries L1 = entries L @ [b]" "num_blocks L1 = num_blocks L"
    have "L1 = L'" using c assms(4) by simp
    with L1 room show ?thesis
      using assms(2) inv ledger_inv_index [OF inv room] by (simp add: ledger_ok_def ledger_inv_def)
  qed (use assms(4) in simp_all)
qed

lemma read_good:
  assumes "sane cfg" and "good sha cfg L b0" and "msg = pipe_message (TRANSACTIONS_PER_BLOCK cfg) b0"
    and "read_block (TRANSACTIONS_PER_BLOCK cfg) heap msg = Inr b"
  shows "b = b0"
proof -
  have "block_sized (TRANSACTIONS_PER_BLOCK cfg) b0"
    using assms(2) by (simp add: good_def draft_def block_padded_sized)
  moreover have "unat (TRANSACTIONS_PER_BLOCK cfg) < 2 ^ 57" using assms(1) by (simp add: sane_def)
  ultimately have "read_block (TRANSACTIONS_PER_BLOCK cfg) heap msg = Inr b0"
    using read_block_message assms(3) by blast
  with assms(4) show ?thesis by simp
qed

definition core_ok :: "(bytes \<Rightarrow> bytes) \<Rightarrow> Config \<Rightarrow> System \<Rightarrow> bool" where
  "core_ok sha cfg s \<longleftrightarrow> pool_ok cfg s \<and> ledger_ok sha cfg (ledger s) \<and> flight_ok sha cfg s"

lemma flight_ok_commit:
  assumes "flight_ok sha cfg s" and "entries L = entries (ledger s) @ [b]"
    and "miners t = miners s" and "pipe t = pipe s" and "ledger t = L"
    and "\<And>k b. validators t k = Prechecked b \<or> validators t k = PoolDone b \<Longrightarrow> validators s k = validators t k"
  shows "flight_ok sha cfg t"
  using assms draft_grows [OF _ assms(2)] good_grows [OF _ assms(2)]
  unfolding flight_ok_def by (metis (no_types, lifting))

lemma core_ok_step:
  assumes "digest_fn sha" and "sane cfg"
  shows "step sha cfg s t \<Longrightarrow> core_ok sha cfg s \<Longrightarrow> core_ok sha cfg t"
proof -
  assume step: "step sha cfg s t" and ok: "core_ok sha cfg s"
  have p: "pool_ok cfg t" using pool_ok_step [OF step] ok by (simp add: core_ok_def)
  have f: "flight_ok sha cfg s" and l: "ledger_ok sha cfg (ledger s)" using ok by (simp_all add: core_ok_def)
  have tpb: "0 < unat (TRANSACTIONS_PER_BLOCK cfg)" "unat (TRANSACTIONS_PER_BLOCK cfg) < 2147483648"
    using assms(2) by (simp_all add: sane_def)
  have "ledger_ok sha cfg (ledger t) \<and> flight_ok sha cfg t"
    using step
  proof (cases rule: step.cases)
    case (generate env r pid g P posts)
    then show ?thesis using f l by (simp add: flight_ok_def)
  next
    case (select i rnds ts)
    have inv: "pool_inv (pool s)" using ok by (simp add: core_ok_def pool_ok_def)
    have "length ts = unat (TRANSACTIONS_PER_BLOCK cfg)" "list_all tx_padded ts"
      using Selected_from_pool [OF inv tpb select(4)] Selected_padded [OF inv tpb select(4)] by simp_all
    then show ?thesis using f l select by (auto simp: flight_ok_def)
  next
    case (previous_hash i ts prev)
    then have "draft sha cfg (ledger s) (build_block (thread_number i) (block_numbers s i) prev ts)"
      using f l assms(1) by (intro draft_build_block) (auto simp: flight_ok_def)
    then show ?thesis using f l previous_hash by (auto simp: flight_ok_def)
  next
    case (ledger_full i ts)
    then show ?thesis using f l by (auto simp: flight_ok_def)
  next
    case (write_block i b clocks b2)
    then have "draft sha cfg (ledger s) b" using f by (auto simp: flight_ok_def)
    then have "good sha cfg (ledger s) b2"
      using mine_loop_Some [OF write_block(4)] draft_fields by (auto simp: good_def)
    then show ?thesis using f l write_block by (auto simp: flight_ok_def)
  next
    case (no_buffer i b)
    then show ?thesis using f l by (auto simp: flight_ok_def)
  next
    case (precheck k msg rest heap b)
    then obtain b0 where "good sha cfg (ledger s) b0" "msg = pipe_message (TRANSACTIONS_PER_BLOCK cfg) b0"
      using f by (auto simp: flight_ok_def)
    with read_good [OF assms(2) this precheck(4)] have "good sha cfg (ledger s) b" by simp
    then show ?thesis using f l precheck by (auto simp: flight_ok_def)
  next
    case (reject k msg rest heap b)
    then show ?thesis using f l by (auto simp: flight_ok_def)
  next
    case (pool_match k b P)
    then show ?thesis using f l by (auto simp: flight_ok_def)
  next
    case (pool_mismatch k b c P)
    then show ?thesis using f l by (auto simp: flight_ok_def)
  next
    case (commit k b L stamp)
    then have "good sha cfg (ledger s) b" using f by (auto simp: flight_ok_def)
    from commit_grows [OF assms(1) l this commit(3)] have L: "ledger_ok sha cfg L" "entries L = entries (ledger s) @ [b]"
      by simp_all
    have "flight_ok sha cfg t"
      by (rule flight_ok_commit [OF f L(2)]) (use commit in \<open>auto split: if_splits\<close>)
    then show ?thesis using L(1) commit(1) by simp
  next
    case (lost_race k b)
    then show ?thesis using f l by (auto simp: flight_ok_def)
  next
    case (count m q st)
    then show ?thesis using f l by (auto simp: flight_ok_def)
  next
    case (lose_message k msg rest)
    then show ?thesis using f l by (auto simp: flight_ok_def)
  next
    case (terminate_validator k)
    then show ?thesis using f l by (auto simp: flight_ok_def)
  next
    case (cancel_miner i)
    then show ?thesis using f l by (auto simp: flight_ok_def)
  qed
  with p show ?thesis by (simp add: core_ok_def)
qed

lemma core_ok_initial:
  assumes "digest_fn sha" and "sane cfg" and "initial sha cfg s"
  shows "core_ok sha cfg s"
proof -
  have "BLOCKCHAIN_BLOCKS cfg \<noteq> 0" using assms(2) by (auto simp: sane_def)
  with create_origin_inv [OF assms(1)] assms(3) have "ledger_ok sha cfg (ledger s)"
    by (auto simp: ledger_ok_def initial_def)
  moreover have "distinct_ids (init_pool cfg)"
    by (simp add: distinct_ids_def init_pool_def occupied_def zero_pending_def)
  moreover have "pool_size (init_pool cfg) = TRANSACTION_POOL_SIZE cfg" by (simp add: init_pool_def)
  ultimately show ?thesis
    using assms(3) pool_inv_init [of cfg] pending_init [of cfg]
    by (simp add: core_ok_def pool_ok_def flight_ok_def initial_def)
qed

lemma core_ok_reachable:
  "reachable sha cfg s \<Longrightarrow> digest_fn sha \<Longrightarrow> sane cfg \<Longrightarrow> core_ok sha cfg s"
  by (induction rule: reachable.induct) (blast intro: core_ok_initial core_ok_step)+

section \<open>The statistics\<close>

definition message_ok :: "Config \<Rightarrow> Ledger \<Rightarrow> StatisticsMessage \<Rightarrow> bool" where
  "message_ok cfg L m \<longleftrightarrow>
     miner_index m (unat (NUM_MINERS cfg)) \<noteq> None \<and>
     (block_index m = - 1 \<or> 0 \<le> sint (block_index m) \<and> unat (block_index m) < length (blocks L))"

definition queue_ok :: "Config \<Rightarrow> System \<Rightarrow> bool" where
  "queue_ok cfg s \<longleftrightarrow>
     length (queue s) \<le> STATISTICS_MQ_SIZE \<and> (\<forall>m\<in>set (queue s). message_ok cfg (ledger s) m) \<and>
     stat_inv (unat (NUM_MINERS cfg)) (stats s)"

lemma set_mq_send: "set (mq_send m q) \<subseteq> insert m (set q)"
  by (auto simp: mq_send_def)

lemma length_mq_send: "length q \<le> STATISTICS_MQ_SIZE \<Longrightarrow> length (mq_send m q) \<le> STATISTICS_MQ_SIZE"
  by (simp add: mq_send_def)

lemma thread_number_index:
  assumes "sane cfg" and "j < unat (NUM_MINERS cfg)"
  shows "sint (thread_number j) = int j + 1" and "j + 1 < 1000000" and "unat (NUM_MINERS cfg) = nat (sint (NUM_MINERS cfg))"
proof -
  have "0 \<le> sint (NUM_MINERS cfg)" "sint (NUM_MINERS cfg) < 1000000" using assms(1) by (simp_all add: sane_def)
  then show n: "unat (NUM_MINERS cfg) = nat (sint (NUM_MINERS cfg))" by (simp add: sint_nonneg)
  with assms \<open>sint (NUM_MINERS cfg) < 1000000\<close> show j: "j + 1 < 1000000" by linarith
  then have "sint (word_of_nat (j + 1) :: c_int) = int (j + 1)"
    by (simp add: signed_of_nat signed_take_bit_int_eq_self del: of_nat_add of_nat_Suc)
  then show "sint (thread_number j) = int j + 1" by (simp only: thread_number_def of_nat_add of_nat_1)
qed

lemma good_message:
  assumes "sane cfg" and "good sha cfg L b" and "m = reject_message b \<or> m = accept_message tpb b i stamp"
  shows "miner_index m (unat (NUM_MINERS cfg)) \<noteq> None"
proof -
  obtain j n where j: "j < unat (NUM_MINERS cfg)" and id: "c_str (txb_id b) = block_id_text (thread_number j) n"
    using assms(2) by (auto simp: good_def draft_def)
  note t = thread_number_index [OF assms(1) j]
  have "miner_index m (unat (NUM_MINERS cfg)) = Some (nat (sint (thread_number j)) - 1)"
    by (rule miner_index_block [OF id _ _ _ assms(3)]) (use t j in simp_all)
  then show ?thesis by simp
qed

lemma reject_ok: "sane cfg \<Longrightarrow> good sha cfg L b \<Longrightarrow> message_ok cfg L' (reject_message b)"
  using good_message by (simp add: message_ok_def) (simp add: reject_message_def)

lemma accept_ok:
  assumes "digest_fn sha" and "sane cfg" and "ledger_ok sha cfg L" and "good sha cfg L b"
    and "commit_block sha (TRANSACTIONS_PER_BLOCK cfg) b L = Committed L'"
  shows "message_ok cfg L' (accept_message (TRANSACTIONS_PER_BLOCK cfg) b (last_block_index L + 1) stamp)"
proof -
  note g = commit_grows [OF assms(1,3-5)]
  have "unat (last_block_index L + 1) < unat (BLOCKCHAIN_BLOCKS cfg)"
    using g assms(3) by (simp add: ledger_ok_def ledger_inv_def)
  moreover have "0 \<le> sint (BLOCKCHAIN_BLOCKS cfg)" using assms(2) by (simp add: sane_def)
  then have "unat (BLOCKCHAIN_BLOCKS cfg) < 2147483648"
    using sint_nonneg [of "BLOCKCHAIN_BLOCKS cfg"] sint_32_upper [of "BLOCKCHAIN_BLOCKS cfg"] by linarith
  ultimately have "sint (last_block_index L + 1) = int (unat (last_block_index L + 1))"
    by (intro sint_small) simp
  then have "0 \<le> sint (last_block_index L + 1)" by linarith
  moreover have "block_index (accept_message tpb b i stamp) = i" for tpb i
    by (simp add: accept_message_def)
  ultimately show ?thesis
    using g good_message [OF assms(2,4) disjI2 [OF refl]] by (simp add: message_ok_def)
qed

lemma message_ok_blocks: "message_ok cfg L m \<Longrightarrow> length (blocks L') = length (blocks L) \<Longrightarrow> message_ok cfg L' m"
  by (simp add: message_ok_def)

lemma queue_ok_send:
  assumes "queue_ok cfg s" and "message_ok cfg (ledger t) m" and "queue t = mq_send m (queue s)"
    and "stats t = stats s" and "length (blocks (ledger t)) = length (blocks (ledger s))"
  shows "queue_ok cfg t"
  unfolding queue_ok_def
proof (intro conjI ballI)
  show "length (queue t) \<le> STATISTICS_MQ_SIZE" using assms(1,3) length_mq_send by (simp add: queue_ok_def)
  show "stat_inv (unat (NUM_MINERS cfg)) (stats t)" using assms(1,4) by (simp add: queue_ok_def)
  fix x
  assume "x \<in> set (queue t)"
  then have "x = m \<or> x \<in> set (queue s)" using set_mq_send assms(3) by fastforce
  with assms(1,2,5) message_ok_blocks show "message_ok cfg (ledger t) x" by (auto simp: queue_ok_def)
qed

lemma queue_ok_step:
  assumes "digest_fn sha" and "sane cfg"
  shows "step sha cfg s t \<Longrightarrow> core_ok sha cfg s \<Longrightarrow> queue_ok cfg s \<Longrightarrow> queue_ok cfg t"
proof -
  assume step: "step sha cfg s t" and ok: "core_ok sha cfg s" and q: "queue_ok cfg s"
  have f: "flight_ok sha cfg s" and l: "ledger_ok sha cfg (ledger s)" using ok by (simp_all add: core_ok_def)
  show ?thesis
    using step
  proof (cases rule: step.cases)
    case (reject k msg rest heap b)
    then obtain b0 where "good sha cfg (ledger s) b0" "msg = pipe_message (TRANSACTIONS_PER_BLOCK cfg) b0"
      using f by (auto simp: flight_ok_def)
    with read_good [OF assms(2) this reject(4)] have "good sha cfg (ledger s) b" by simp
    from reject_ok [OF assms(2) this] show ?thesis
      by (rule queue_ok_send [OF q]) (simp_all add: reject(1))
  next
    case (pool_mismatch k b c P)
    then have "good sha cfg (ledger s) b" using f by (auto simp: flight_ok_def)
    from reject_ok [OF assms(2) this] show ?thesis
      by (rule queue_ok_send [OF q]) (simp_all add: pool_mismatch(1))
  next
    case (commit k b L stamp)
    then have g: "good sha cfg (ledger s) b" using f by (auto simp: flight_ok_def)
    have "message_ok cfg (ledger t) (accept_message (TRANSACTIONS_PER_BLOCK cfg) b (last_block_index (ledger s) + 1) stamp)"
      using accept_ok [OF assms l g commit(3)] commit(1) by simp
    then show ?thesis
      by (rule queue_ok_send [OF q]) (use commit_grows [OF assms(1) l g commit(3)] in \<open>simp_all add: commit(1)\<close>)
  next
    case (count m q st)
    then show ?thesis using \<open>queue_ok cfg s\<close> stat_inv_message by (auto simp: queue_ok_def)
  qed (use q in \<open>simp_all add: queue_ok_def\<close>)
qed

lemma queue_ok_reachable:
  "reachable sha cfg s \<Longrightarrow> digest_fn sha \<Longrightarrow> sane cfg \<Longrightarrow> queue_ok cfg s"
proof (induction rule: reachable.induct)
  case (start s)
  then show ?case using stat_inv_init [of cfg] by (simp add: initial_def queue_ok_def)
next
  case (continue s t)
  then show ?case using queue_ok_step core_ok_reachable by blast
qed

section \<open>Runs\<close>

definition steps :: "(bytes \<Rightarrow> bytes) \<Rightarrow> Config \<Rightarrow> System \<Rightarrow> System \<Rightarrow> bool" where
  "steps sha cfg s t \<longleftrightarrow> (step sha cfg)\<^sup>*\<^sup>* s t"

lemma steps_refl: "steps sha cfg s s"
  by (simp add: steps_def)

lemma steps_step: "steps sha cfg s t \<Longrightarrow> step sha cfg t u \<Longrightarrow> steps sha cfg s u"
  unfolding steps_def by (rule rtranclp.rtrancl_into_rtrancl)

lemma steps_reachable: "steps sha cfg s t \<Longrightarrow> reachable sha cfg s \<Longrightarrow> reachable sha cfg t"
  unfolding steps_def by (induction rule: rtranclp_induct) (blast intro: reachable.continue)+

lemma step_entries:
  assumes "digest_fn sha" and "core_ok sha cfg s" and "step sha cfg s t"
  shows "\<exists>bs. entries (ledger t) = entries (ledger s) @ bs"
  using assms(3)
proof (cases rule: step.cases)
  case (commit k b L stamp)
  then have "good sha cfg (ledger s) b" using assms(2) by (auto simp: core_ok_def flight_ok_def)
  with commit_grows [OF assms(1) _ this commit(3)] assms(2) show ?thesis by (simp add: commit(1) core_ok_def)
qed simp_all

lemma steps_entries:
  assumes "digest_fn sha" and "sane cfg" and "reachable sha cfg s" and "steps sha cfg s t"
  shows "\<exists>bs. entries (ledger t) = entries (ledger s) @ bs"
  using assms(4,3) unfolding steps_def
proof (induction rule: rtranclp_induct)
  case base
  then show ?case by simp
next
  case (step t u)
  have "reachable sha cfg t" using step.hyps(1) step.prems steps_reachable by (simp add: steps_def)
  then have "core_ok sha cfg t" using core_ok_reachable assms(1,2) by blast
  from step_entries [OF assms(1) this step.hyps(2)] step.IH [OF step.prems] show ?case by force
qed

text \<open>A copy of a pending transaction is found in the pool, if its value is a number.\<close>

lemma selected_matches:
  assumes "pool_inv P" and "distinct_ids P" and "\<And>p. p \<in># pending P \<Longrightarrow> \<not> f32_is_nan (tx_value (tx p))"
    and "\<forall>t\<in>set ts. \<exists>p\<in>set (slots P). selectable p \<and> t = copy_selected (tx p)"
  shows "check_txs ts P = Match"
  unfolding check_txs_Match
proof
  fix t
  assume "t \<in> set ts"
  then obtain p where p: "p \<in> set (slots P)" "selectable p" "t = copy_selected (tx p)" using assms(4) by blast
  have "terminated TX_ID_LEN (tx_id (tx p))" using assms(1) p(1) by (simp add: pool_inv_def slot_ok_def)
  then have "length (c_str (tx_id (tx p))) \<le> TX_ID_LEN" using terminated_c_str by (simp add: less_imp_le)
  moreover have occ: "occupied p" using p(2) by (simp add: selectable_def occupied_def)
  moreover have "p \<in># pending P" using p(1) occ by (simp add: pending_def)
  ultimately have "txCompare (Some t) (Some (tx p))"
    using assms(3) [of p] by (simp add: txCompare_def p(3) copy_selected_def strcmp_eq_strncpy_n f32_eq_def)
  then show "check_tx t P = Match" using p(1) occ check_tx_Match [OF assms(1,2)] by blast
qed

text \<open>An undisturbed block: from the selection to the end of the critical section on the pool.\<close>

lemma undisturbed_to_pool:
  assumes "digest_fn sha" and "sane cfg" and "reachable sha cfg s"
    and "i < unat (NUM_MINERS cfg)" and "miners s i = Idle" and "validators s k = Waiting" and "pipe s = []"
    and "select_transactions True rnds (TRANSACTIONS_PER_BLOCK cfg) (pool s) = Selected ts"
    and "get_previous_hash (BLOCKCHAIN_BLOCKS cfg) (ledger s) = Some prev"
    and "mine_loop sha (TRANSACTIONS_PER_BLOCK cfg) clocks (build_block (thread_number i) (block_numbers s i) prev ts) = Some b"
  shows "\<exists>t. steps sha cfg s t \<and> validators t k = PoolDone b \<and> ledger t = ledger s \<and> queue t = queue s"
proof -
  let ?tpb = "TRANSACTIONS_PER_BLOCK cfg"
  let ?b0 = "build_block (thread_number i) (block_numbers s i) prev ts"
  have ok: "core_ok sha cfg s" using core_ok_reachable assms(1-3) by blast
  then have inv: "pool_inv (pool s)" "distinct_ids (pool s)"
    and nan: "\<And>p. p \<in># pending (pool s) \<Longrightarrow> \<not> f32_is_nan (tx_value (tx p))" and l: "ledger_ok sha cfg (ledger s)"
    by (simp_all add: core_ok_def pool_ok_def was_generated_def)
  have tpb: "0 < unat ?tpb" "unat ?tpb < 2147483648" using assms(2) by (simp_all add: sane_def)
  note from_pool = Selected_from_pool [OF inv(1) tpb assms(8)]
  obtain c n where b: "b = ?b0\<lparr>blk_timestamp := c, nonce := n\<rparr>" and v: "verify_nonce sha ?tpb b"
    using mine_loop_Some [OF assms(10)] by blast
  have "draft sha cfg (ledger s) ?b0"
    by (rule draft_build_block [OF assms(1) l assms(4,9)])
       (use from_pool Selected_padded [OF inv(1) tpb assms(8)] in simp_all)
  then have g: "good sha cfg (ledger s) b" using v draft_fields unfolding b good_def by blast
  define s1 where "s1 = s\<lparr>miners := (miners s)(i := HasTransactions ts)\<rparr>"
  define s2 where "s2 = s1\<lparr>miners := (miners s1)(i := Mining ?b0), block_numbers := (block_numbers s1)(i := block_numbers s1 i + 1)\<rparr>"
  define s3 where "s3 = s2\<lparr>miners := (miners s2)(i := Idle), pipe := pipe s2 @ [pipe_message ?tpb b]\<rparr>"
  define s4 where "s4 = s3\<lparr>pipe := [], validators := (validators s3)(k := Prechecked b)\<rparr>"
  have 1: "step sha cfg s s1" unfolding s1_def by (rule step.select [OF assms(4,5,8)])
  have 2: "step sha cfg s1 s2"
    using step.previous_hash [OF assms(4), of s1 ts prev sha] assms(9) by (simp add: s2_def s1_def)
  have 3: "step sha cfg s2 s3"
    unfolding s3_def by (rule step.write_block [OF assms(4) _ assms(10)]) (simp add: s2_def)
  have "block_sized ?tpb b" using g by (simp add: good_def draft_def block_padded_sized)
  then have read: "read_block ?tpb [] (pipe_message ?tpb b) = Inr b"
    using tpb by (intro read_block_message) simp_all
  have "ledger_inv sha ?tpb (ledger s)" using l by (simp add: ledger_ok_def)
  note chain = ledger_inv_chain [OF this]
  have pad: "padded HASH_SIZE (last_block_hash (ledger s))"
    using chain padded_compute_sha256 [OF digest_fnD [OF assms(1)]] by simp
  have "prev = strncpy_n HASH_SIZE (last_block_hash (ledger s))"
    using assms(9) by (simp add: get_previous_hash_def split: if_splits)
  then have "previous_block_hash b = last_block_hash (ledger s)"
    by (simp add: b build_block_def strncpy_n_padded [OF pad])
  then have pre: "prechecks sha ?tpb b (ledger s)" using v by (simp add: prechecks_def strncmp_eq_def)
  have 4: "step sha cfg s3 s4"
    unfolding s4_def by (rule step.precheck [where msg = "pipe_message ?tpb b" and heap = "[]"])
      (use read pre assms(6,7) in \<open>simp_all add: s3_def s2_def s1_def\<close>)
  have "transactions b = ts" by (simp add: b build_block_def)
  moreover have "check_txs ts (pool s) = Match" using selected_matches [OF inv nan] from_pool by blast
  ultimately obtain P where P: "pool_phase ?tpb b (pool s) = (Match, P)"
    using from_pool by (simp add: pool_phase_def Let_def)
  define s5 where "s5 = s4\<lparr>pool := P, validators := (validators s4)(k := PoolDone b)\<rparr>"
  have 5: "step sha cfg s4 s5"
    unfolding s5_def by (rule step.pool_match) (use P in \<open>simp_all add: s4_def s3_def s2_def s1_def\<close>)
  note steps_refl [THEN steps_step, OF 1, THEN steps_step, OF 2, THEN steps_step, OF 3, THEN steps_step, OF 4,
      THEN steps_step, OF 5]
  moreover have "validators s5 k = PoolDone b" "ledger s5 = ledger s" "queue s5 = queue s"
    by (simp_all add: s5_def s4_def s3_def s2_def s1_def)
  ultimately show ?thesis by blast
qed

end
