(* ===== verification/WholeSystem.thy ===== *)
theory WholeSystem
  imports Simulation
begin

text \<open>
  What holds in every interleaving of the processes of \<open>Simulation\<close>: consistency of the shared
  memory, no transaction in two blocks, no write outside the ledger or the statistics, a chain that
  only grows, the progress of an undisturbed block from the pool to the ledger, and the loss of
  transactions with a validator that is ended.
\<close>

section \<open>Every transaction is spent at most once\<close>

definition block_ids :: "TransactionBlock \<Rightarrow> bytes set" where
  "block_ids b = id_of ` set (transactions b)"

definition pending_ids :: "TransactionPool \<Rightarrow> bytes set" where
  "pending_ids P = (\<lambda>p. id_of (tx p)) ` set_mset (pending P)"

definition issued :: "System \<Rightarrow> bytes set" where
  "issued s = {tx_id_text pid n | pid n. unat n < unat (tx_number (generators s pid))}"

text \<open>Who has taken identifiers out of the pool: the blocks of the chain, and the validators between
  their critical sections on the pool and on the ledger.\<close>

fun held_ids :: "ValidatorState \<Rightarrow> bytes set" where
  "held_ids (PoolDone b) = block_ids b"
| "held_ids _ = {}"

definition taken :: "System \<Rightarrow> nat + nat \<Rightarrow> bytes set" where
  "taken s x =
     (case x of
        Inl i \<Rightarrow> if i < length (entries (ledger s)) then block_ids (entries (ledger s) ! i) else {}
      | Inr k \<Rightarrow> held_ids (validators s k))"

definition spend_ok :: "System \<Rightarrow> bool" where
  "spend_ok s \<longleftrightarrow>
     (\<forall>x y. x \<noteq> y \<longrightarrow> taken s x \<inter> taken s y = {}) \<and>
     (\<forall>x. taken s x \<inter> pending_ids (pool s) = {}) \<and>
     (\<forall>x. taken s x \<subseteq> insert [] (issued s))"

lemma spend_ok_moved:
  assumes "spend_ok s" and "\<And>x. taken t x \<subseteq> taken s (f x)" and "inj f"
    and "pending_ids (pool t) \<subseteq> pending_ids (pool s)" and "issued s \<subseteq> issued t"
  shows "spend_ok t"
proof -
  have "taken t x \<inter> taken t y = {}" if "x \<noteq> y" for x y
  proof -
    have "f x \<noteq> f y" using that assms(3) by (simp add: inj_eq)
    then have "taken s (f x) \<inter> taken s (f y) = {}" using assms(1) by (simp add: spend_ok_def)
    with assms(2) [of x] assms(2) [of y] show ?thesis by blast
  qed
  moreover have "taken t x \<inter> pending_ids (pool t) = {}" "taken t x \<subseteq> insert [] (issued t)" for x
    using assms(1) assms(2) [of x] assms(4,5) unfolding spend_ok_def by blast+
  ultimately show ?thesis unfolding spend_ok_def by blast
qed

lemma spend_ok_frame:
  assumes "spend_ok s" and "pool t = pool s" and "ledger t = ledger s" and "generators t = generators s"
    and "\<And>k b. validators t k = PoolDone b \<Longrightarrow> validators s k = PoolDone b"
  shows "spend_ok t"
proof (rule spend_ok_moved [OF assms(1), of _ "\<lambda>x. x"])
  have "held_ids (validators t k) \<subseteq> held_ids (validators s k)" for k
    using assms(5) [of k] by (cases "validators t k") simp_all
  then show "taken t x \<subseteq> taken s x" for x
    using assms(3) by (simp add: taken_def split: sum.split)
qed (simp_all add: assms issued_def)

lemma pending_ids_issued:
  assumes "pool_ok cfg s"
  shows "pending_ids (pool s) \<subseteq> issued s"
proof
  fix x
  assume "x \<in> pending_ids (pool s)"
  then obtain p where "p \<in># pending (pool s)" "x = c_str (tx_id (tx p))" by (auto simp: pending_ids_def id_of_def)
  with assms show "x \<in> issued s" by (auto simp: pool_ok_def was_generated_def issued_def)
qed

lemma issued_mono:
  assumes "unat (tx_number (generators s p)) \<le> unat (tx_number g)"
  shows "issued s \<subseteq> issued (s\<lparr>pool := P, generators := (generators s)(p := g)\<rparr>)"
proof
  fix x
  assume "x \<in> issued s"
  then obtain q n where x: "x = tx_id_text q n" and n: "unat n < unat (tx_number (generators s q))"
    by (auto simp: issued_def)
  then have "unat n < unat (tx_number (((generators s)(p := g)) q))" using assms by (cases "q = p") simp_all
  with x show "x \<in> issued (s\<lparr>pool := P, generators := (generators s)(p := g)\<rparr>)"
    unfolding issued_def by (simp del: fun_upd_apply) blast
qed

text \<open>A generated transaction is new.\<close>

lemma new_id: "tx_id_text pid (tx_number (generators s pid)) \<notin> insert [] (issued s)"
proof -
  have "tx_id_text pid (tx_number (generators s pid)) \<notin> issued s" using tx_id_text_inj by (fastforce simp: issued_def)
  then show ?thesis by (simp add: tx_id_text_def)
qed

lemma generate_ids:
  assumes "pool_inv P" and "length (env_stack env) = TX_ID_LEN"
    and "txgen_iteration env r nm tpb g P = Some (g', P', posts)"
  shows "pending_ids P' = pending_ids P \<and> tx_number g' = tx_number g \<or>
    pending_ids P' = insert (tx_id_text (env_pid env) (tx_number g)) (pending_ids P) \<and> tx_number g' = tx_number g + 1"
  using assms
proof (cases rule: txgen_iteration_cases)
  case unchanged
  then show ?thesis by simp
next
  case extended
  then show ?thesis using generated_id(1) [OF assms(2)] by (simp add: pending_ids_def id_of_def)
qed

lemma spend_ok_generate:
  assumes "spend_ok s" and "pool_ok cfg s" and "length (env_stack env) = TX_ID_LEN"
    and "unat (tx_number (generators s (env_pid env))) + 1 < 2 ^ 32"
    and "txgen_iteration env r nm tpb (generators s (env_pid env)) (pool s) = Some (g, P, posts)"
  shows "spend_ok (s\<lparr>pool := P, generators := (generators s)(env_pid env := g)\<rparr>)"
proof -
  let ?n = "tx_number (generators s (env_pid env))"
  let ?i = "tx_id_text (env_pid env) ?n"
  let ?t = "s\<lparr>pool := P, generators := (generators s)(env_pid env := g)\<rparr>"
  have inv: "pool_inv (pool s)" using assms(2) by (simp add: pool_ok_def)
  have taken: "taken ?t x = taken s x" for x by (simp add: taken_def split: sum.split)
  note ids = generate_ids [OF inv assms(3,5)]
  then have "unat ?n \<le> unat (tx_number g)" using assms(4) by (auto simp: unat_add_1)
  then have "issued s \<subseteq> issued ?t" by (rule issued_mono)
  then have "taken s y \<subseteq> insert [] (issued ?t)" for y using assms(1) unfolding spend_ok_def by blast
  moreover have "?i \<notin> taken s y" for y using new_id [of "env_pid env" s] assms(1) unfolding spend_ok_def by blast
  then have "taken s y \<inter> pending_ids P = {}" for y
    using ids assms(1) unfolding spend_ok_def by (elim disjE) auto
  ultimately show ?thesis using assms(1) unfolding spend_ok_def taken by simp
qed

text \<open>A validator takes the transactions of its block out of the pool.\<close>

lemma pool_phase_ids:
  assumes "pool_inv P" and "distinct_ids P" and "length (transactions b) = unat tpb"
    and "pool_phase tpb b P = (Match, P')"
  shows "block_ids b \<subseteq> pending_ids P" and "pending_ids P' = pending_ids P - block_ids b"
proof -
  have ts: "take (unat tpb) (transactions b) = transactions b" using assms(3) by simp
  have match: "check_txs (transactions b) P = Match"
    using pool_phase_check [OF assms(4)] ts by metis
  show "block_ids b \<subseteq> pending_ids P"
  proof
    fix x
    assume "x \<in> block_ids b"
    then obtain t where t: "t \<in> set (transactions b)" and x: "x = id_of t" by (auto simp: block_ids_def)
    then have "check_tx t P = Match" using match by (simp add: check_txs_Match)
    then obtain p where "p \<in> set (slots P)" "occupied p" "strcmp_eq (tx_id t) (tx_id (tx p))"
      using check_tx_Match [OF assms(1,2)] by (auto simp: txCompare_def)
    with x show "x \<in> pending_ids P"
      by (auto simp: pending_ids_def pending_def id_of_def strcmp_eq_def intro!: image_eqI [where x = p])
  qed
  have "(\<exists>t\<in>set (transactions b). has_id_of p t) \<longleftrightarrow> id_of (tx p) \<in> block_ids b" for p
    unfolding has_id_of_def strcmp_eq_def block_ids_def id_of_def image_iff
    by (intro bex_cong refl) (rule eq_commute)
  then have "pending P' = image_mset age_slot (filter_mset (\<lambda>p. id_of (tx p) \<notin> block_ids b) (pending P))"
    using pool_phase_pending [OF assms(1,2,4)] by (simp add: ts)
  then have "pending_ids P' = (\<lambda>p. id_of (tx p)) ` {p. p \<in># pending P \<and> id_of (tx p) \<notin> block_ids b}"
    by (simp add: pending_ids_def image_image id_of_def)
  then show "pending_ids P' = pending_ids P - block_ids b"
    by (auto simp: pending_ids_def)
qed

lemma spend_ok_match:
  assumes "spend_ok s" and "pool_ok cfg s" and "length (transactions b) = unat tpb"
    and "pool_phase tpb b (pool s) = (Match, P)" and "\<And>c. validators s k \<noteq> PoolDone c"
  shows "spend_ok (s\<lparr>pool := P, validators := (validators s)(k := PoolDone b)\<rparr>)"
proof -
  let ?t = "s\<lparr>pool := P, validators := (validators s)(k := PoolDone b)\<rparr>"
  have inv: "pool_inv (pool s)" "distinct_ids (pool s)" using assms(2) by (simp_all add: pool_ok_def)
  note ids = pool_phase_ids [OF inv assms(3,4)]
  have other: "taken ?t x = taken s x" if "x \<noteq> Inr k" for x using that by (simp add: taken_def split: sum.split)
  have mine: "taken ?t (Inr k) = block_ids b" by (simp add: taken_def)
  have issued: "issued ?t = issued s" by (simp add: issued_def)
  have apart: "taken s x \<inter> block_ids b = {}" for x using assms(1) ids(1) unfolding spend_ok_def by blast
  have "taken ?t x \<inter> taken ?t y = {}" if "x \<noteq> y" for x y
  proof (cases "x = Inr k \<or> y = Inr k")
    case True
    with that show ?thesis using apart [of x] apart [of y] other [of x] other [of y] mine by (elim disjE) auto
  next
    case False
    with that assms(1) show ?thesis using other [of x] other [of y] by (simp add: spend_ok_def)
  qed
  moreover have "taken ?t x \<inter> pending_ids P = {}" for x
    using assms(1) ids(2) other [of x] mine unfolding spend_ok_def by (cases "x = Inr k") auto
  moreover have "taken ?t x \<subseteq> insert [] (issued s)" for x
    using assms(1) ids(1) pending_ids_issued [OF assms(2)] other [of x] mine
    unfolding spend_ok_def by (cases "x = Inr k") auto
  ultimately show ?thesis unfolding spend_ok_def by (simp add: issued)
qed

text \<open>An insertion hands the identifiers of a validator over to the chain.\<close>

lemma spend_ok_commit:
  assumes "spend_ok s" and "validators s k = PoolDone b" and "entries L = entries (ledger s) @ [b]"
    and "pool t = pool s" and "generators t = generators s" and "ledger t = L"
    and "validators t = (validators s)(k := Waiting)"
  shows "spend_ok t"
proof -
  let ?n = "length (entries (ledger s))"
  define f where "f x = (if x = Inl ?n then Inr k else if x = Inr k then Inl ?n else x)" for x :: "nat + nat"
  have "inj f" by (rule injI) (simp add: f_def split: if_splits)
  have "taken t x \<subseteq> taken s (f x)" for x
    using assms(2,3,6,7)
    by (cases x) (auto simp: taken_def f_def nth_append less_Suc_eq split: if_splits)
  then show ?thesis
    by (rule spend_ok_moved [OF assms(1) _ \<open>inj f\<close>]) (simp_all add: assms issued_def)
qed

lemma spend_ok_step:
  assumes "digest_fn sha" and "step sha cfg s t" and "core_ok sha cfg s" and "spend_ok s"
  shows "spend_ok t"
  using assms(2)
proof (cases rule: step.cases)
  case (generate env r pid g P posts)
  have "pool_ok cfg s" using assms(3) by (simp add: core_ok_def)
  with generate spend_ok_generate [OF assms(4)] show ?thesis by blast
next
  case (pool_match k b P)
  then have "length (transactions b) = unat (TRANSACTIONS_PER_BLOCK cfg)"
    using assms(3) by (auto simp: core_ok_def flight_ok_def good_def draft_def block_padded_def)
  with pool_match assms(3) show ?thesis
    unfolding pool_match(1) by (intro spend_ok_match [OF assms(4), of cfg]) (simp_all add: core_ok_def)
next
  case (commit k b L stamp)
  then have "good sha cfg (ledger s) b" using assms(3) by (auto simp: core_ok_def flight_ok_def)
  with commit_grows [OF assms(1) _ this commit(3)] assms(3) have "entries L = entries (ledger s) @ [b]"
    by (simp add: core_ok_def)
  then show ?thesis by (rule spend_ok_commit [OF assms(4) commit(2)]) (simp_all add: commit(1))
next
  case (lost_race k b)
  then show ?thesis using assms(4) by (auto intro!: spend_ok_frame [of s] split: if_splits)
qed (use assms(4) in \<open>auto intro!: spend_ok_frame [of s] split: if_splits\<close>)

lemma spend_ok_initial:
  assumes "digest_fn sha" and "sane cfg" and "initial sha cfg s"
  shows "spend_ok s"
proof -
  let ?tpb = "TRANSACTIONS_PER_BLOCK cfg"
  have "BLOCKCHAIN_BLOCKS cfg \<noteq> 0" using assms(2) by (auto simp: sane_def)
  with create_origin_inv [OF assms(1)] assms(3)
  obtain n where e: "entries (ledger s) = [with_nonce (nemesis_block ?tpb) n]" by (auto simp: initial_def)
  have "block_ids (with_nonce (nemesis_block ?tpb) n) \<subseteq> {[]}"
    by (auto simp: block_ids_def id_of_def with_nonce_def nemesis_block_def zero_block_def zero_tx_def c_str_replicate)
  then have taken: "taken s x \<subseteq> (if x = Inl 0 then {[]} else {})" for x
    using assms(3) e by (cases x) (auto simp: taken_def initial_def)
  have "pending_ids (pool s) = {}" using assms(3) by (simp add: pending_ids_def initial_def pending_init)
  moreover have "taken s x \<inter> taken s y = {}" if "x \<noteq> y" for x y
    using that taken [of x] taken [of y] by (cases "x = Inl 0") auto
  moreover have "taken s x \<subseteq> insert [] (issued s)" for x
    using taken [of x] by (cases "x = Inl 0") auto
  ultimately show ?thesis unfolding spend_ok_def by blast
qed

lemma spend_ok_reachable:
  "reachable sha cfg s \<Longrightarrow> digest_fn sha \<Longrightarrow> sane cfg \<Longrightarrow> spend_ok s"
proof (induction rule: reachable.induct)
  case (start s)
  then show ?case using spend_ok_initial by blast
next
  case (continue s t)
  then show ?case using spend_ok_step core_ok_reachable by blast
qed

section \<open>Consequences for a reachable state\<close>

lemma entries_counted:
  assumes "ledger_inv sha tpb L"
  shows "length (entries L) = unat (ledger_count L)" and "unat (ledger_count L) \<le> unat (num_blocks L)"
proof -
  have "unat (last_block_index L) < length (blocks L)" "length (blocks L) = unat (num_blocks L)"
    "unat (ledger_count L) = Suc (unat (last_block_index L))"
    using assms by (simp_all add: ledger_inv_def)
  then show "length (entries L) = unat (ledger_count L)" "unat (ledger_count L) \<le> unat (num_blocks L)"
    by (simp_all only: length_entries Suc_leI)
qed

text \<open>A block in the hands of a validator names a block of the chain that is not the last possible one.
  If it continued the tip of a full chain, two places of the chain would have the same hash.\<close>

lemma no_overrun_or_collision:
  assumes "digest_fn sha" and "core_ok sha cfg s" and "validators s k = PoolDone b"
    and "commit_block sha (TRANSACTIONS_PER_BLOCK cfg) b (ledger s) = OutOfBounds"
  shows "\<exists>x\<in>set (entries (ledger s)). \<exists>y\<in>set (entries (ledger s)).
    serialize_block (TRANSACTIONS_PER_BLOCK cfg) x \<noteq> serialize_block (TRANSACTIONS_PER_BLOCK cfg) y \<and>
    sha (serialize_block (TRANSACTIONS_PER_BLOCK cfg) x) = sha (serialize_block (TRANSACTIONS_PER_BLOCK cfg) y)"
proof -
  let ?tpb = "TRANSACTIONS_PER_BLOCK cfg" and ?L = "ledger s"
  let ?hash = "compute_sha256 sha ?tpb"
  have l: "ledger_inv sha ?tpb ?L" "num_blocks ?L = BLOCKCHAIN_BLOCKS cfg"
    using assms(2) by (simp_all add: core_ok_def ledger_ok_def)
  have g: "good sha cfg ?L b" using assms(2,3) by (auto simp: core_ok_def flight_ok_def)
  then have b: "block_padded ?tpb b" "verify_nonce sha ?tpb b" by (simp_all add: good_def draft_def)
  obtain i where i: "Suc i < unat (BLOCKCHAIN_BLOCKS cfg)" "previous_block_hash b = ?hash (entries ?L ! i)"
    using g by (auto simp: good_def draft_def)
  have full: "previous_block_hash b = last_block_hash ?L" "ledger_count ?L = num_blocks ?L"
    by (rule commit_block_cases [OF l(1) b digest_fnD [OF assms(1)]]; use assms(4) in simp)+
  have len: "length (entries ?L) = unat (BLOCKCHAIN_BLOCKS cfg)"
    using l full(2) by (simp add: ledger_inv_def length_entries)
  then have "?hash (entries ?L ! i) = ?hash (entries ?L ! (length (entries ?L) - 1))"
    using i full(1) ledger_inv_chain [OF l(1)] by (simp add: last_conv_nth)
  moreover have "i < length (entries ?L) - 1" "length (entries ?L) - 1 < length (entries ?L)" using i(1) len by auto
  ultimately obtain x y where xy: "x \<in> set (entries ?L)" "y \<in> set (entries ?L)" "x \<noteq> y" "?hash x = ?hash y"
    using chain.chain_repeat [OF conjI [OF assms(1) l(1)]] by blast
  then have "block_sized ?tpb x" "block_sized ?tpb y" using l(1) by (auto simp: ledger_inv_def block_padded_sized)
  then have "serialize_block ?tpb x \<noteq> serialize_block ?tpb y" using serialize_block_inj xy(3) by blast
  moreover have "sha (serialize_block ?tpb x) = sha (serialize_block ?tpb y)"
    using compute_sha256_digest [OF digest_fnD [OF assms(1)] xy(4)] .
  ultimately show ?thesis using xy(1,2) by blast
qed

text \<open>The next message of the queue is always counted.\<close>

lemma message_counted:
  assumes "queue_ok cfg s" and "queue s = m # q"
  shows "\<exists>st. process_message (TRANSACTIONS_PER_BLOCK cfg) (ledger s) m (stats s) = Updated st"
proof -
  let ?n = "unat (NUM_MINERS cfg)"
  have m: "message_ok cfg (ledger s) m" and "stat_inv ?n (stats s)" using assms by (simp_all add: queue_ok_def)
  then have "length (miner_valid_blocks (stats s)) = ?n" "length (miner_invalid_blocks (stats s)) = ?n"
    by (simp_all add: stat_inv_def)
  moreover obtain i where "miner_index m ?n = Some i" using m by (auto simp: message_ok_def)
  ultimately show ?thesis using m by (auto simp: process_message_def message_ok_def)
qed

lemma undisturbed_to_ledger:
  assumes "digest_fn sha" and "sane cfg" and "reachable sha cfg s"
    and "i < unat (NUM_MINERS cfg)" and "miners s i = Idle" and "validators s k = Waiting" and "pipe s = []"
    and "select_transactions True rnds (TRANSACTIONS_PER_BLOCK cfg) (pool s) = Selected ts"
    and "get_previous_hash (BLOCKCHAIN_BLOCKS cfg) (ledger s) = Some prev"
    and "mine_loop sha (TRANSACTIONS_PER_BLOCK cfg) clocks (build_block (thread_number i) (block_numbers s i) prev ts) = Some b"
  shows "\<exists>t m. steps sha cfg s t \<and> entries (ledger t) = entries (ledger s) @ [b] \<and> transactions b = ts
    \<and> queue t = mq_send m (queue s)"
proof -
  let ?tpb = "TRANSACTIONS_PER_BLOCK cfg"
  obtain t where t: "steps sha cfg s t" "validators t k = PoolDone b" "ledger t = ledger s" "queue t = queue s"
    using undisturbed_to_pool [OF assms] by blast
  have ok: "core_ok sha cfg t" using core_ok_reachable [OF steps_reachable [OF t(1) assms(3)] assms(1,2)] .
  then have l: "ledger_inv sha ?tpb (ledger t)" "num_blocks (ledger t) = BLOCKCHAIN_BLOCKS cfg"
    and g: "good sha cfg (ledger t) b"
    using t(2) by (auto simp: core_ok_def ledger_ok_def flight_ok_def)
  obtain c n where b: "b = (build_block (thread_number i) (block_numbers s i) prev ts)\<lparr>blk_timestamp := c, nonce := n\<rparr>"
    using mine_loop_Some [OF assms(10)] by blast
  note chain = ledger_inv_chain [OF l(1)]
  have "padded HASH_SIZE (last_block_hash (ledger t))"
    using chain padded_compute_sha256 [OF digest_fnD [OF assms(1)]] by simp
  then have prev: "previous_block_hash b = last_block_hash (ledger t)"
    and room: "ledger_count (ledger t) \<noteq> num_blocks (ledger t)"
    using assms(9) l(2) by (auto simp: b build_block_def get_previous_hash_def t(3) strncpy_n_padded split: if_splits)
  have pv: "block_padded ?tpb b" "verify_nonce sha ?tpb b" using g by (simp_all add: good_def draft_def)
  obtain L where L: "commit_block sha ?tpb b (ledger t) = Committed L" "entries L = entries (ledger t) @ [b]"
    by (rule commit_block_cases [OF l(1) pv digest_fnD [OF assms(1)]]) (use prev room in auto)
  define u where "u = t\<lparr>ledger := L, validators := (validators t)(k := Waiting),
    queue := mq_send (accept_message ?tpb b (last_block_index (ledger t) + 1) 0) (queue t)\<rparr>"
  have "steps sha cfg s u"
    using steps_step [OF t(1)] step.commit [OF t(2) L(1), where stamp = 0] by (simp add: u_def)
  moreover have "entries (ledger u) = entries (ledger s) @ [b]" using L(2) t(3) by (simp add: u_def)
  moreover have "queue u = mq_send (accept_message ?tpb b (last_block_index (ledger t) + 1) 0) (queue s)"
    by (simp add: u_def t(4))
  moreover have "transactions b = ts" by (simp add: b build_block_def)
  ultimately show ?thesis by blast
qed

section \<open>The abstract protocol\<close>

text \<open>What the processes do to transactions, without their representation: identifiers wait in the
  pool, are held by a validator, and are spent by a block of the chain. They arrive once, are taken
  out of the pool together, and are appended or dropped.\<close>

record Spec =
  waiting :: "bytes set"
  held :: "nat \<Rightarrow> bytes set"
  spent :: "bytes set list"

inductive spec_step :: "Spec \<Rightarrow> Spec \<Rightarrow> bool" where
  arrive:
    "x \<notin> waiting S \<Longrightarrow> \<forall>k. x \<notin> held S k \<Longrightarrow> \<forall>X\<in>set (spent S). x \<notin> X \<Longrightarrow>
     spec_step S (S\<lparr>waiting := insert x (waiting S)\<rparr>)"
| take_out:
    "held S k = {} \<Longrightarrow> X \<subseteq> waiting S \<Longrightarrow>
     spec_step S (S\<lparr>waiting := waiting S - X, held := (held S)(k := X)\<rparr>)"
| append:
    "spec_step S (S\<lparr>spent := spent S @ [held S k], held := (held S)(k := {})\<rparr>)"
| drop_block:
    "spec_step S (S\<lparr>held := (held S)(k := {})\<rparr>)"

definition abs_system :: "System \<Rightarrow> Spec" where
  "abs_system s =
     \<lparr>waiting = pending_ids (pool s),
      held = (\<lambda>k. held_ids (validators s k)),
      spent = map block_ids (entries (ledger s))\<rparr>"

lemma abs_held: "held (abs_system s) k = taken s (Inr k)"
  by (simp add: abs_system_def taken_def)

lemma abs_spent: "X \<in> set (spent (abs_system s)) \<Longrightarrow> \<exists>i. X = taken s (Inl i)"
  by (fastforce simp: abs_system_def taken_def in_set_conv_nth)

lemma held_update: "(\<lambda>j. held_ids ((f(k := v)) j)) = (\<lambda>j. held_ids (f j))(k := held_ids v)"
  by (rule ext) simp

lemma abs_same:
  "pool t = pool s \<Longrightarrow> ledger t = ledger s \<Longrightarrow>
   (\<And>k. taken t (Inr k) = taken s (Inr k)) \<Longrightarrow> abs_system t = abs_system s"
  by (simp add: abs_system_def taken_def)

lemma spec_simulates:
  assumes "digest_fn sha" and "core_ok sha cfg s" and "spend_ok s" and "step sha cfg s t"
  shows "abs_system t = abs_system s \<or> spec_step (abs_system s) (abs_system t)"
  using assms(4)
proof (cases rule: step.cases)
  case (generate env r pid g P posts)
  let ?i = "tx_id_text pid (tx_number (generators s pid))"
  have p: "pool_ok cfg s" using assms(2) by (simp add: core_ok_def)
  then have "pool_inv (pool s)" by (simp add: pool_ok_def)
  with generate generate_ids consider "pending_ids P = pending_ids (pool s)" | "pending_ids P = insert ?i (pending_ids (pool s))"
    by blast
  then show ?thesis
  proof cases
    case 1
    then show ?thesis by (simp add: generate(1) abs_system_def)
  next
    case 2
    have new: "?i \<notin> insert [] (issued s)" by (rule new_id)
    then have "?i \<notin> waiting (abs_system s)" using pending_ids_issued [OF p] by (auto simp: abs_system_def)
    moreover have "?i \<notin> taken s x" for x using new assms(3) unfolding spend_ok_def by blast
    then have "\<forall>k. ?i \<notin> held (abs_system s) k" "\<forall>X\<in>set (spent (abs_system s)). ?i \<notin> X"
      using abs_held abs_spent by blast+
    ultimately have "spec_step (abs_system s) ((abs_system s)\<lparr>waiting := insert ?i (waiting (abs_system s))\<rparr>)"
      by (rule spec_step.arrive)
    then show ?thesis using 2 by (simp add: generate(1) abs_system_def)
  qed
next
  case (pool_match k b P)
  have p: "pool_inv (pool s)" "distinct_ids (pool s)" using assms(2) by (simp_all add: core_ok_def pool_ok_def)
  have "length (transactions b) = unat (TRANSACTIONS_PER_BLOCK cfg)"
    using pool_match(2) assms(2) by (auto simp: core_ok_def flight_ok_def good_def draft_def block_padded_def)
  note ids = pool_phase_ids [OF p this pool_match(3)]
  have "spec_step (abs_system s) ((abs_system s)\<lparr>waiting := waiting (abs_system s) - block_ids b,
      held := (held (abs_system s))(k := block_ids b)\<rparr>)"
    by (rule spec_step.take_out) (use ids(1) pool_match(2) in \<open>simp_all add: abs_system_def\<close>)
  then show ?thesis by (simp add: pool_match(1) abs_system_def ids(2) held_update del: fun_upd_apply)
next
  case (commit k b L stamp)
  then have "good sha cfg (ledger s) b" using assms(2) by (auto simp: core_ok_def flight_ok_def)
  with commit_grows [OF assms(1) _ this commit(3)] assms(2) have "entries L = entries (ledger s) @ [b]"
    by (simp add: core_ok_def)
  with spec_step.append [of "abs_system s" k] show ?thesis
    by (simp add: commit(1,2) abs_system_def held_update del: fun_upd_apply)
next
  case (lost_race k b)
  with spec_step.drop_block [of "abs_system s" k] show ?thesis
    by (simp add: abs_system_def held_update del: fun_upd_apply)
next
  case (terminate_validator k)
  with spec_step.drop_block [of "abs_system s" k] show ?thesis
    by (simp add: abs_system_def held_update del: fun_upd_apply)
next
  case (precheck k msg rest heap b)
  then show ?thesis by (intro disjI1 abs_same) (simp_all add: taken_def)
next
  case (pool_mismatch k b c P)
  then show ?thesis by (intro disjI1 abs_same) (simp_all add: taken_def)
qed (simp_all add: abs_system_def)

section \<open>Lost transactions\<close>

text \<open>The identifiers that are pending, held or spent. A step adds none that was issued before.\<close>

definition known :: "System \<Rightarrow> bytes set" where
  "known s = pending_ids (pool s) \<union> (\<Union>x. taken s x)"

lemma known_frame:
  assumes "pool t = pool s" and "ledger t = ledger s" and "generators t = generators s"
    and "\<And>k b. validators t k = PoolDone b \<Longrightarrow> validators s k = PoolDone b"
  shows "known t \<inter> issued s \<subseteq> known s \<and> issued s \<subseteq> issued t"
proof -
  have "held_ids (validators t k) \<subseteq> held_ids (validators s k)" for k
    using assms(4) [of k] by (cases "validators t k") simp_all
  then have "taken t x \<subseteq> taken s x" for x using assms(2) by (simp add: taken_def split: sum.split)
  then show ?thesis using assms(1,3) by (auto simp: known_def issued_def)
qed

lemma step_known:
  assumes "digest_fn sha" and "core_ok sha cfg s" and "step sha cfg s t"
  shows "known t \<inter> issued s \<subseteq> known s \<and> issued s \<subseteq> issued t"
  using assms(3)
proof (cases rule: step.cases)
  case (generate env r pid g P posts)
  have inv: "pool_inv (pool s)" using assms(2) by (simp add: core_ok_def pool_ok_def)
  have taken: "taken t x = taken s x" for x by (simp add: generate(1) taken_def split: sum.split)
  note ids = generate_ids [OF inv generate(4,2)]
  then have "unat (tx_number (generators s pid)) \<le> unat (tx_number g)"
    using generate(3,5) by (auto simp: unat_add_1)
  then have "issued s \<subseteq> issued t" unfolding generate(1) by (rule issued_mono)
  moreover have "known t \<inter> issued s \<subseteq> known s"
    using ids new_id [of pid s] generate(3) unfolding known_def taken by (auto simp: generate(1))
  ultimately show ?thesis by blast
next
  case (pool_match k b P)
  have p: "pool_inv (pool s)" "distinct_ids (pool s)" using assms(2) by (simp_all add: core_ok_def pool_ok_def)
  have "length (transactions b) = unat (TRANSACTIONS_PER_BLOCK cfg)"
    using pool_match(2) assms(2) by (auto simp: core_ok_def flight_ok_def good_def draft_def block_padded_def)
  note ids = pool_phase_ids [OF p this pool_match(3)]
  have "taken t x \<subseteq> taken s x \<union> pending_ids (pool s)" for x
    using ids(1) by (cases x) (auto simp: pool_match(1) taken_def)
  then show ?thesis using ids(2) by (auto simp: known_def pool_match(1) issued_def)
next
  case (commit k b L stamp)
  then have "good sha cfg (ledger s) b" using assms(2) by (auto simp: core_ok_def flight_ok_def)
  with commit_grows [OF assms(1) _ this commit(3)] assms(2) have L: "entries L = entries (ledger s) @ [b]"
    by (simp add: core_ok_def)
  have "block_ids b = taken s (Inr k)" using commit(2) by (simp add: taken_def)
  then have "taken t x \<subseteq> (\<Union>y. taken s y)" for x
  proof (cases x)
    case (Inl i)
    show ?thesis
    proof (cases "i < length (entries (ledger s))")
      case True
      then have "taken t x = taken s (Inl i)" by (simp add: Inl commit(1) taken_def L nth_append)
      then show ?thesis by blast
    next
      case False
      then have "taken t x \<subseteq> taken s (Inr k)" using \<open>block_ids b = _\<close> by (auto simp: Inl commit(1) taken_def L nth_append)
      then show ?thesis by blast
    qed
  next
    case (Inr j)
    then have "taken t x \<subseteq> taken s (Inr j)" by (simp add: commit(1) taken_def)
    then show ?thesis by blast
  qed
  then show ?thesis by (auto simp: known_def commit(1) issued_def)
qed (rule known_frame; auto split: if_splits)+

text \<open>What a validator holds was generated.\<close>

lemma held_issued_step:
  assumes "digest_fn sha" and "core_ok sha cfg s" and "step sha cfg s t" and "\<And>k. held_ids (validators s k) \<subseteq> issued s"
  shows "held_ids (validators t k) \<subseteq> issued t"
proof -
  have mono: "issued s \<subseteq> issued t" using step_known [OF assms(1-3)] by blast
  have "held_ids (validators t k) \<subseteq> issued s"
    using assms(3)
  proof (cases rule: step.cases)
    case (pool_match j b P)
    have p: "pool_ok cfg s" using assms(2) by (simp add: core_ok_def)
    then have q: "pool_inv (pool s)" "distinct_ids (pool s)" by (simp_all add: pool_ok_def)
    have "length (transactions b) = unat (TRANSACTIONS_PER_BLOCK cfg)"
      using pool_match(2) assms(2) by (auto simp: core_ok_def flight_ok_def good_def draft_def block_padded_def)
    then have "block_ids b \<subseteq> issued s"
      using pool_phase_ids(1) [OF q _ pool_match(3)] pending_ids_issued [OF p] by blast
    then show ?thesis using assms(4) by (simp add: pool_match(1))
  qed (use assms(4) in simp_all)
  with mono show ?thesis by blast
qed

lemma held_issued:
  "reachable sha cfg s \<Longrightarrow> digest_fn sha \<Longrightarrow> sane cfg \<Longrightarrow> held_ids (validators s k) \<subseteq> issued s"
proof (induction arbitrary: k rule: reachable.induct)
  case (start s)
  then show ?case by (simp add: initial_def)
next
  case (continue s t)
  have "core_ok sha cfg s" by (rule core_ok_reachable [OF continue.hyps(1) continue.prems])
  from held_issued_step [OF continue.prems(1) this continue.hyps(2) continue.IH [OF continue.prems]] show ?case .
qed

lemma lost_forever:
  assumes "digest_fn sha" and "sane cfg" and "reachable sha cfg s" and "steps sha cfg s t"
    and "x \<in> issued s" and "x \<notin> known s"
  shows "x \<in> issued t \<and> x \<notin> known t"
  using assms(4,3,5,6) unfolding steps_def
proof (induction rule: rtranclp_induct)
  case base
  then show ?case by simp
next
  case (step t u)
  have "reachable sha cfg t" using step.hyps(1) step.prems(1) steps_reachable by (simp add: steps_def)
  then have "core_ok sha cfg t" using core_ok_reachable assms(1,2) by blast
  from step_known [OF assms(1) this step.hyps(2)] step.IH [OF step.prems] show ?case by blast
qed

section \<open>A run of the demo configuration\<close>

lemma sane_demo: "sane demo_config"
  by (simp add: sane_def demo_config_def)

lemma demo_initial: "\<exists>s. initial easy_sha demo_config s"
proof -
  from example_origin obtain L where "create_origin easy_sha 1 (init_ledger demo_config) = Some L" ..
  then have "initial easy_sha demo_config
    \<lparr>pool = init_pool demo_config, ledger = L, pipe = [], queue = [], stats = init_statistics demo_config,
     generators = (\<lambda>_. \<lparr>tx_number = 0, generated_transactions = 0, last_signal_count = 0\<rparr>),
     miners = (\<lambda>_. Idle), block_numbers = (\<lambda>_. 0), validators = (\<lambda>_. Waiting)\<rparr>"
    by (simp add: initial_def demo_config_def)
  then show ?thesis ..
qed

text \<open>After one transaction has been generated a block with it can be mined.\<close>

lemma demo_ready:
  obtains s rnds ts prev b where "reachable easy_sha demo_config s"
    and "miners s 0 = Idle" and "validators s 0 = Waiting" and "pipe s = []" and "queue s = []"
    and "select_transactions True rnds (TRANSACTIONS_PER_BLOCK demo_config) (pool s) = Selected ts"
    and "get_previous_hash (BLOCKCHAIN_BLOCKS demo_config) (ledger s) = Some prev"
    and "mine_loop easy_sha (TRANSACTIONS_PER_BLOCK demo_config) [7]
           (build_block (thread_number 0) (block_numbers s 0) prev ts) = Some b"
    and "length (entries (ledger s)) = 1"
proof -
  obtain s0 where s0: "initial easy_sha demo_config s0" using demo_initial ..
  let ?g = "generators s0 (env_pid example_env)"
  have env: "length (env_stack example_env) = TX_ID_LEN" by (simp add: example_env_def TX_ID_LEN_def)
  obtain g P posts where it: "txgen_iteration example_env 2 (pool_num_miners (pool s0)) (pool_tpb (pool s0)) ?g (pool s0)
      = Some (g, P, posts)"
    using txgen_iteration_Some [of example_env 2 "pool_num_miners (pool s0)" "pool_tpb (pool s0)" ?g "pool s0"]
    by (auto simp: example_env_def)
  define s where "s = s0\<lparr>pool := P, generators := (generators s0)(env_pid example_env := g)\<rparr>"
  have p0: "pool s0 = init_pool demo_config" using s0 by (simp add: initial_def)
  have "step easy_sha demo_config s0 s"
    unfolding s_def by (rule step.generate [OF it refl env]) (use s0 in \<open>simp add: initial_def\<close>)
  then have r: "reachable easy_sha demo_config s" using s0 by (blast intro: reachable.intros)
  have inv0: "pool_inv (pool s0)" using p0 pool_inv_init by simp
  have empty: "pending (pool s0) = {#}" "pool_count (pool s0) \<noteq> pool_size (pool s0)"
    unfolding p0 by (rule pending_init) (simp add: init_pool_def demo_config_def)
  let ?x = "fst (generate_transaction example_env (tx_number ?g) 2)"
  from inv0 env it have P: "pool_inv P \<and> pending P = {#?x#}"
    by (cases rule: txgen_iteration_cases) (simp_all add: empty)
  then have "?x \<in># pending P" by simp
  then obtain i where i: "i < length (slots P)" "slots P ! i = ?x" "occupied (slots P ! i)"
    by (auto simp: pending_def in_set_conv_nth)
  have "c_str (tx_id (tx ?x)) = tx_id_text (env_pid example_env) (tx_number ?g)" by (rule generated_id(1) [OF env])
  moreover have "filled ?x = 1" by (simp add: generate_transaction_def)
  ultimately have sel: "selectable (slots P ! i)"
    using i by (simp add: selectable_def occupied_def strcmp_eq_def tx_id_text_def c_str_def)
  have "unat (pool_count P) = 1" using P pool_inv_count [of P] by simp
  moreover have "i mod unat (pool_size P) = i" using P i(1) by (simp add: pool_inv_def)
  ultimately have "select_transactions True [i] 1 P = Selected [copy_selected (tx (slots P ! i))]"
    using select_loop_cong_hits [of P 1 "[i]"] P sel by (simp add: hits_def)
  then have S: "select_transactions True [i] (TRANSACTIONS_PER_BLOCK demo_config) (pool s)
      = Selected [copy_selected (tx (slots P ! i))]"
    by (simp add: demo_config_def s_def)
  have e0: "ledger_inv easy_sha 1 (ledger s0)" "\<exists>n. entries (ledger s0) = [with_nonce (nemesis_block 1) n]"
    using create_origin_inv [OF digest_fn_easy_sha, of demo_config] s0 by (auto simp: initial_def demo_config_def)
  then have one: "length (entries (ledger s0)) = 1" and "unat (ledger_count (ledger s0)) = length (entries (ledger s0))"
    using entries_counted [OF e0(1)] by auto
  then have G: "get_previous_hash (BLOCKCHAIN_BLOCKS demo_config) (ledger s) = Some (strncpy_n HASH_SIZE (last_block_hash (ledger s0)))"
    by (simp add: get_previous_hash_def demo_config_def s_def word_less_nat_alt)
  show thesis
    by (rule that [OF r _ _ _ _ S G])
       (use s0 one in \<open>simp_all add: s_def initial_def proof_of_work_easy_sha\<close>)
qed

text \<open>A run of the demo configuration with a second block in the ledger.\<close>

lemma demo_two_blocks:
  obtains s t b m where "reachable easy_sha demo_config s" and "steps easy_sha demo_config s t"
    and "reachable easy_sha demo_config t" and "length (entries (ledger s)) = 1"
    and "entries (ledger t) = entries (ledger s) @ [b]" and "transactions b \<noteq> []" and "queue t = [m]"
proof (rule demo_ready)
  fix s rnds ts prev b
  assume r: "reachable easy_sha demo_config s" and i: "miners s 0 = Idle" "validators s 0 = Waiting" "pipe s = []"
    and q: "queue s = []"
    and sel: "select_transactions True rnds (TRANSACTIONS_PER_BLOCK demo_config) (pool s) = Selected ts"
    and prev: "get_previous_hash (BLOCKCHAIN_BLOCKS demo_config) (ledger s) = Some prev"
    and mined: "mine_loop easy_sha (TRANSACTIONS_PER_BLOCK demo_config) [7]
      (build_block (thread_number 0) (block_numbers s 0) prev ts) = Some b"
    and one: "length (entries (ledger s)) = 1"
  have miner: "0 < unat (NUM_MINERS demo_config)" by (simp add: demo_config_def)
  obtain t m where t: "steps easy_sha demo_config s t" "entries (ledger t) = entries (ledger s) @ [b]" "transactions b = ts"
    "queue t = mq_send m (queue s)"
    using undisturbed_to_ledger [OF digest_fn_easy_sha sane_demo r miner i sel prev mined] by blast
  have "pool_inv (pool s)" using core_ok_reachable [OF r digest_fn_easy_sha sane_demo] by (simp add: core_ok_def pool_ok_def)
  from Selected_from_pool [OF this _ _ sel] have "length ts = 1" by (simp add: demo_config_def)
  then have "transactions b \<noteq> []" using t(3) by auto
  moreover have "queue t = [m]" using t(4) q by (simp add: mq_send_def STATISTICS_MQ_SIZE_def)
  ultimately show thesis using that r t steps_reachable [OF t(1) r] one by blast
qed

section \<open>Properties\<close>

text \<open>C1: no transaction is spent twice. In every reachable state of the whole system two different
  blocks of the chain have no transaction identifier in common, and what is in the chain is no longer
  pending in the pool.\<close>

theorem no_double_spending:
  assumes "digest_fn sha" and "sane cfg" and "reachable sha cfg s"
    and "i < length (entries (ledger s))" and "t \<in> set (transactions (entries (ledger s) ! i))"
  shows "(\<forall>j < length (entries (ledger s)). \<forall>t' \<in> set (transactions (entries (ledger s) ! j)).
            i \<noteq> j \<longrightarrow> \<not> strcmp_eq (tx_id t) (tx_id t'))
    \<and> (\<forall>p \<in> set (slots (pool s)). occupied p \<longrightarrow> \<not> strcmp_eq (tx_id t) (tx_id (tx p)))"
proof -
  have ok: "spend_ok s" using spend_ok_reachable assms(1-3) by blast
  have t: "id_of t \<in> taken s (Inl i)" using assms(4,5) by (simp add: taken_def block_ids_def)
  have "id_of t' \<in> taken s (Inl j)" if "j < length (entries (ledger s))" "t' \<in> set (transactions (entries (ledger s) ! j))" for j t'
    using that by (simp add: taken_def block_ids_def)
  moreover have "id_of (tx p) \<in> pending_ids (pool s)" if "p \<in> set (slots (pool s))" "occupied p" for p
    using that by (auto simp: pending_ids_def pending_def)
  moreover have "taken s (Inl i) \<inter> taken s (Inl j) = {}" if "i \<noteq> j" for j
    using ok that by (simp add: spend_ok_def)
  moreover have "taken s (Inl i) \<inter> pending_ids (pool s) = {}" using ok by (simp add: spend_ok_def)
  ultimately show ?thesis using t unfolding strcmp_eq_def id_of_def [symmetric] by (metis disjoint_iff)
qed

theorem no_double_spending_witness:
  "\<exists>s t t'. reachable easy_sha demo_config s \<and> t \<in> set (transactions (entries (ledger s) ! 1))
     \<and> t' \<in> set (transactions (entries (ledger s) ! 0)) \<and> \<not> strcmp_eq (tx_id t) (tx_id t')"
proof (rule demo_two_blocks)
  fix s t b m
  assume t: "reachable easy_sha demo_config t" "length (entries (ledger s)) = 1"
    "entries (ledger t) = entries (ledger s) @ [b]" "transactions b \<noteq> []"
  have "core_ok easy_sha demo_config t" using core_ok_reachable [OF t(1) digest_fn_easy_sha sane_demo] .
  then have "\<forall>x\<in>set (entries (ledger t)). length (transactions x) = 1"
    by (simp add: core_ok_def ledger_ok_def ledger_inv_def block_padded_def demo_config_def)
  then have "length (transactions (entries (ledger t) ! i)) = 1" if "i < length (entries (ledger t))" for i
    using that nth_mem by blast
  then have "length (transactions (entries (ledger t) ! 0)) = 1" "length (transactions (entries (ledger t) ! 1)) = 1"
    using t(2,3) by simp_all
  then have "hd (transactions (entries (ledger t) ! 1)) \<in> set (transactions (entries (ledger t) ! 1))"
    "hd (transactions (entries (ledger t) ! 0)) \<in> set (transactions (entries (ledger t) ! 0))"
    by (metis hd_in_set length_0_conv zero_neq_one)+
  moreover have "1 < length (entries (ledger t))" "0 < length (entries (ledger t))" using t(2,3) by simp_all
  ultimately show ?thesis
    using no_double_spending [OF digest_fn_easy_sha sane_demo t(1), of 1] t(1) by (metis zero_neq_one)
qed

text \<open>C2: in every reachable state, however the processes interleave, the pool holds distinct
  transactions with an accurate counter, and the ledger is a valid chain of at most as many blocks as
  configured, each mined with a passing nonce.\<close>

theorem reachable_states_are_consistent:
  assumes "digest_fn sha" and "sane cfg" and "reachable sha cfg s"
  shows "pool_inv (pool s) \<and> distinct_ids (pool s) \<and> pool_size (pool s) = TRANSACTION_POOL_SIZE cfg
    \<and> unat (pool_count (pool s)) = size (pending (pool s))
    \<and> ledger_inv sha (TRANSACTIONS_PER_BLOCK cfg) (ledger s)
    \<and> length (entries (ledger s)) \<le> unat (BLOCKCHAIN_BLOCKS cfg)"
proof -
  have "core_ok sha cfg s" using core_ok_reachable assms by blast
  then have p: "pool_ok cfg s" and l: "ledger_ok sha cfg (ledger s)" by (simp_all add: core_ok_def)
  then have "length (entries (ledger s)) \<le> unat (BLOCKCHAIN_BLOCKS cfg)"
    using entries_counted by (metis ledger_ok_def)
  with p l show ?thesis by (simp add: pool_ok_def ledger_ok_def pool_inv_count)
qed

theorem reachable_states_are_consistent_witness:
  "\<exists>s. reachable easy_sha demo_config s \<and> length (entries (ledger s)) = 2 \<and> ledger_inv easy_sha 1 (ledger s)"
proof (rule demo_two_blocks)
  fix s t b m
  assume t: "reachable easy_sha demo_config t" "length (entries (ledger s)) = 1" "entries (ledger t) = entries (ledger s) @ [b]"
  have "length (entries (ledger t)) = 2" using t(2,3) by simp
  moreover have "ledger_inv easy_sha 1 (ledger t)"
    using reachable_states_are_consistent [OF digest_fn_easy_sha sane_demo t(1)] by (simp add: demo_config_def)
  ultimately show ?thesis using t(1) by blast
qed

text \<open>C3: the processes refine the protocol of arriving, taking out, appending and dropping: every step
  of a reachable state either leaves the abstract state alone or is a step of the protocol.\<close>

theorem system_refines_protocol:
  assumes "digest_fn sha" and "sane cfg" and "reachable sha cfg s" and "step sha cfg s t"
  shows "abs_system t = abs_system s \<or> spec_step (abs_system s) (abs_system t)"
  using spec_simulates [OF assms(1) _ _ assms(4)] core_ok_reachable [OF assms(3,1,2)] spend_ok_reachable [OF assms(3,1,2)]
  by blast

theorem system_refines_protocol_witness:
  "\<exists>s t. step easy_sha demo_config s t \<and> (abs_system t = abs_system s \<or> spec_step (abs_system s) (abs_system t))"
proof (rule demo_ready)
  fix s rnds ts prev b
  assume r: "reachable easy_sha demo_config s" and i: "miners s 0 = Idle"
    and sel: "select_transactions True rnds (TRANSACTIONS_PER_BLOCK demo_config) (pool s) = Selected ts"
  have "0 < unat (NUM_MINERS demo_config)" by (simp add: demo_config_def)
  from step.select [where sha = easy_sha, OF this i sel] system_refines_protocol [OF digest_fn_easy_sha sane_demo r]
  show ?thesis by blast
qed

text \<open>C6: although the insertion does not check for room, no reachable validator writes outside the
  ledger: it would take two blocks of the chain with the same SHA-256 value.\<close>

theorem ledger_never_overruns:
  assumes "digest_fn sha" and "sane cfg" and "reachable sha cfg s" and "validators s k = PoolDone b"
    and "\<And>x y. x \<in> set (entries (ledger s)) \<Longrightarrow> y \<in> set (entries (ledger s)) \<Longrightarrow>
      sha (serialize_block (TRANSACTIONS_PER_BLOCK cfg) x) = sha (serialize_block (TRANSACTIONS_PER_BLOCK cfg) y) \<Longrightarrow>
      serialize_block (TRANSACTIONS_PER_BLOCK cfg) x = serialize_block (TRANSACTIONS_PER_BLOCK cfg) y"
  shows "commit_block sha (TRANSACTIONS_PER_BLOCK cfg) b (ledger s) \<noteq> OutOfBounds"
  using no_overrun_or_collision [OF assms(1) _ assms(4)] core_ok_reachable [OF assms(3,1,2)] assms(5) by blast

theorem ledger_never_overruns_witness:
  "\<exists>s b. reachable easy_sha demo_config s \<and> validators s 0 = PoolDone b
     \<and> commit_block easy_sha (TRANSACTIONS_PER_BLOCK demo_config) b (ledger s) \<noteq> OutOfBounds"
proof (rule demo_ready)
  fix s rnds ts prev b
  assume r: "reachable easy_sha demo_config s" and i: "miners s 0 = Idle" "validators s 0 = Waiting" "pipe s = []"
    and sel: "select_transactions True rnds (TRANSACTIONS_PER_BLOCK demo_config) (pool s) = Selected ts"
    and prev: "get_previous_hash (BLOCKCHAIN_BLOCKS demo_config) (ledger s) = Some prev"
    and mined: "mine_loop easy_sha (TRANSACTIONS_PER_BLOCK demo_config) [7]
      (build_block (thread_number 0) (block_numbers s 0) prev ts) = Some b"
    and one: "length (entries (ledger s)) = 1"
  have miner: "0 < unat (NUM_MINERS demo_config)" by (simp add: demo_config_def)
  obtain t where t: "steps easy_sha demo_config s t" "validators t 0 = PoolDone b" "ledger t = ledger s"
    using undisturbed_to_pool [OF digest_fn_easy_sha sane_demo r miner i sel prev mined] by blast
  obtain e where "entries (ledger t) = [e]" using one t(3) by (metis One_nat_def length_0_conv length_Suc_conv)
  with ledger_never_overruns [OF digest_fn_easy_sha sane_demo steps_reachable [OF t(1) r] t(2)]
  show ?thesis using t(2) steps_reachable [OF t(1) r] by auto
qed

text \<open>C24: no message of a running system makes the statistics process leave its arrays or the ledger:
  the next message of the queue is always counted.\<close>

theorem statistics_never_out_of_range:
  assumes "digest_fn sha" and "sane cfg" and "reachable sha cfg s" and "queue s = m # q"
  shows "\<exists>st. process_message (TRANSACTIONS_PER_BLOCK cfg) (ledger s) m (stats s) = Updated st"
  using message_counted [OF queue_ok_reachable [OF assms(3,1,2)] assms(4)] .

theorem statistics_never_out_of_range_witness:
  "\<exists>s m st. reachable easy_sha demo_config s \<and> queue s = [m]
     \<and> process_message (TRANSACTIONS_PER_BLOCK demo_config) (ledger s) m (stats s) = Updated st"
  using statistics_never_out_of_range [OF digest_fn_easy_sha sane_demo] by (rule_tac demo_two_blocks) blast

text \<open>C15: history only grows in a run of the whole system: the chain of an earlier state is a prefix of
  the chain of every later one.\<close>

theorem history_only_grows:
  assumes "digest_fn sha" and "sane cfg" and "reachable sha cfg s" and "steps sha cfg s t"
  shows "\<exists>bs. entries (ledger t) = entries (ledger s) @ bs"
  using assms by (rule steps_entries)

theorem history_only_grows_witness:
  "\<exists>s t bs. steps easy_sha demo_config s t \<and> length (entries (ledger t)) = 2
     \<and> entries (ledger t) = entries (ledger s) @ bs"
proof (rule demo_two_blocks)
  fix s t b m
  assume "reachable easy_sha demo_config s" "steps easy_sha demo_config s t" "length (entries (ledger s)) = 1"
    "entries (ledger t) = entries (ledger s) @ [b]"
  with history_only_grows [OF digest_fn_easy_sha sane_demo] show ?thesis by fastforce
qed

text \<open>C8: an undisturbed miner gets its block into the chain. When a thread selects enough transactions,
  the ledger has room, the nonce search succeeds, the pipe is empty and a validator waits, then the
  system can reach a state whose chain has grown by a block of exactly the selected transactions.\<close>

theorem undisturbed_block_is_chained:
  assumes "digest_fn sha" and "sane cfg" and "reachable sha cfg s"
    and "i < unat (NUM_MINERS cfg)" and "miners s i = Idle" and "validators s k = Waiting" and "pipe s = []"
    and "select_transactions True rnds (TRANSACTIONS_PER_BLOCK cfg) (pool s) = Selected ts"
    and "get_previous_hash (BLOCKCHAIN_BLOCKS cfg) (ledger s) = Some prev"
    and "mine_loop sha (TRANSACTIONS_PER_BLOCK cfg) clocks (build_block (thread_number i) (block_numbers s i) prev ts) = Some b"
  shows "\<exists>t. steps sha cfg s t \<and> entries (ledger t) = entries (ledger s) @ [b] \<and> transactions b = ts"
  using undisturbed_to_ledger [OF assms] by blast

theorem undisturbed_block_is_chained_witness:
  "\<exists>s t b. reachable easy_sha demo_config s \<and> steps easy_sha demo_config s t
     \<and> entries (ledger t) = entries (ledger s) @ [b]"
proof (rule demo_ready)
  fix s rnds ts prev b
  assume r: "reachable easy_sha demo_config s" and i: "miners s 0 = Idle" "validators s 0 = Waiting" "pipe s = []"
    and sel: "select_transactions True rnds (TRANSACTIONS_PER_BLOCK demo_config) (pool s) = Selected ts"
    and prev: "get_previous_hash (BLOCKCHAIN_BLOCKS demo_config) (ledger s) = Some prev"
    and mined: "mine_loop easy_sha (TRANSACTIONS_PER_BLOCK demo_config) [7]
      (build_block (thread_number 0) (block_numbers s 0) prev ts) = Some b"
  have "0 < unat (NUM_MINERS demo_config)" by (simp add: demo_config_def)
  from undisturbed_block_is_chained [OF digest_fn_easy_sha sane_demo r this i sel prev mined] r
  show ?thesis by blast
qed

text \<open>C17: a validator that is ended between its two critical sections loses the transactions of its block. The
  launcher sends SIGTERM to validators whenever the load falls; when one of them has taken the transactions of
  a block out of the pool but has not appended the block, then in no later state of the system, however it goes
  on, is one of these transactions in the pool or in the chain.\<close>

theorem terminated_validator_loses_transactions:
  assumes "digest_fn sha" and "sane cfg" and "reachable sha cfg s" and "validators s k = PoolDone b" and "t \<in> set (transactions b)"
    and "steps sha cfg (s\<lparr>validators := (validators s)(k := Waiting)\<rparr>) u"
  shows "step sha cfg s (s\<lparr>validators := (validators s)(k := Waiting)\<rparr>)
    \<and> (\<forall>p\<in>set (slots (pool u)). occupied p \<longrightarrow> \<not> strcmp_eq (tx_id t) (tx_id (tx p)))
    \<and> (\<forall>i<length (entries (ledger u)). \<forall>t'\<in>set (transactions (entries (ledger u) ! i)). \<not> strcmp_eq (tx_id t) (tx_id t'))"
proof -
  let ?s = "s\<lparr>validators := (validators s)(k := Waiting)\<rparr>" and ?x = "id_of t"
  have step: "step sha cfg s ?s" by (rule step.terminate_validator) (simp add: assms(4))
  have x: "?x \<in> taken s (Inr k)" using assms(4,5) by (simp add: taken_def block_ids_def)
  have ok: "spend_ok s" by (rule spend_ok_reachable [OF assms(3,1,2)])
  have "?x \<in> issued ?s" using held_issued [OF assms(3,1,2), of k] x by (auto simp: taken_def issued_def)
  moreover have "?x \<notin> known ?s"
  proof -
    have "?x \<notin> taken s y" if "y \<noteq> Inr k" for y using ok x that unfolding spend_ok_def by blast
    moreover have "taken ?s y = (if y = Inr k then {} else taken s y)" for y by (cases y) (simp_all add: taken_def)
    ultimately have "?x \<notin> taken ?s y" for y by simp
    moreover have "?x \<notin> pending_ids (pool s)" using ok x unfolding spend_ok_def by blast
    ultimately show ?thesis by (simp add: known_def)
  qed
  ultimately have "?x \<notin> known u"
    using lost_forever [OF assms(1,2) reachable.continue [OF assms(3) step] assms(6)] by blast
  then have n: "?x \<notin> pending_ids (pool u)" "?x \<notin> taken u y" for y by (simp_all add: known_def)
  have "?x \<noteq> id_of (tx p)" if "p \<in> set (slots (pool u))" "occupied p" for p
    using n(1) that by (auto simp: pending_ids_def pending_def)
  moreover have "?x \<noteq> id_of t'" if "i < length (entries (ledger u))" "t' \<in> set (transactions (entries (ledger u) ! i))" for i t'
    using n(2) [of "Inl i"] that by (auto simp: taken_def block_ids_def)
  ultimately show ?thesis using step by (auto simp: strcmp_eq_def id_of_def)
qed

theorem terminated_validator_loses_transactions_witness:
  "\<exists>s b t. reachable easy_sha demo_config s \<and> validators s 0 = PoolDone b \<and> t \<in> set (transactions b) \<and>
    (\<forall>p\<in>set (slots (pool s)). occupied p \<longrightarrow> \<not> strcmp_eq (tx_id t) (tx_id (tx p)))"
proof (rule demo_ready)
  fix s rnds ts prev b
  assume r: "reachable easy_sha demo_config s" and i: "miners s 0 = Idle" "validators s 0 = Waiting" "pipe s = []"
    and sel: "select_transactions True rnds (TRANSACTIONS_PER_BLOCK demo_config) (pool s) = Selected ts"
    and prev: "get_previous_hash (BLOCKCHAIN_BLOCKS demo_config) (ledger s) = Some prev"
    and mined: "mine_loop easy_sha (TRANSACTIONS_PER_BLOCK demo_config) [7]
      (build_block (thread_number 0) (block_numbers s 0) prev ts) = Some b"
  have miner: "0 < unat (NUM_MINERS demo_config)" by (simp add: demo_config_def)
  obtain u where u: "steps easy_sha demo_config s u" "validators u 0 = PoolDone b"
    using undisturbed_to_pool [OF digest_fn_easy_sha sane_demo r miner i sel prev mined] by blast
  have ru: "reachable easy_sha demo_config u" by (rule steps_reachable [OF u(1) r])
  have "core_ok easy_sha demo_config u" by (rule core_ok_reachable [OF ru digest_fn_easy_sha sane_demo])
  then have "length (transactions b) = 1"
    using u(2) by (auto simp: core_ok_def flight_ok_def good_def draft_def block_padded_def demo_config_def)
  then obtain t where t: "t \<in> set (transactions b)" by (metis hd_in_set length_0_conv zero_neq_one)
  have "\<forall>p\<in>set (slots (pool u)). occupied p \<longrightarrow> \<not> strcmp_eq (tx_id t) (tx_id (tx p))"
    using terminated_validator_loses_transactions [OF digest_fn_easy_sha sane_demo ru u(2) t steps_refl] by simp
  with ru u(2) t show ?thesis by blast
qed

end
