(* ===== verification/SystemCalls.thy ===== *)
theory SystemCalls
  imports SharedTypes
begin

text \<open>
  The system calls of start-up and shutdown, as operations on an explicit state of the operating
  system: the objects that persist (named semaphores, shared memory, the pipe, the queue), what the
  calling process holds (descriptors, mappings, semaphore handles, the log), its threads and its
  children. A call that the program makes with a null semaphore crashes the process, a wait that is
  never satisfied blocks it; both end the execution. The return values of the calls in the clean-up
  routines only select a message for the log, so they are left out; a message needs the semaphore of
  the log, and without an open log (\<open>LogNull\<close>) it crashes inside the critical section. A message queue
  descriptor is a file descriptor, as on Linux.
\<close>

section \<open>The state\<close>

datatype Semaphore = SemLogFile | SemTransactionsPool | SemLedger | SemMinerWork | SemPipeClosed

datatype Segment = PoolSegment | LedgerSegment

datatype ObjectName = SemName Semaphore | ShmName Segment | PipeName | QueueName

text \<open>The result of \<open>mmap\<close>; a static pointer starts as \<open>Null\<close>.\<close>

datatype Pointer = Null | MapFailed | Mapped

datatype Status = Running | Crashed | Blocked

text \<open>\<open>reacts p\<close>: what process \<open>p\<close> does on SIGTERM. \<open>None\<close>: it ignores the signal; \<open>Some posts\<close>: it posts
  these semaphores and ends. A child that was signalled reacts as late as possible: when the parent
  waits for it, or for a semaphore that it posts.\<close>

record Kernel =
  object_names :: "ObjectName set"
  open_fds :: "c_int set"
  mappings :: "Segment set"
  open_sems :: "Semaphore set"
  log_open :: bool
  sem_value :: "Semaphore \<Rightarrow> nat"
  threads :: "nat set"
  cancelled :: "nat set"
  children :: "c_int set"
  signalled :: "c_int list"
  ended :: "c_int set"
  reacts :: "c_int \<Rightarrow> Semaphore list option"
  status :: Status

datatype Call =
    LogInfo bool
  | LogNull bool
  | Kill c_int
  | WaitPid c_int
  | CancelThread nat
  | JoinThread nat
  | SemWait bool Semaphore
  | SemPost Semaphore
  | Munmap Segment Pointer
  | Close c_int
  | ShmUnlink Segment
  | SemClose Semaphore
  | SemUnlink Semaphore
  | UnlinkPipe
  | MqUnlink
  | CloseLog

definition react :: "c_int \<Rightarrow> Kernel \<Rightarrow> Kernel" where
  "react p k =
     (case reacts k p of
        None \<Rightarrow> k
      | Some posts \<Rightarrow> k\<lparr>ended := insert p (ended k), sem_value := (\<lambda>s. sem_value k s + count_list posts s)\<rparr>)"

text \<open>A signalled child that will post the semaphore.\<close>

definition poster :: "Semaphore \<Rightarrow> Kernel \<Rightarrow> c_int option" where
  "poster s k =
     find (\<lambda>p. p \<in> children k \<and> p \<notin> ended k \<and> (case reacts k p of None \<Rightarrow> False | Some posts \<Rightarrow> s \<in> set posts))
       (signalled k)"

fun effect :: "Call \<Rightarrow> Kernel \<Rightarrow> Kernel" where
  "effect (LogInfo handle) k =
     (if \<not> handle then k\<lparr>status := Crashed\<rparr>
      else if sem_value k SemLogFile = 0 then k\<lparr>status := Blocked\<rparr> else k)"
| "effect (LogNull handle) k =
     (if \<not> handle then k\<lparr>status := Crashed\<rparr>
      else if sem_value k SemLogFile = 0 then k\<lparr>status := Blocked\<rparr>
      else k\<lparr>sem_value := (sem_value k)(SemLogFile := sem_value k SemLogFile - 1), status := Crashed\<rparr>)"
| "effect (Kill p) k = (if p \<in> children k then k\<lparr>signalled := signalled k @ [p]\<rparr> else k)"
| "effect (WaitPid p) k =
     (if p \<in> children k
      then let k' = (if p \<notin> ended k \<and> p \<in> set (signalled k) then react p k else k)
           in if p \<in> ended k' then k'\<lparr>children := children k' - {p}\<rparr> else k'\<lparr>status := Blocked\<rparr>
      else k)"
| "effect (CancelThread t) k = k\<lparr>cancelled := insert t (cancelled k)\<rparr>"
| "effect (JoinThread t) k =
     (if t \<in> threads k
      then if t \<in> cancelled k then k\<lparr>threads := threads k - {t}\<rparr> else k\<lparr>status := Blocked\<rparr>
      else k)"
| "effect (SemWait handle s) k =
     (if \<not> handle then k\<lparr>status := Crashed\<rparr>
      else let k' = (if 0 < sem_value k s then k else case poster s k of None \<Rightarrow> k | Some p \<Rightarrow> react p k)
           in if sem_value k' s = 0 then k'\<lparr>status := Blocked\<rparr>
              else k'\<lparr>sem_value := (sem_value k')(s := sem_value k' s - 1)\<rparr>)"
| "effect (SemPost s) k = k\<lparr>sem_value := (sem_value k)(s := sem_value k s + 1)\<rparr>"
| "effect (Munmap seg ptr) k = (if ptr = Mapped then k\<lparr>mappings := mappings k - {seg}\<rparr> else k)"
| "effect (Close d) k = k\<lparr>open_fds := open_fds k - {d}\<rparr>"
| "effect (ShmUnlink seg) k = k\<lparr>object_names := object_names k - {ShmName seg}\<rparr>"
| "effect (SemClose s) k = k\<lparr>open_sems := open_sems k - {s}\<rparr>"
| "effect (SemUnlink s) k = k\<lparr>object_names := object_names k - {SemName s}\<rparr>"
| "effect UnlinkPipe k = k\<lparr>object_names := object_names k - {PipeName}\<rparr>"
| "effect MqUnlink k = k\<lparr>object_names := object_names k - {QueueName}\<rparr>"
| "effect CloseLog k = k\<lparr>log_open := False\<rparr>"

definition exec :: "Call \<Rightarrow> Kernel \<Rightarrow> Kernel" where
  "exec c k = (if status k = Running then effect c k else k)"

fun execs :: "Call list \<Rightarrow> Kernel \<Rightarrow> Kernel" where
  "execs [] k = k"
| "execs (c # cs) k = execs cs (exec c k)"

text \<open>A call that removes a persistent object.\<close>

fun removes :: "Call \<Rightarrow> bool" where
  "removes (ShmUnlink _) = True"
| "removes (SemUnlink _) = True"
| "removes UnlinkPipe = True"
| "removes MqUnlink = True"
| "removes _ = False"

section \<open>Acquiring\<close>

text \<open>\<open>sem_open\<close> with \<open>O_CREAT\<close>: the initial value only counts when the semaphore did not exist.\<close>

definition create_sem :: "Semaphore \<Rightarrow> nat \<Rightarrow> Kernel \<Rightarrow> Kernel" where
  "create_sem s init k =
     (let k' = (if SemName s \<in> object_names k then k
                else k\<lparr>object_names := insert (SemName s) (object_names k),
                       sem_value := (sem_value k)(s := init)\<rparr>)
      in k'\<lparr>open_sems := insert s (open_sems k')\<rparr>)"

definition open_sem :: "Semaphore \<Rightarrow> Kernel \<Rightarrow> Kernel" where
  "open_sem s k = k\<lparr>open_sems := insert s (open_sems k)\<rparr>"

definition add_fd :: "c_int \<Rightarrow> Kernel \<Rightarrow> Kernel" where
  "add_fd d k = k\<lparr>open_fds := insert d (open_fds k)\<rparr>"

definition add_name :: "ObjectName \<Rightarrow> Kernel \<Rightarrow> Kernel" where
  "add_name n k = k\<lparr>object_names := insert n (object_names k)\<rparr>"

definition add_mapping :: "Segment \<Rightarrow> Kernel \<Rightarrow> Kernel" where
  "add_mapping seg k = k\<lparr>mappings := insert seg (mappings k)\<rparr>"

lemmas acquire_defs = create_sem_def open_sem_def add_fd_def add_name_def add_mapping_def

section \<open>Executions\<close>

lemma execs_append [simp]: "execs (xs @ ys) k = execs ys (execs xs k)"
  by (induction xs arbitrary: k) simp_all

lemma execs_stopped: "status k \<noteq> Running \<Longrightarrow> execs cs k = k"
  by (induction cs) (simp_all add: exec_def)

lemma execs_running_prefix: "status (execs (xs @ ys) k) = Running \<Longrightarrow> status (execs xs k) = Running"
  using execs_stopped [of "execs xs k" ys] by (cases "status (execs xs k) = Running") simp_all

text \<open>What calls of a kind leave alone.\<close>

lemma exec_frame:
  "reacts (exec c k) = reacts k"
  "\<not> removes c \<Longrightarrow> object_names (exec c k) = object_names k"
  by (cases c; auto simp: exec_def react_def Let_def split: option.splits)+

lemma execs_reacts: "reacts (execs cs k) = reacts k"
  by (induction cs arbitrary: k) (simp_all add: exec_frame)

lemma execs_names: "\<forall>c\<in>set cs. \<not> removes c \<Longrightarrow> object_names (execs cs k) = object_names k"
  by (induction cs arbitrary: k) (simp_all add: exec_frame)

fun releases :: "Call \<Rightarrow> bool" where
  "releases (Munmap _ _) = True"
| "releases (Close _) = True"
| "releases (ShmUnlink _) = True"
| "releases (SemClose _) = True"
| "releases (SemUnlink _) = True"
| "releases UnlinkPipe = True"
| "releases MqUnlink = True"
| "releases CloseLog = True"
| "releases _ = False"

text \<open>The calls that release something never stop the process and leave its children and the values of
  the semaphores alone; the other calls leave all objects alone.\<close>

lemma exec_releases:
  assumes "releases c"
  shows "status (exec c k) = status k" "children (exec c k) = children k" "ended (exec c k) = ended k"
    "signalled (exec c k) = signalled k"
    "threads (exec c k) = threads k" "cancelled (exec c k) = cancelled k" "sem_value (exec c k) = sem_value k"
  using assms by (cases c; simp add: exec_def)+

lemma exec_keeps_objects:
  assumes "\<not> releases c"
  shows "object_names (exec c k) = object_names k" "open_fds (exec c k) = open_fds k" "mappings (exec c k) = mappings k"
    "open_sems (exec c k) = open_sems k" "log_open (exec c k) = log_open k"
  using assms by (cases c; auto simp: exec_def react_def Let_def split: option.splits)+

lemma execs_keeps_objects:
  assumes "\<forall>c\<in>set cs. \<not> releases c"
  shows "object_names (execs cs k) = object_names k" "open_fds (execs cs k) = open_fds k"
    "mappings (execs cs k) = mappings k" "open_sems (execs cs k) = open_sems k" "log_open (execs cs k) = log_open k"
  using assms by (induction cs arbitrary: k) (simp_all add: exec_keeps_objects)

text \<open>Children only disappear in a wait for them; signals and the ends of processes are not undone.\<close>

lemma exec_children:
  "(\<And>p. c \<noteq> WaitPid p) \<Longrightarrow> children (exec c k) = children k"
  "ended k \<subseteq> ended (exec c k)" "set (signalled k) \<subseteq> set (signalled (exec c k))"
  "(\<And>p. c \<noteq> Kill p) \<Longrightarrow> signalled (exec c k) = signalled k"
  by (cases c; auto simp: exec_def react_def Let_def split: option.splits)+

lemma execs_ended: "ended k \<subseteq> ended (execs cs k)"
proof (induction cs arbitrary: k)
  case (Cons c cs)
  then show ?case using exec_children(2) [of k c] by force
qed simp

lemma execs_children: "(\<And>p. WaitPid p \<notin> set cs) \<Longrightarrow> children (execs cs k) = children k"
proof (induction cs arbitrary: k)
  case (Cons c cs)
  have "children (exec c k) = children k" by (rule exec_children(1)) (use Cons.prems in auto)
  with Cons show ?case by simp
qed simp

lemma execs_not_signalled:
  assumes "Kill p \<notin> set cs" and "p \<notin> set (signalled k)"
  shows "p \<notin> set (signalled (execs cs k))"
  using assms
proof (induction cs arbitrary: k)
  case (Cons c cs)
  have "p \<notin> set (signalled (exec c k))"
    using Cons.prems exec_children(4) [of c k] by (cases c) (auto simp: exec_def)
  with Cons show ?case by simp
qed simp

end
