(* ===== verification/Processes.thy ===== *)
theory Processes
  imports SystemCalls
begin

text \<open>
  What the five programs have in common: the static variables that hold their handles, messages in the
  log, start-up as a list of steps that may fail, and the effect of lists of calls of one kind.
\<close>

section \<open>Handles\<close>

record Proc =
  log_file :: bool
  sem_handle :: "Semaphore \<Rightarrow> bool"
  shm_fd :: "Segment \<Rightarrow> c_int"
  shm_base :: "Segment \<Rightarrow> Pointer"
  pipe_fd :: c_int
  queue_fd :: c_int

text \<open>A message, and a call whose result is reported by a message.\<close>

definition log_info :: "'a Proc_scheme \<Rightarrow> Call" where
  "log_info p = (if log_file p then LogInfo (sem_handle p SemLogFile) else LogNull (sem_handle p SemLogFile))"

abbreviation logs :: "'a Proc_scheme \<Rightarrow> bool" where
  "logs p \<equiv> sem_handle p SemLogFile \<and> log_file p"

lemma log_info_handle: "logs p \<Longrightarrow> log_info p = LogInfo True"
  by (simp add: log_info_def)

definition logged :: "'a Proc_scheme \<Rightarrow> Call \<Rightarrow> Call list" where
  "logged p c = [c, log_info p]"

definition close_semaphore :: "'a Proc_scheme \<Rightarrow> Semaphore \<Rightarrow> Call list" where
  "close_semaphore p s = (if sem_handle p s then logged p (SemClose s) else [])"

definition close_fd :: "'a Proc_scheme \<Rightarrow> c_int \<Rightarrow> Call list" where
  "close_fd p d = (if d \<noteq> - 1 then logged p (Close d) else [])"

definition unmap :: "'a Proc_scheme \<Rightarrow> Segment \<Rightarrow> Call list" where
  "unmap p seg = (if shm_base p seg \<noteq> Null then logged p (Munmap seg (shm_base p seg)) else [])"

definition close_log :: "'a Proc_scheme \<Rightarrow> Call list" where
  "close_log p = (if log_file p then [CloseLog] else [])"

text \<open>A start-up: each step continues or ends the process (\<open>Inl\<close>, with the final state of the system).\<close>

fun run_steps :: "('s \<Rightarrow> 'k + 's) list \<Rightarrow> 's \<Rightarrow> 'k + 's" where
  "run_steps [] s = Inr s"
| "run_steps (f # fs) s = (case f s of Inl k \<Rightarrow> Inl k | Inr s' \<Rightarrow> run_steps fs s')"

text \<open>Invariants of the steps: they hold of what a successful start-up returns, and of the state in which
  the step of a failing one was taken.\<close>

definition steps_keep :: "('s \<Rightarrow> bool) \<Rightarrow> ('s \<Rightarrow> 'k + 's) list \<Rightarrow> bool" where
  "steps_keep P fs \<longleftrightarrow> (\<forall>f\<in>set fs. \<forall>s s'. P s \<longrightarrow> f s = Inr s' \<longrightarrow> P s')"

lemma steps_keep_simps [simp]:
  "steps_keep P []" "steps_keep P (f # fs) \<longleftrightarrow> (\<forall>s s'. P s \<longrightarrow> f s = Inr s' \<longrightarrow> P s') \<and> steps_keep P fs"
  "steps_keep P (fs @ gs) \<longleftrightarrow> steps_keep P fs \<and> steps_keep P gs"
  by (auto simp: steps_keep_def)

lemma run_steps_Inl:
  "run_steps fs s = Inl k \<Longrightarrow> steps_keep P fs \<Longrightarrow> P s \<Longrightarrow> \<exists>f\<in>set fs. \<exists>s. P s \<and> f s = Inl k"
proof (induction fs arbitrary: s)
  case Nil
  then show ?case by simp
next
  case (Cons f fs)
  show ?case
  proof (cases "f s")
    case (Inl k')
    with Cons.prems show ?thesis by auto
  next
    case (Inr s')
    then have "P s'" using Cons.prems(2,3) by simp
    with Cons.IH [of s'] Cons.prems Inr show ?thesis by auto
  qed
qed

lemma run_steps_Inr:
  "run_steps fs s = Inr t \<Longrightarrow> steps_keep P fs \<Longrightarrow> P s \<Longrightarrow> P t"
proof (induction fs arbitrary: s)
  case Nil
  then show ?case by simp
next
  case (Cons f fs)
  then obtain s' where s': "f s = Inr s'" "run_steps fs s' = Inr t" by (cases "f s") auto
  then have "P s'" using Cons.prems(2,3) by simp
  with Cons.IH [of s'] Cons.prems s' show ?case by simp
qed

section \<open>Lists of calls that cannot fail\<close>

text \<open>Releases and messages.\<close>

definition quiet :: "Call list \<Rightarrow> bool" where
  "quiet cs \<longleftrightarrow> (\<forall>c\<in>set cs. releases c \<or> c = LogInfo True)"

lemma quiet_simps [simp]:
  "quiet []" "quiet (xs @ ys) \<longleftrightarrow> quiet xs \<and> quiet ys"
  "quiet (c # cs) \<longleftrightarrow> (releases c \<or> c = LogInfo True) \<and> quiet cs"
  by (auto simp: quiet_def)

definition same_processes :: "Kernel \<Rightarrow> Kernel \<Rightarrow> bool" where
  "same_processes k k' \<longleftrightarrow>
     status k' = status k \<and> children k' = children k \<and> ended k' = ended k \<and> signalled k' = signalled k \<and> threads k' = threads k \<and>
     cancelled k' = cancelled k \<and> sem_value k' = sem_value k"

lemma exec_quiet:
  assumes "releases c \<or> c = LogInfo True" and "0 < sem_value k SemLogFile"
  shows "same_processes k (exec c k)"
  using assms exec_releases [of c k] by (auto simp: same_processes_def exec_def)

lemma execs_quiet:
  "quiet cs \<Longrightarrow> 0 < sem_value k SemLogFile \<Longrightarrow> same_processes k (execs cs k)"
proof (induction cs arbitrary: k)
  case Nil
  then show ?case by (simp add: same_processes_def)
next
  case (Cons c cs)
  then have "same_processes k (exec c k)" using exec_quiet by simp
  then show ?case using Cons by (simp add: same_processes_def)
qed

fun removed :: "Call \<Rightarrow> ObjectName set" where
  "removed (ShmUnlink seg) = {ShmName seg}"
| "removed (SemUnlink s) = {SemName s}"
| "removed UnlinkPipe = {PipeName}"
| "removed MqUnlink = {QueueName}"
| "removed _ = {}"

text \<open>What a list of releases and messages leaves of the objects.\<close>

lemma execs_quiet_objects:
  assumes "quiet cs" and "0 < sem_value k SemLogFile" and "status k = Running"
  shows "object_names (execs cs k) = object_names k - \<Union> (removed ` set cs)"
    and "open_fds (execs cs k) = open_fds k - {d. Close d \<in> set cs}"
    and "mappings (execs cs k) = mappings k - {seg. Munmap seg Mapped \<in> set cs}"
    and "open_sems (execs cs k) = open_sems k - {s. SemClose s \<in> set cs}"
    and "log_open (execs cs k) \<longleftrightarrow> log_open k \<and> CloseLog \<notin> set cs"
proof -
  have "object_names (execs cs k) = object_names k - \<Union> (removed ` set cs) \<and>
    open_fds (execs cs k) = open_fds k - {d. Close d \<in> set cs} \<and>
    mappings (execs cs k) = mappings k - {seg. Munmap seg Mapped \<in> set cs} \<and>
    open_sems (execs cs k) = open_sems k - {s. SemClose s \<in> set cs} \<and>
    (log_open (execs cs k) \<longleftrightarrow> log_open k \<and> CloseLog \<notin> set cs)"
    using assms
  proof (induction cs arbitrary: k)
    case Nil
    then show ?case by simp
  next
    case (Cons c cs)
    then have c: "releases c \<or> c = LogInfo True" by simp
    have "same_processes k (exec c k)" using exec_quiet [OF c Cons.prems(2)] .
    then have "0 < sem_value (exec c k) SemLogFile" "status (exec c k) = Running"
      using Cons.prems(2,3) by (simp_all add: same_processes_def)
    note ih = Cons.IH [OF _ this]
    have "object_names (exec c k) = object_names k - removed c"
      "open_fds (exec c k) = open_fds k - {d. c = Close d}"
      "mappings (exec c k) = mappings k - {seg. c = Munmap seg Mapped}"
      "open_sems (exec c k) = open_sems k - {s. c = SemClose s}"
      "log_open (exec c k) \<longleftrightarrow> log_open k \<and> c \<noteq> CloseLog"
      using c Cons.prems(2,3) by (cases c; auto simp: exec_def)+
    with ih Cons.prems(1) show ?case by auto
  qed
  then show "object_names (execs cs k) = object_names k - \<Union> (removed ` set cs)"
    and "open_fds (execs cs k) = open_fds k - {d. Close d \<in> set cs}"
    and "mappings (execs cs k) = mappings k - {seg. Munmap seg Mapped \<in> set cs}"
    and "open_sems (execs cs k) = open_sems k - {s. SemClose s \<in> set cs}"
    and "log_open (execs cs k) \<longleftrightarrow> log_open k \<and> CloseLog \<notin> set cs"
    by simp_all
qed

text \<open>Signals.\<close>

definition kills :: "Call list \<Rightarrow> bool" where
  "kills cs \<longleftrightarrow> (\<forall>c\<in>set cs. (\<exists>p. c = Kill p) \<or> c = LogInfo True)"

lemma execs_kills:
  assumes "kills cs" and "status k = Running" and "0 < sem_value k SemLogFile"
  shows "status (execs cs k) = Running \<and> children (execs cs k) = children k \<and> threads (execs cs k) = threads k
    \<and> cancelled (execs cs k) = cancelled k \<and> ended (execs cs k) = ended k \<and> sem_value (execs cs k) = sem_value k
    \<and> set (signalled (execs cs k)) = set (signalled k) \<union> ({p. Kill p \<in> set cs} \<inter> children k)"
  using assms
proof (induction cs arbitrary: k)
  case Nil
  then show ?case by simp
next
  case (Cons c cs)
  have cs: "kills cs" using Cons.prems(1) by (simp add: kills_def)
  show ?case
  proof (cases "c = LogInfo True")
    case True
    then have "exec c k = k" using Cons.prems(2,3) by (simp add: exec_def)
    with Cons.IH [OF cs Cons.prems(2,3)] True show ?thesis by simp
  next
    case False
    then obtain p where p: "c = Kill p" using Cons.prems(1) by (auto simp: kills_def)
    let ?k = "exec (Kill p) k"
    have e: "status ?k = Running" "children ?k = children k" "threads ?k = threads k" "cancelled ?k = cancelled k"
      "ended ?k = ended k" "sem_value ?k = sem_value k" "set (signalled ?k) = set (signalled k) \<union> ({p} \<inter> children k)"
      using Cons.prems(2) by (simp_all add: exec_def)
    note ih = Cons.IH [OF cs e(1)]
    show ?thesis using ih Cons.prems(3) e by (auto simp: p)
  qed
qed

text \<open>Waiting for children that have ended or react to the signal they got.\<close>

definition waits :: "Call list \<Rightarrow> bool" where
  "waits cs \<longleftrightarrow> (\<forall>c\<in>set cs. (\<exists>p. c = WaitPid p) \<or> c = LogInfo True)"

lemma exec_wait:
  assumes "status k = Running" and "p \<in> children k \<Longrightarrow> p \<in> ended k \<or> p \<in> set (signalled k) \<and> reacts k p \<noteq> None"
  shows "status (exec (WaitPid p) k) = Running" "children (exec (WaitPid p) k) = children k - {p}"
    "threads (exec (WaitPid p) k) = threads k" "cancelled (exec (WaitPid p) k) = cancelled k"
    "signalled (exec (WaitPid p) k) = signalled k" "sem_value k s \<le> sem_value (exec (WaitPid p) k) s"
    "ended (exec (WaitPid p) k) \<subseteq> insert p (ended k)"
  using assms by (auto simp: exec_def react_def Let_def split: option.splits)

lemma execs_waits:
  assumes "waits cs" and "status k = Running" and "0 < sem_value k SemLogFile"
    and "\<And>p. WaitPid p \<in> set cs \<Longrightarrow> p \<in> children k \<Longrightarrow> p \<in> ended k \<or> p \<in> set (signalled k) \<and> reacts k p \<noteq> None"
  shows "status (execs cs k) = Running \<and> children (execs cs k) = children k - {p. WaitPid p \<in> set cs}
    \<and> threads (execs cs k) = threads k \<and> cancelled (execs cs k) = cancelled k \<and> signalled (execs cs k) = signalled k
    \<and> ended (execs cs k) \<subseteq> ended k \<union> {p. WaitPid p \<in> set cs} \<and> (\<forall>s. sem_value k s \<le> sem_value (execs cs k) s)"
  using assms
proof (induction cs arbitrary: k)
  case Nil
  then show ?case by simp
next
  case (Cons c cs)
  have cs: "waits cs" using Cons.prems(1) by (simp add: waits_def)
  show ?case
  proof (cases "c = LogInfo True")
    case True
    then have "exec c k = k" using Cons.prems(2,3) by (simp add: exec_def)
    with Cons.IH [OF cs Cons.prems(2,3)] Cons.prems(4) True show ?thesis by simp
  next
    case False
    then obtain p where p: "c = WaitPid p" using Cons.prems(1) by (auto simp: waits_def)
    let ?k = "exec (WaitPid p) k"
    have "p \<in> children k \<Longrightarrow> p \<in> ended k \<or> p \<in> set (signalled k) \<and> reacts k p \<noteq> None"
      using Cons.prems(4) p by simp
    note e = exec_wait [OF Cons.prems(2) this]
    have pos: "0 < sem_value ?k SemLogFile" using e(6) [of SemLogFile] Cons.prems(3) by linarith
    have hyp: "q \<in> ended ?k \<or> q \<in> set (signalled ?k) \<and> reacts ?k q \<noteq> None"
      if "WaitPid q \<in> set cs" "q \<in> children ?k" for q
    proof -
      have "q \<in> ended k \<or> q \<in> set (signalled k) \<and> reacts k q \<noteq> None"
        using Cons.prems(4) [of q] that e(2) by simp
      then show ?thesis using exec_children(2) [of k "WaitPid p"] e(5) exec_frame(1) [of "WaitPid p" k] by auto
    qed
    note ih = Cons.IH [OF cs e(1) pos hyp]
    have "sem_value k s \<le> sem_value (execs cs ?k) s" for s
      using e(6) [of s] ih order_trans by blast
    then show ?thesis using ih e(2-5,7) by (auto simp: p)
  qed
qed

text \<open>Waiting for a semaphore that a signalled child will post.\<close>

lemma exec_sem_wait:
  assumes "status k = Running" and "p \<in> set (signalled k)" and "p \<in> children k" and "p \<notin> ended k"
    and "reacts k p = Some posts" and "s \<in> set posts"
  shows "status (exec (SemWait True s) k) = Running" "children (exec (SemWait True s) k) = children k"
    "threads (exec (SemWait True s) k) = threads k" "cancelled (exec (SemWait True s) k) = cancelled k"
    "signalled (exec (SemWait True s) k) = signalled k"
    "t \<noteq> s \<Longrightarrow> sem_value k t \<le> sem_value (exec (SemWait True s) k) t"
proof -
  have "poster s k \<noteq> None" unfolding poster_def find_None_iff using assms(2-6) by auto
  then obtain q where q: "poster s k = Some q" by blast
  then obtain qs where r: "reacts k q = Some qs" "s \<in> set qs"
    unfolding poster_def by (auto simp: find_Some_iff split: option.splits)
  have "0 < count_list qs s" using r(2) by (metis count_list_0_iff gr0I)
  then show "status (exec (SemWait True s) k) = Running" "children (exec (SemWait True s) k) = children k"
    "threads (exec (SemWait True s) k) = threads k" "cancelled (exec (SemWait True s) k) = cancelled k"
    "signalled (exec (SemWait True s) k) = signalled k"
    "t \<noteq> s \<Longrightarrow> sem_value k t \<le> sem_value (exec (SemWait True s) k) t"
    using assms(1) q r(1) by (auto simp: exec_def react_def Let_def)
qed

end
