(* ===== verification/ControllerProc.thy ===== *)
theory ControllerProc
  imports Processes
begin

text \<open>
  Start-up and shutdown of the controller (\<open>src/Controller.c\<close>, \<open>main\<close>, \<open>cleanup\<close>, \<open>sigint\<close>). The
  start-up is a list of steps in the order of \<open>main\<close>; the results of the fallible calls are the
  record \<open>StartEnv\<close>, and a failing step ends with the clean-up and the exit of the code. The clean-up is
  the list of calls it makes; several messages in a row are one call. \<open>exit_failure\<close> and \<open>cleanup\<close> read
  the static variables as they are at that moment. The lemmas show what a shutdown leaves behind, in
  which order it works, and which early failures crash it.
\<close>

section \<open>State and clean-up\<close>

record Controller = Proc +
  pids :: "c_int list"
  validators :: "c_int list"
  validator_thread_created :: bool
  cleanup_called :: bool

definition controller0 :: Controller where
  "controller0 =
     \<lparr>log_file = False, sem_handle = (\<lambda>_. False), shm_fd = (\<lambda>_. 0), shm_base = (\<lambda>_. Null), pipe_fd = 0,
      queue_fd = 0, pids = [0, 0, 0], validators = [0, 0], validator_thread_created = False,
      cleanup_called = False\<rparr>"

text \<open>The processes: SIGTERM to the extra validators, wait for them, end the launcher, then SIGTERM to the
  miner, the validator (after the miner has signalled that the pipe is closed) and the statistics, and
  wait for them.\<close>

definition signal_validators :: "Controller \<Rightarrow> Call list" where
  "signal_validators c =
     [log_info c, log_info c] @ concat (map (\<lambda>p. if 0 < sint p then logged c (Kill p) else []) (validators c))"

definition wait_validators :: "Controller \<Rightarrow> Call list" where
  "wait_validators c = concat (map (\<lambda>p. if 0 < sint p then logged c (WaitPid p) else []) (validators c))"

definition stop_launcher :: "Controller \<Rightarrow> Call list" where
  "stop_launcher c = (if validator_thread_created c then CancelThread 0 # logged c (JoinThread 0) else [])"

definition signal_child :: "Controller \<Rightarrow> nat \<Rightarrow> Call list" where
  "signal_child c i =
     (if 0 < sint (pids c ! i)
      then (if i = 1 then [SemWait (sem_handle c SemPipeClosed) SemPipeClosed] else []) @
           [log_info c, Kill (pids c ! i)]
      else [])"

definition signal_children :: "Controller \<Rightarrow> Call list" where
  "signal_children c = log_info c # concat (map (signal_child c) [0, 1, 2])"

definition wait_children :: "Controller \<Rightarrow> Call list" where
  "wait_children c =
     log_info c # concat (map (\<lambda>i. if 0 < sint (pids c ! i) then logged c (WaitPid (pids c ! i)) else []) [0, 1, 2])"

definition end_processes :: "Controller \<Rightarrow> Call list" where
  "end_processes c =
     signal_validators c @ wait_validators c @ stop_launcher c @ signal_children c @ wait_children c"

text \<open>A segment of shared memory, and the last dump of the ledger (also on SIGUSR1).\<close>

definition release_segment :: "Controller \<Rightarrow> Segment \<Rightarrow> Call list" where
  "release_segment c seg = unmap c seg @ close_fd c (shm_fd c seg) @ logged c (ShmUnlink seg)"

definition locked_dump :: "Controller \<Rightarrow> Call list" where
  "locked_dump c = [log_info c, SemWait (sem_handle c SemLedger) SemLedger, log_info c, SemPost SemLedger]"

definition close_handles :: "Controller \<Rightarrow> Call list" where
  "close_handles c =
     close_semaphore c SemTransactionsPool @ close_semaphore c SemMinerWork @ close_semaphore c SemLedger @
     close_semaphore c SemPipeClosed @ close_fd c (queue_fd c)"

definition unlink_objects :: "Controller \<Rightarrow> Call list" where
  "unlink_objects c =
     concat (map (logged c)
       [SemUnlink SemTransactionsPool, SemUnlink SemLedger, SemUnlink SemMinerWork, SemUnlink SemPipeClosed,
        UnlinkPipe, MqUnlink]) @
     (if sem_handle c SemLogFile then [SemClose SemLogFile] else []) @ [SemUnlink SemLogFile] @ close_log c"

definition release_resources :: "Controller \<Rightarrow> Call list" where
  "release_resources c =
     release_segment c PoolSegment @ locked_dump c @ release_segment c LedgerSegment @ close_handles c @ unlink_objects c"

definition cleanup :: "Controller \<Rightarrow> Controller \<times> Call list" where
  "cleanup c =
     (if cleanup_called c then (c, [])
      else (c\<lparr>cleanup_called := True\<rparr>, end_processes c @ release_resources c))"

definition sigint_handler :: "Controller \<Rightarrow> Controller \<times> Call list" where
  "sigint_handler c =
     (if cleanup_called c then (c, [log_info c])
      else (case cleanup c of (c', cs) \<Rightarrow> (c', log_info c # cs)))"

definition handle_sigusr1 :: "Controller \<Rightarrow> Call list" where
  "handle_sigusr1 c = locked_dump c"

section \<open>Start-up\<close>

record StartEnv =
  fopen_ok :: bool
  sem_open_ok :: "Semaphore \<Rightarrow> bool"
  shm_open_result :: "Segment \<Rightarrow> c_int"
  ftruncate_ok :: "Segment \<Rightarrow> bool"
  mmap_ok :: "Segment \<Rightarrow> bool"
  mkfifo_ok :: bool
  mq_open_result :: c_int
  fork_result :: "nat \<Rightarrow> c_int"
  thread_ok :: bool

definition exit_failure :: "Controller \<Rightarrow> Kernel \<Rightarrow> Kernel" where
  "exit_failure c k = execs (log_info c # snd (cleanup c)) k"

type_synonym StartState = "Controller \<times> Kernel"
type_synonym StartStep = "StartState \<Rightarrow> Kernel + StartState"

text \<open>The first semaphore: a failure is reported on the terminal, not in the log.\<close>

definition create_log_semaphore :: "StartEnv \<Rightarrow> StartStep" where
  "create_log_semaphore env = (\<lambda>(c, k).
     (let ok = sem_open_ok env SemLogFile; c' = c\<lparr>sem_handle := (sem_handle c)(SemLogFile := ok)\<rparr>
      in if ok then Inr (c', exec (log_info c') (create_sem SemLogFile 1 k))
         else Inl (execs (snd (cleanup c')) k)))"

definition create_semaphore :: "StartEnv \<Rightarrow> Semaphore \<Rightarrow> nat \<Rightarrow> StartStep" where
  "create_semaphore env s init = (\<lambda>(c, k).
     (let ok = sem_open_ok env s; c' = c\<lparr>sem_handle := (sem_handle c)(s := ok)\<rparr>
      in if ok then Inr (c', execs (if s = SemMinerWork then [] else [log_info c']) (create_sem s init k))
         else Inl (exit_failure c' k)))"

definition create_segment :: "StartEnv \<Rightarrow> Segment \<Rightarrow> StartStep" where
  "create_segment env seg = (\<lambda>(c, k).
     (let fd = shm_open_result env seg; c1 = c\<lparr>shm_fd := (shm_fd c)(seg := fd)\<rparr>
      in if fd = - 1 then Inl (exit_failure c1 k)
         else let k1 = exec (log_info c1) (add_fd fd (add_name (ShmName seg) k))
         in if \<not> ftruncate_ok env seg then Inl (exit_failure c1 k1)
            else if \<not> mmap_ok env seg
            then Inl (exit_failure (c1\<lparr>shm_base := (shm_base c1)(seg := MapFailed)\<rparr>) k1)
            else Inr (c1\<lparr>shm_base := (shm_base c1)(seg := Mapped)\<rparr>, exec (log_info c1) (add_mapping seg k1))))"

definition create_pipe :: "StartEnv \<Rightarrow> StartStep" where
  "create_pipe env = (\<lambda>(c, k).
     if mkfifo_ok env then Inr (c, exec (log_info c) (add_name PipeName k)) else Inl (exit_failure c k))"

definition create_queue :: "StartEnv \<Rightarrow> StartStep" where
  "create_queue env = (\<lambda>(c, k).
     (let c' = c\<lparr>queue_fd := mq_open_result env\<rparr>
      in if mq_open_result env = - 1 then Inl (exit_failure c' k)
         else Inr (c', exec (log_info c') (add_fd (mq_open_result env) (add_name QueueName k)))))"

text \<open>\<open>fork\<close> in the parent: -1, or the number of the child.\<close>

definition fork_child :: "StartEnv \<Rightarrow> nat \<Rightarrow> StartStep" where
  "fork_child env i = (\<lambda>(c, k).
     (let p = fork_result env i; c' = c\<lparr>pids := (pids c)[i := p]\<rparr>
      in if p = - 1 then Inl (exit_failure c' k)
         else Inr (c', k\<lparr>children := insert p (children k)\<rparr>)))"

definition start_launcher :: "StartEnv \<Rightarrow> StartStep" where
  "start_launcher env = (\<lambda>(c, k).
     if thread_ok env
     then Inr (c\<lparr>validator_thread_created := True\<rparr>, exec (log_info c) (k\<lparr>threads := insert 0 (threads k)\<rparr>))
     else Inl (exit_failure c k))"

definition start_steps :: "StartEnv \<Rightarrow> StartStep list" where
  "start_steps env =
     [create_log_semaphore env, create_semaphore env SemTransactionsPool 1, create_semaphore env SemLedger 1,
      create_semaphore env SemMinerWork 0, create_semaphore env SemPipeClosed 0,
      create_segment env PoolSegment, create_segment env LedgerSegment, create_pipe env, create_queue env,
      fork_child env 0, fork_child env 1, fork_child env 2, start_launcher env]"

definition controller_start :: "StartEnv \<Rightarrow> Kernel \<Rightarrow> Kernel + StartState" where
  "controller_start env k =
     (if \<not> fopen_ok env then Inl k
      else run_steps (start_steps env) (controller0\<lparr>log_file := True\<rparr>, k\<lparr>log_open := True\<rparr>))"

text \<open>The end of \<open>main\<close>: it waits for the launcher, the extra validators and the three children.\<close>

definition wait_for_all :: "Controller \<Rightarrow> Call list" where
  "wait_for_all c = JoinThread 0 # wait_validators c @ concat (map (\<lambda>p. logged c (WaitPid p)) (pids c))"

definition controller_end :: "Controller \<Rightarrow> Kernel \<Rightarrow> Kernel" where
  "controller_end c k = execs (wait_for_all c @ snd (cleanup c)) k"

section \<open>Ending the processes\<close>

text \<open>The controller's variables account for everything the process holds.\<close>

definition owns :: "Controller \<Rightarrow> Kernel \<Rightarrow> bool" where
  "owns c k \<longleftrightarrow>
     children k \<subseteq> {p \<in> set (pids c) \<union> set (validators c). 0 < sint p} \<and>
     (\<forall>t\<in>threads k. t = 0 \<and> validator_thread_created c) \<and>
     (\<forall>seg\<in>mappings k. shm_base c seg = Mapped) \<and>
     (\<forall>s\<in>open_sems k. sem_handle c s) \<and>
     (log_open k \<longrightarrow> log_file c) \<and>
     open_fds k \<subseteq> {0, 1, 2} \<union> {shm_fd c PoolSegment, shm_fd c LedgerSegment, queue_fd c} - {- 1}"

text \<open>What a shutdown needs: the semaphores of the log and of the ledger are there and free, and the
  children react to SIGTERM, the miner by signalling that the pipe is closed.\<close>

definition can_shut_down :: "Controller \<Rightarrow> Kernel \<Rightarrow> bool" where
  "can_shut_down c k \<longleftrightarrow>
     status k = Running \<and> \<not> cleanup_called c \<and> logs c \<and> sem_handle c SemLedger \<and>
     0 < sem_value k SemLogFile \<and> 0 < sem_value k SemLedger \<and> length (pids c) = 3 \<and>
     (\<forall>p\<in>children k. reacts k p \<noteq> None) \<and>
     (0 < sint (pids c ! 1) \<longrightarrow>
        sem_handle c SemPipeClosed \<and> 0 < sint (pids c ! 0) \<and> pids c ! 0 \<in> children k \<and>
        (\<exists>posts. reacts k (pids c ! 0) = Some posts \<and> SemPipeClosed \<in> set posts) \<and>
        pids c ! 0 \<notin> set (validators c)) \<and>
     ended k = {}"

lemma logged_handle: "logs c \<Longrightarrow> logged c x = [x, LogInfo True]"
  by (simp add: logged_def log_info_handle)

lemma signal_validators_set:
  assumes "logs c"
  shows "kills (signal_validators c)" and "Kill p \<in> set (signal_validators c) \<longleftrightarrow> p \<in> set (validators c) \<and> 0 < sint p"
  using assms by (auto simp: kills_def signal_validators_def logged_handle log_info_handle split: if_splits)

lemma wait_validators_set:
  assumes "logs c"
  shows "waits (wait_validators c)" and "WaitPid p \<in> set (wait_validators c) \<longleftrightarrow> p \<in> set (validators c) \<and> 0 < sint p"
  using assms by (auto simp: waits_def wait_validators_def logged_handle split: if_splits)

lemma map_nth': "map (\<lambda>i. f (xs ! i)) [0..<length xs] = map f xs"
  by (rule nth_equalityI) simp_all

lemma wait_children_set:
  assumes "logs c" and "length (pids c) = 3"
  shows "waits (wait_children c)" and "WaitPid p \<in> set (wait_children c) \<longleftrightarrow> p \<in> set (pids c) \<and> 0 < sint p"
proof -
  let ?f = "\<lambda>p. if 0 < sint p then logged c (WaitPid p) else []"
  have "[0, 1, 2] = [0..<length (pids c)]" by (simp add: assms(2) upt_rec)
  then have "map (\<lambda>i. ?f (pids c ! i)) [0, 1, 2] = map ?f (pids c)" by (simp only: map_nth' [of ?f])
  then have w: "wait_children c = LogInfo True # concat (map ?f (pids c))"
    by (simp only: wait_children_def log_info_handle [OF assms(1)])
  show "waits (wait_children c)" "WaitPid p \<in> set (wait_children c) \<longleftrightarrow> p \<in> set (pids c) \<and> 0 < sint p"
    unfolding w using assms(1) by (auto simp: waits_def logged_handle split: if_splits)
qed

lemma stop_launcher_effect:
  assumes "logs c" and "status k = Running" and "0 < sem_value k SemLogFile"
    and "\<forall>t\<in>threads k. t = 0 \<and> validator_thread_created c"
  shows "status (execs (stop_launcher c) k) = Running \<and> threads (execs (stop_launcher c) k) = {}
    \<and> children (execs (stop_launcher c) k) = children k \<and> ended (execs (stop_launcher c) k) = ended k
    \<and> sem_value (execs (stop_launcher c) k) = sem_value k"
proof (cases "validator_thread_created c")
  case True
  let ?k = "k\<lparr>cancelled := insert 0 (cancelled k), threads := {}\<rparr>"
  have "threads k - {0} = {}" using assms(4) by blast
  then have "exec (JoinThread 0) (exec (CancelThread 0) k) = ?k"
    using assms(2,4) by (cases "0 \<in> threads k") (auto simp: exec_def)
  moreover have "exec (LogInfo True) ?k = ?k" using assms(2,3) by (simp add: exec_def)
  ultimately show ?thesis using assms(2) True by (simp add: stop_launcher_def logged_handle [OF assms(1)])
next
  case False
  then have "threads k = {}" using assms(4) by blast
  with False assms(2) show ?thesis by (simp add: stop_launcher_def)
qed

text \<open>The extra validators end and are collected, then the launcher.\<close>

lemma end_validators:
  assumes "can_shut_down c k" and "owns c k"
  defines "k' \<equiv> execs (signal_validators c @ wait_validators c @ stop_launcher c) k"
  shows "status k' = Running \<and> threads k' = {} \<and> children k' = children k - set (filter (\<lambda>p. 0 < sint p) (validators c))
    \<and> ended k' \<subseteq> set (validators c) \<and> (\<forall>s. sem_value k s \<le> sem_value k' s)"
proof -
  have h: "logs c" and run: "status k = Running" and v: "0 < sem_value k SemLogFile"
    and re: "\<And>p. p \<in> children k \<Longrightarrow> reacts k p \<noteq> None" and e: "ended k = {}"
    using assms(1) by (auto simp: can_shut_down_def)
  define k1 where "k1 = execs (signal_validators c) k"
  define k2 where "k2 = execs (wait_validators c) k1"
  note e1 = execs_kills [OF signal_validators_set(1) [OF h] run v, folded k1_def]
  have v1: "0 < sem_value k1 SemLogFile" using e1 v by simp
  have "WaitPid p \<in> set (wait_validators c) \<Longrightarrow> p \<in> children k1 \<Longrightarrow> p \<in> ended k1 \<or> p \<in> set (signalled k1) \<and> reacts k1 p \<noteq> None" for p
    using e1 re by (simp add: wait_validators_set(2) [OF h] signal_validators_set(2) [OF h] k1_def execs_reacts)
  note e2 = execs_waits [OF wait_validators_set(1) [OF h] _ v1 this, folded k2_def]
  have run1: "status k1 = Running" using e1 by simp
  have v2: "0 < sem_value k2 SemLogFile" using e2 [OF run1] v1 by (metis less_le_trans)
  have "threads k2 = threads k" using e1 e2 by simp
  then have "\<forall>t\<in>threads k2. t = 0 \<and> validator_thread_created c" using assms(2) by (simp add: owns_def)
  note e3 = stop_launcher_effect [OF h _ v2 this]
  have w: "{p. WaitPid p \<in> set (wait_validators c)} = set (filter (\<lambda>p. 0 < sint p) (validators c))"
    by (auto simp: wait_validators_set(2) [OF h])
  have k': "k' = execs (stop_launcher c) k2" by (simp add: k'_def k2_def k1_def)
  have "ended k' \<subseteq> set (validators c)" using e1 e2 [OF run1] e3 e w by (auto simp: k')
  moreover have "sem_value k s \<le> sem_value k' s" for s using e1 e2 [OF run1] e3 by (simp add: k')
  ultimately show ?thesis using e1 e2 [OF run1] e3 w by (simp add: k')
qed

text \<open>The three children: the validator is signalled after the wait for \<open>sem_pipeclosed\<close>, which the
  miner has posted before it ended.\<close>

definition signal_miner :: "Controller \<Rightarrow> Call list" where
  "signal_miner c = log_info c # signal_child c 0"

definition signal_rest :: "Controller \<Rightarrow> Call list" where
  "signal_rest c =
     (if 0 < sint (pids c ! 1) then [log_info c, Kill (pids c ! 1)] else []) @ signal_child c 2"

definition wait_for_miner :: "Controller \<Rightarrow> Call list" where
  "wait_for_miner c = (if 0 < sint (pids c ! 1) then [SemWait (sem_handle c SemPipeClosed) SemPipeClosed] else [])"

lemma signal_children_parts: "signal_children c = signal_miner c @ wait_for_miner c @ signal_rest c"
  by (simp add: signal_children_def signal_miner_def signal_rest_def wait_for_miner_def signal_child_def)

lemma signal_parts_kills:
  assumes "logs c"
  shows "kills (signal_miner c)" "kills (signal_rest c)"
    and "Kill p \<in> set (signal_miner c) \<longleftrightarrow> p = pids c ! 0 \<and> 0 < sint p"
    and "Kill p \<in> set (signal_rest c) \<longleftrightarrow> (p = pids c ! 1 \<or> p = pids c ! 2) \<and> 0 < sint p"
  using log_info_handle [OF assms] by (auto simp: kills_def signal_miner_def signal_rest_def signal_child_def)

lemma three_pids: "length (pids c) = 3 \<Longrightarrow> set (pids c) = {pids c ! 0, pids c ! 1, pids c ! 2}"
  by (auto simp: set_conv_nth numeral_3_eq_3 less_Suc_eq numeral_2_eq_2)

lemma end_children:
  assumes h: "logs c" and len: "length (pids c) = 3"
    and run: "status k = Running" and v: "0 < sem_value k SemLogFile"
    and re: "\<And>p. p \<in> children k \<Longrightarrow> reacts k p \<noteq> None"
    and miner: "0 < sint (pids c ! 1) \<Longrightarrow>
        sem_handle c SemPipeClosed \<and> 0 < sint (pids c ! 0) \<and> pids c ! 0 \<in> children k \<and>
        (\<exists>posts. reacts k (pids c ! 0) = Some posts \<and> SemPipeClosed \<in> set posts) \<and> pids c ! 0 \<notin> ended k"
  defines "k' \<equiv> execs (signal_children c @ wait_children c) k"
  shows "status k' = Running \<and> threads k' = threads k
    \<and> children k' = children k - set (filter (\<lambda>p. 0 < sint p) (pids c))
    \<and> (\<forall>s. s \<noteq> SemPipeClosed \<longrightarrow> sem_value k s \<le> sem_value k' s)"
proof -
  define k1 where "k1 = execs (signal_miner c) k"
  define k2 where "k2 = execs (wait_for_miner c) k1"
  define k3 where "k3 = execs (signal_rest c) k2"
  note e1 = execs_kills [OF signal_parts_kills(1) [OF h] run v, folded k1_def]
  have e2: "status k2 = Running \<and> children k2 = children k \<and> threads k2 = threads k \<and> signalled k2 = signalled k1
    \<and> (\<forall>s. s \<noteq> SemPipeClosed \<longrightarrow> sem_value k1 s \<le> sem_value k2 s)"
  proof (cases "0 < sint (pids c ! 1)")
    case True
    from miner [OF True] obtain posts where m: "sem_handle c SemPipeClosed" "0 < sint (pids c ! 0)" "pids c ! 0 \<in> children k"
      "reacts k (pids c ! 0) = Some posts" "SemPipeClosed \<in> set posts" "pids c ! 0 \<notin> ended k" by blast
    have "Kill (pids c ! 0) \<in> set (signal_miner c)" using m(2) by (simp add: signal_parts_kills(3) [OF h])
    then have "pids c ! 0 \<in> set (signalled k1)" using e1 m(3) by blast
    moreover have "status k1 = Running" "pids c ! 0 \<in> children k1" "pids c ! 0 \<notin> ended k1" "reacts k1 (pids c ! 0) = Some posts"
      using e1 m by (simp_all add: k1_def execs_reacts)
    ultimately show ?thesis
      using exec_sem_wait [of k1 "pids c ! 0" posts SemPipeClosed] m(1,5) e1 True by (simp add: k2_def wait_for_miner_def)
  next
    case False
    then show ?thesis using e1 by (simp add: k2_def wait_for_miner_def)
  qed
  have v2: "s \<noteq> SemPipeClosed \<Longrightarrow> sem_value k s \<le> sem_value k2 s" for s using e1 e2 by simp
  then have pos2: "0 < sem_value k2 SemLogFile" using v by (metis Semaphore.distinct(7) less_le_trans)
  have run2: "status k2 = Running" using e2 by simp
  note e3 = execs_kills [OF signal_parts_kills(2) [OF h] run2 pos2, folded k3_def]
  have run3: "status k3 = Running" and pos3: "0 < sem_value k3 SemLogFile" using e3 pos2 by simp_all
  have "WaitPid p \<in> set (wait_children c) \<Longrightarrow> p \<in> children k3 \<Longrightarrow> p \<in> ended k3 \<or> p \<in> set (signalled k3) \<and> reacts k3 p \<noteq> None" for p
    using e1 e2 e3 re
    by (auto simp: wait_children_set(2) [OF h len] three_pids [OF len] signal_parts_kills(3,4) [OF h] k3_def k2_def k1_def execs_reacts)
  note e4 = execs_waits [OF wait_children_set(1) [OF h len] run3 pos3 this]
  have "{p. WaitPid p \<in> set (wait_children c)} = set (filter (\<lambda>p. 0 < sint p) (pids c))"
    by (auto simp: wait_children_set(2) [OF h len])
  moreover have "k' = execs (wait_children c) k3" by (simp add: k'_def k3_def k2_def k1_def signal_children_parts)
  moreover have "s \<noteq> SemPipeClosed \<Longrightarrow> sem_value k s \<le> sem_value k3 s" for s
    using v2 e3 by simp
  moreover have "sem_value k3 s \<le> sem_value (execs (wait_children c) k3) s" for s using e4 by blast
  ultimately have "children k' = children k - set (filter (\<lambda>p. 0 < sint p) (pids c))"
    "s \<noteq> SemPipeClosed \<Longrightarrow> sem_value k s \<le> sem_value k' s" for s
    using e2 e3 e4 order_trans [of "sem_value k s" "sem_value k3 s" "sem_value k' s"] by simp_all
  then show ?thesis using e2 e3 e4 \<open>k' = _\<close> by simp
qed

lemma end_processes_effect:
  assumes "can_shut_down c k" and "owns c k"
  defines "k' \<equiv> execs (end_processes c) k"
  shows "status k' = Running \<and> threads k' = {} \<and> children k' = {}
    \<and> 0 < sem_value k' SemLogFile \<and> 0 < sem_value k' SemLedger"
proof -
  define k1 where "k1 = execs (signal_validators c @ wait_validators c @ stop_launcher c) k"
  have k': "k' = execs (signal_children c @ wait_children c) k1" by (simp add: k'_def k1_def end_processes_def)
  note e1 = end_validators [OF assms(1,2), folded k1_def]
  have h: "logs c" "length (pids c) = 3" "0 < sem_value k SemLogFile" "0 < sem_value k SemLedger"
    using assms(1) by (simp_all add: can_shut_down_def)
  have re: "p \<in> children k1 \<Longrightarrow> reacts k1 p \<noteq> None" for p
    using assms(1) e1 by (simp add: can_shut_down_def k1_def execs_reacts)
  have v: "0 < sem_value k1 SemLogFile" "0 < sem_value k1 SemLedger" using e1 h(3,4) by (metis less_le_trans)+
  have "0 < sint (pids c ! 1) \<Longrightarrow> sem_handle c SemPipeClosed \<and> 0 < sint (pids c ! 0) \<and> pids c ! 0 \<in> children k1 \<and>
      (\<exists>posts. reacts k1 (pids c ! 0) = Some posts \<and> SemPipeClosed \<in> set posts) \<and> pids c ! 0 \<notin> ended k1"
    using assms(1) e1 by (auto simp: can_shut_down_def k1_def execs_reacts)
  note e2 = end_children [OF h(1,2) _ v(1) re this, folded k']
  have "children k' = {}" using e1 e2 assms(2) by (auto simp: owns_def)
  moreover have "0 < sem_value k' SemLogFile" "0 < sem_value k' SemLedger"
    using e1 e2 v by (metis Semaphore.distinct(7) Semaphore.distinct(17) less_le_trans)+
  ultimately show ?thesis using e1 e2 by simp
qed

section \<open>Releasing everything\<close>

lemma end_processes_calls: "\<forall>x\<in>set (end_processes c). \<not> releases x"
  by (auto simp: end_processes_def signal_validators_def wait_validators_def stop_launcher_def signal_children_def
      signal_child_def wait_children_def logged_def log_info_def split: if_splits)

lemma quiet_parts:
  assumes "logs c"
  shows "quiet (unmap c seg)" "quiet (close_fd c d)" "quiet (close_semaphore c s)" "quiet (close_log c)"
    "quiet (release_segment c seg)" "quiet (close_handles c)" "quiet (unlink_objects c)"
  using assms by (simp_all add: unmap_def close_fd_def close_semaphore_def close_log_def release_segment_def
      close_handles_def unlink_objects_def logged_handle)

lemma locked_dump_effect:
  assumes "logs c" "sem_handle c SemLedger" and "status k = Running"
    and "0 < sem_value k SemLogFile" "0 < sem_value k SemLedger"
  shows "execs (locked_dump c) k = k"
proof -
  have "(sem_value k)(SemLedger := sem_value k SemLedger - 1 + 1) = sem_value k" using assms(5) by auto
  then show ?thesis using assms by (simp add: locked_dump_def log_info_handle exec_def)
qed

lemma all_names: "ns - ({ShmName PoolSegment} \<union> ({ShmName LedgerSegment} \<union> {SemName SemTransactionsPool, SemName SemLedger,
    SemName SemMinerWork, SemName SemPipeClosed, PipeName, QueueName, SemName SemLogFile})) = {}"
proof -
  have "n \<in> {ShmName PoolSegment} \<union> ({ShmName LedgerSegment} \<union> {SemName SemTransactionsPool, SemName SemLedger,
      SemName SemMinerWork, SemName SemPipeClosed, PipeName, QueueName, SemName SemLogFile})" for n
  proof (cases n)
    case (SemName s)
    then show ?thesis by (cases s) simp_all
  next
    case (ShmName seg)
    then show ?thesis by (cases seg) simp_all
  qed simp_all
  then show ?thesis by blast
qed

text \<open>Which calls of the two parts name what.\<close>

definition release_rest :: "Controller \<Rightarrow> Call list" where
  "release_rest c = release_segment c LedgerSegment @ close_handles c @ unlink_objects c"

lemma release_parts:
  assumes "logs c"
  shows "\<Union> (removed ` set (release_segment c PoolSegment)) = {ShmName PoolSegment}"
    and "\<Union> (removed ` set (release_rest c)) = {ShmName LedgerSegment} \<union> {SemName SemTransactionsPool, SemName SemLedger,
      SemName SemMinerWork, SemName SemPipeClosed, PipeName, QueueName, SemName SemLogFile}"
    and "shm_base c seg = Mapped \<Longrightarrow> Munmap seg Mapped \<in> set (release_segment c seg)"
    and "shm_base c LedgerSegment = Mapped \<Longrightarrow> Munmap LedgerSegment Mapped \<in> set (release_rest c)"
    and "sem_handle c s \<Longrightarrow> SemClose s \<in> set (release_rest c)"
    and "log_file c \<Longrightarrow> CloseLog \<in> set (release_rest c)"
    and "shm_fd c seg \<noteq> - 1 \<Longrightarrow> Close (shm_fd c seg) \<in> set (release_segment c seg)"
    and "shm_fd c LedgerSegment \<noteq> - 1 \<Longrightarrow> Close (shm_fd c LedgerSegment) \<in> set (release_rest c)"
    and "queue_fd c \<noteq> - 1 \<Longrightarrow> Close (queue_fd c) \<in> set (release_rest c)"
proof -
  note defs = release_rest_def release_segment_def unmap_def close_fd_def close_handles_def close_semaphore_def
    unlink_objects_def close_log_def logged_handle [OF assms] assms
  have none: "\<Union> (removed ` set (unmap c seg)) = {}" "\<Union> (removed ` set (close_fd c d)) = {}"
    "\<Union> (removed ` set (close_semaphore c s)) = {}" "\<Union> (removed ` set (close_log c)) = {}" for seg d s
    by (auto simp: defs)
  have seg: "\<Union> (removed ` set (release_segment c seg)) = {ShmName seg}" for seg
    unfolding release_segment_def set_append image_Un Union_Un_distrib none by (simp add: defs)
  then show "\<Union> (removed ` set (release_segment c PoolSegment)) = {ShmName PoolSegment}" .
  show "\<Union> (removed ` set (release_rest c)) = {ShmName LedgerSegment} \<union> {SemName SemTransactionsPool, SemName SemLedger,
      SemName SemMinerWork, SemName SemPipeClosed, PipeName, QueueName, SemName SemLogFile}"
    unfolding release_rest_def unlink_objects_def close_handles_def set_append image_Un Union_Un_distrib seg none
    using assms by (simp add: logged_handle) blast
  show "shm_base c seg = Mapped \<Longrightarrow> Munmap seg Mapped \<in> set (release_segment c seg)"
    and "shm_base c LedgerSegment = Mapped \<Longrightarrow> Munmap LedgerSegment Mapped \<in> set (release_rest c)"
    and "log_file c \<Longrightarrow> CloseLog \<in> set (release_rest c)"
    and "shm_fd c seg \<noteq> - 1 \<Longrightarrow> Close (shm_fd c seg) \<in> set (release_segment c seg)"
    and "shm_fd c LedgerSegment \<noteq> - 1 \<Longrightarrow> Close (shm_fd c LedgerSegment) \<in> set (release_rest c)"
    and "queue_fd c \<noteq> - 1 \<Longrightarrow> Close (queue_fd c) \<in> set (release_rest c)"
    by (simp_all add: defs)
  show "sem_handle c s \<Longrightarrow> SemClose s \<in> set (release_rest c)" by (cases s) (simp_all add: defs)
qed

lemma release_resources_effect:
  assumes h: "logs c" "sem_handle c SemLedger" and run: "status k = Running"
    and v: "0 < sem_value k SemLogFile" "0 < sem_value k SemLedger"
    and "\<forall>seg\<in>mappings k. shm_base c seg = Mapped" and "\<forall>s\<in>open_sems k. sem_handle c s"
    and "log_open k \<longrightarrow> log_file c"
    and fds: "open_fds k \<subseteq> {0, 1, 2} \<union> {shm_fd c PoolSegment, shm_fd c LedgerSegment, queue_fd c} - {- 1}"
  defines "k' \<equiv> execs (release_resources c) k"
  shows "status k' = Running \<and> object_names k' = {} \<and> mappings k' = {} \<and> open_sems k' = {} \<and> \<not> log_open k'
    \<and> open_fds k' \<subseteq> {0, 1, 2} \<and> children k' = children k \<and> threads k' = threads k"
proof -
  define k1 where "k1 = execs (release_segment c PoolSegment) k"
  have q1: "quiet (release_segment c PoolSegment)" and q2: "quiet (release_rest c)"
    using quiet_parts [OF h(1)] by (simp_all add: release_rest_def)
  have p1: "same_processes k k1" using execs_quiet [OF q1 v(1)] by (simp add: k1_def)
  note o1 = execs_quiet_objects [OF q1 v(1) run, folded k1_def]
  have s1: "status k1 = Running" "0 < sem_value k1 SemLogFile" "0 < sem_value k1 SemLedger"
    using p1 run v by (simp_all add: same_processes_def)
  have k': "k' = execs (release_rest c) k1"
    using locked_dump_effect [OF h s1] by (simp add: k'_def release_resources_def k1_def release_rest_def)
  have p2: "same_processes k1 k'" using execs_quiet [OF q2 s1(2)] by (simp add: k')
  note o2 = execs_quiet_objects [OF q2 s1(2,1), folded k']
  note parts = release_parts [OF h(1)]
  have "object_names k' = {}"
    unfolding o2(1) o1(1) parts(1,2) Diff_Diff_Int [symmetric] using all_names by blast
  moreover have "mappings k' = {}"
  proof -
    have "seg \<notin> mappings k'" for seg
      using assms(6) parts(3) [of PoolSegment] parts(4) unfolding o2(3) o1(3) by (cases seg) auto
    then show ?thesis by blast
  qed
  moreover have "open_sems k' = {}" using assms(7) parts(5) unfolding o2(4) o1(4) by blast
  moreover have "\<not> log_open k'" using assms(8) parts(6) unfolding o2(5) o1(5) by blast
  moreover have "open_fds k' \<subseteq> {0, 1, 2}"
    using fds parts(7) [of PoolSegment] parts(8,9) unfolding o2(2) o1(2) by auto
  ultimately show ?thesis using p1 p2 run by (simp add: same_processes_def)
qed

text \<open>A whole shutdown.\<close>

lemma shutdown_effect:
  assumes "can_shut_down c k" and "owns c k"
  defines "k' \<equiv> execs (snd (cleanup c)) k"
  shows "status k' = Running \<and> object_names k' = {} \<and> mappings k' = {} \<and> open_sems k' = {} \<and> \<not> log_open k'
    \<and> open_fds k' \<subseteq> {0, 1, 2} \<and> children k' = {} \<and> threads k' = {}"
proof -
  define k1 where "k1 = execs (end_processes c) k"
  note e1 = end_processes_effect [OF assms(1,2), folded k1_def]
  note same = execs_keeps_objects [OF end_processes_calls, of c k, folded k1_def]
  have h: "logs c" "sem_handle c SemLedger" and nc: "\<not> cleanup_called c"
    using assms(1) by (simp_all add: can_shut_down_def)
  have "k' = execs (release_resources c) k1" by (simp add: k'_def cleanup_def nc k1_def)
  moreover have "status k1 = Running" "0 < sem_value k1 SemLogFile" "0 < sem_value k1 SemLedger"
    using e1 by simp_all
  ultimately show ?thesis
    using release_resources_effect [OF h, of k1] assms(2) e1 by (simp add: owns_def same)
qed

section \<open>Every stage of the start-up can be undone\<close>

definition clean :: "Kernel \<Rightarrow> bool" where
  "clean k \<longleftrightarrow> status k = Running \<and> object_names k = {} \<and> mappings k = {} \<and> open_sems k = {} \<and> \<not> log_open k
    \<and> open_fds k \<subseteq> {0, 1, 2} \<and> children k = {} \<and> threads k = {}"

lemma exit_failure_clean:
  assumes "can_shut_down c k" and "owns c k"
  shows "clean (exit_failure c k)"
proof -
  have "logs c" "0 < sem_value k SemLogFile" "status k = Running"
    using assms(1) by (simp_all add: can_shut_down_def)
  then have "exec (log_info c) k = k" by (simp add: log_info_handle exec_def)
  then show ?thesis using shutdown_effect [OF assms] by (simp add: exit_failure_def clean_def)
qed

text \<open>A stage: the semaphores \<open>S\<close>, segments \<open>M\<close> and the first \<open>n\<close> children exist, and the queue if \<open>q\<close>.\<close>

definition stage :: "(c_int \<Rightarrow> Semaphore list option) \<Rightarrow> Semaphore set \<Rightarrow> Segment set \<Rightarrow> bool \<Rightarrow> nat \<Rightarrow> StartState \<Rightarrow> bool" where
  "stage R S M q n = (\<lambda>(c, k).
     owns c k \<and> can_shut_down c k \<and> validators c = [0, 0] \<and> reacts k = R \<and>
     (\<forall>s. sem_handle c s \<longleftrightarrow> s \<in> S) \<and> (\<forall>seg. seg \<notin> M \<longrightarrow> shm_fd c seg = 0 \<and> seg \<notin> mappings k) \<and>
     (\<not> q \<longrightarrow> queue_fd c = 0) \<and> (\<forall>i<3. n \<le> i \<longrightarrow> pids c ! i = 0) \<and>
     (0 < n \<longrightarrow> SemPipeClosed \<in> S \<and> 0 < sint (pids c ! 0) \<and> pids c ! 0 \<in> children k \<and>
        (\<exists>posts. R (pids c ! 0) = Some posts \<and> SemPipeClosed \<in> set posts)))"

text \<open>A step from one stage to the next: when it fails everything is undone.\<close>

definition advances :: "(StartState \<Rightarrow> bool) \<Rightarrow> StartStep \<Rightarrow> (StartState \<Rightarrow> bool) \<Rightarrow> bool" where
  "advances P f Q \<longleftrightarrow> (\<forall>s. P s \<longrightarrow> (case f s of Inl k \<Rightarrow> clean k | Inr s' \<Rightarrow> Q s'))"

definition well_started :: "Kernel + StartState \<Rightarrow> bool" where
  "well_started r \<longleftrightarrow> (case r of Inl k \<Rightarrow> clean k | Inr (c, k) \<Rightarrow> owns c k \<and> can_shut_down c k)"

lemma run_steps_advance:
  assumes "P s" and "advances P f Q" and "\<And>s'. Q s' \<Longrightarrow> well_started (run_steps fs s')"
  shows "well_started (run_steps (f # fs) s)"
proof (cases "f s")
  case (Inl k)
  have "case f s of Inl k \<Rightarrow> clean k | Inr s' \<Rightarrow> Q s'" using assms(1,2) unfolding advances_def by blast
  with Inl show ?thesis by (simp add: well_started_def)
next
  case (Inr s')
  have "case f s of Inl k \<Rightarrow> clean k | Inr s' \<Rightarrow> Q s'" using assms(1,2) unfolding advances_def by blast
  with Inr assms(3) show ?thesis by simp
qed

lemma can_shut_down_frame:
  assumes "can_shut_down c k"
    and "status k' = status k" "sem_value k' SemLogFile = sem_value k SemLogFile"
    "sem_value k' SemLedger = sem_value k SemLedger" "children k' = children k" "reacts k' = reacts k"
    "ended k' = ended k"
    and "cleanup_called c' = cleanup_called c" "pids c' = pids c" "validators c' = validators c"
    and "logs c'" "sem_handle c' SemLedger"
    and "0 < sint (pids c ! 1) \<Longrightarrow> sem_handle c' SemPipeClosed"
  shows "can_shut_down c' k'"
  using assms unfolding can_shut_down_def by simp

lemma log_no_effect:
  "can_shut_down c k \<Longrightarrow> status k' = Running \<Longrightarrow> sem_value k' SemLogFile = sem_value k SemLogFile \<Longrightarrow>
   logs c' \<Longrightarrow> exec (log_info c') k' = k'"
  by (simp add: can_shut_down_def log_info_handle exec_def)

lemma create_semaphore_advances:
  assumes "s \<notin> S" and "s \<in> {SemMinerWork, SemPipeClosed}"
  shows "advances (stage R S {} False 0) (create_semaphore env s init) (stage R (insert s S) {} False 0)"
  unfolding advances_def
proof (intro allI impI)
  fix st
  assume "stage R S {} False 0 st"
  moreover obtain c k where st: "st = (c, k)" by (cases st)
  ultimately have o: "owns c k" and d: "can_shut_down c k" and h: "\<And>x. sem_handle c x \<longleftrightarrow> x \<in> S"
    and rest: "validators c = [0, 0]" "reacts k = R" "\<And>seg. shm_fd c seg = 0" "mappings k = {}" "queue_fd c = 0"
      "\<And>i. i < 3 \<Longrightarrow> pids c ! i = 0"
    by (auto simp: stage_def)
  have base: "logs c" "sem_handle c SemLedger" "status k = Running" using d by (simp_all add: can_shut_down_def)
  let ?c = "c\<lparr>sem_handle := (sem_handle c)(s := sem_open_ok env s)\<rparr>"
  have ne: "s \<noteq> SemLogFile" "s \<noteq> SemLedger" using assms(2) by auto
  have p1: "\<not> 0 < sint (pids c ! 1)" using rest(6) [of 1] by simp
  show "case create_semaphore env s init st of Inl k \<Rightarrow> clean k | Inr s' \<Rightarrow> stage R (insert s S) {} False 0 s'"
  proof (cases "sem_open_ok env s")
    case False
    have "s \<notin> open_sems k" using o h assms(1) by (auto simp: owns_def)
    then have "owns ?c k" using o False by (auto simp: owns_def)
    moreover have "can_shut_down ?c k" by (rule can_shut_down_frame [OF d]) (use base ne p1 in simp_all)
    ultimately show ?thesis using exit_failure_clean False by (simp add: st create_semaphore_def)
  next
    case True
    let ?k = "create_sem s init k"
    have k: "status ?k = Running" "ended ?k = ended k" "sem_value ?k SemLogFile = sem_value k SemLogFile" "sem_value ?k SemLedger = sem_value k SemLedger"
      "children ?k = children k" "reacts ?k = reacts k" "threads ?k = threads k" "mappings ?k = mappings k"
      "open_sems ?k = insert s (open_sems k)" "log_open ?k = log_open k" "open_fds ?k = open_fds k"
      using base ne by (simp_all add: create_sem_def Let_def)
    have "owns ?c ?k" using o True by (auto simp: owns_def k)
    moreover have "can_shut_down ?c ?k" by (rule can_shut_down_frame [OF d]) (use base ne p1 k in simp_all)
    moreover have "execs (if s = SemMinerWork then [] else [log_info ?c]) ?k = ?k"
      using log_no_effect [OF d, of ?k ?c] k base ne by simp
    ultimately have "create_semaphore env s init st = Inr (?c, ?k)" "owns ?c ?k" "can_shut_down ?c ?k"
      using True by (simp_all only: st create_semaphore_def prod.case Let_def if_True)
    moreover have "sem_handle ?c x \<longleftrightarrow> x \<in> insert s S" for x using h True by simp
    ultimately show ?thesis using rest k by (simp add: stage_def del: fun_upd_apply)
  qed
qed

text \<open>Results of the calls: a new descriptor is not one of the standard streams, a child has a positive
  number.\<close>

definition results_ok :: "StartEnv \<Rightarrow> bool" where
  "results_ok env \<longleftrightarrow> (\<forall>i. fork_result env i = - 1 \<or> 0 < sint (fork_result env i))"

lemma create_segment_advances:
  assumes "seg \<notin> M"
  shows "advances (stage R S M False 0) (create_segment env seg) (stage R S (insert seg M) False 0)"
  unfolding advances_def
proof (intro allI impI)
  fix st
  assume "stage R S M False 0 st"
  moreover obtain c k where st: "st = (c, k)" by (cases st)
  ultimately have o: "owns c k" and d: "can_shut_down c k" and h: "\<And>x. sem_handle c x \<longleftrightarrow> x \<in> S"
    and rest: "validators c = [0, 0]" "reacts k = R" "\<And>x. x \<notin> M \<Longrightarrow> shm_fd c x = 0 \<and> x \<notin> mappings k" "queue_fd c = 0"
      "\<And>i. i < 3 \<Longrightarrow> pids c ! i = 0"
    by (simp_all add: stage_def)
  have base: "logs c" "sem_handle c SemLedger" "status k = Running" using d by (simp_all add: can_shut_down_def)
  have new: "shm_fd c seg = 0" "seg \<notin> mappings k" using rest(3) assms by blast+
  have p1: "\<not> 0 < sint (pids c ! 1)" using rest(5) [of 1] by simp
  let ?fd = "shm_open_result env seg"
  let ?c1 = "c\<lparr>shm_fd := (shm_fd c)(seg := ?fd)\<rparr>"
  let ?k1 = "add_fd ?fd (add_name (ShmName seg) k)"
  let ?k2 = "add_mapping seg ?k1"
  let ?failed = "?c1\<lparr>shm_base := (shm_base ?c1)(seg := MapFailed)\<rparr>"
  let ?done = "?c1\<lparr>shm_base := (shm_base ?c1)(seg := Mapped)\<rparr>"
  have o0: "owns ?c1 k" using o new by (cases seg) (auto simp: owns_def)
  have o1: "owns ?c1 ?k1" if "?fd \<noteq> - 1" using o new that by (cases seg) (auto simp: owns_def add_fd_def add_name_def)
  have o2: "owns ?failed ?k1" if "?fd \<noteq> - 1" using o1 [OF that] new by (auto simp: owns_def add_fd_def add_name_def)
  have o3: "owns ?done ?k2" if "?fd \<noteq> - 1" using o1 [OF that] new by (auto simp: owns_def add_fd_def add_name_def add_mapping_def)
  have d': "can_shut_down c' k'" if "c' \<in> {?c1, ?failed, ?done}" "k' \<in> {k, ?k1, ?k2}" for c' k'
    by (rule can_shut_down_frame [OF d]) (use base p1 that in \<open>auto simp: add_fd_def add_name_def add_mapping_def\<close>)
  have l: "exec (log_info ?c1) k' = k'" if "k' \<in> {?k1, ?k2}" for k'
    by (rule log_no_effect [OF d]) (use base that in \<open>auto simp: add_fd_def add_name_def add_mapping_def\<close>)
  show "case create_segment env seg st of Inl k \<Rightarrow> clean k | Inr s' \<Rightarrow> stage R S (insert seg M) False 0 s'"
  proof (cases "?fd = - 1")
    case True
    then show ?thesis using exit_failure_clean [OF d' o0] by (simp add: st create_segment_def Let_def)
  next
    case False
    consider "\<not> ftruncate_ok env seg" | "ftruncate_ok env seg" "\<not> mmap_ok env seg" | "ftruncate_ok env seg" "mmap_ok env seg"
      by blast
    then show ?thesis
    proof cases
      case 1
      then show ?thesis using exit_failure_clean [OF d' o1 [OF False]] False l by (simp add: st create_segment_def Let_def)
    next
      case 2
      then show ?thesis using exit_failure_clean [OF d' o2 [OF False]] False l by (simp add: st create_segment_def Let_def)
    next
      case 3
      have "create_segment env seg st = Inr (?done, ?k2)" using 3 False l by (simp add: st create_segment_def Let_def)
      moreover have "stage R S (insert seg M) False 0 (?done, ?k2)"
        using o3 [OF False] d' [of ?done ?k2] h rest
        by (auto simp: stage_def add_fd_def add_name_def add_mapping_def)
      ultimately show ?thesis by simp
    qed
  qed
qed

lemma stageD:
  assumes "stage R S M q n (c, k)"
  shows "owns c k" "can_shut_down c k" "validators c = [0, 0]" "reacts k = R" "sem_handle c x \<longleftrightarrow> x \<in> S"
    "\<not> q \<Longrightarrow> queue_fd c = 0" "i < 3 \<Longrightarrow> n \<le> i \<Longrightarrow> pids c ! i = 0"
    "status k = Running" "logs c" "sem_handle c SemLedger" "length (pids c) = 3"
    "0 < sem_value k SemLogFile"
  using assms by (auto simp: stage_def can_shut_down_def)

lemma stage_log: "stage R S M q n (c, k) \<Longrightarrow> exec (log_info c) k = k"
  using stageD(8,9,12) by (simp add: log_info_handle exec_def)

lemma create_pipe_advances:
  "advances (stage R S M False 0) (create_pipe env) (stage R S M False 0)"
  unfolding advances_def
proof (intro allI impI)
  fix st
  assume s: "stage R S M False 0 st"
  obtain c k where st: "st = (c, k)" by (cases st)
  let ?k = "add_name PipeName k"
  have "can_shut_down c ?k"
    by (rule can_shut_down_frame [OF stageD(2) [OF s [unfolded st]]])
       (use stageD [OF s [unfolded st]] in \<open>auto simp: add_name_def can_shut_down_def\<close>)
  moreover have "owns c ?k" using stageD(1) [OF s [unfolded st]] by (simp add: owns_def add_name_def)
  ultimately have s': "stage R S M False 0 (c, ?k)" using s by (simp add: st stage_def add_name_def)
  have "clean (exit_failure c k)" using exit_failure_clean stageD(1,2) s st by blast
  with s' stage_log [OF s'] show "case create_pipe env st of Inl k \<Rightarrow> clean k | Inr s' \<Rightarrow> stage R S M False 0 s'"
    by (simp add: st create_pipe_def)
qed

lemma create_queue_advances:
  "advances (stage R S M False 0) (create_queue env) (stage R S M True 0)"
  unfolding advances_def
proof (intro allI impI)
  fix st
  assume s: "stage R S M False 0 st"
  obtain c k where st: "st = (c, k)" by (cases st)
  note d = stageD [OF s [unfolded st]]
  let ?fd = "mq_open_result env"
  let ?c = "c\<lparr>queue_fd := ?fd\<rparr>" and ?k = "add_fd ?fd (add_name QueueName k)"
  have sd: "can_shut_down ?c k'" if "k' \<in> {k, ?k}" for k'
    by (rule can_shut_down_frame [OF d(2)]) (use d(9,10) that d(2) in \<open>auto simp: add_name_def add_fd_def can_shut_down_def\<close>)
  have o: "owns ?c k" using d(1,6) by (auto simp: owns_def)
  show "case create_queue env st of Inl k \<Rightarrow> clean k | Inr s' \<Rightarrow> stage R S M True 0 s'"
  proof (cases "?fd = - 1")
    case True
    then show ?thesis using exit_failure_clean [OF sd o] by (simp add: st create_queue_def)
  next
    case False
    then have "owns ?c ?k" using d(1,6) by (auto simp: owns_def add_name_def add_fd_def)
    then have s': "stage R S M True 0 (?c, ?k)"
      using s sd [of ?k] by (simp add: st stage_def add_name_def add_fd_def)
    then show ?thesis using stage_log [OF s'] False by (simp add: st create_queue_def)
  qed
qed

text \<open>What the children do: the miner posts \<open>sem_pipeclosed\<close> before it ends on SIGTERM, the others
  end.\<close>

definition children_react :: "StartEnv \<Rightarrow> (c_int \<Rightarrow> Semaphore list option) \<Rightarrow> bool" where
  "children_react env R \<longleftrightarrow>
     (\<forall>i. R (fork_result env i) \<noteq> None) \<and>
     (\<exists>posts. R (fork_result env 0) = Some posts \<and> SemPipeClosed \<in> set posts)"

lemma fork_miner_advances:
  assumes "results_ok env" and "children_react env R" and "SemPipeClosed \<in> S"
  shows "advances (stage R S M True 0) (fork_child env 0) (stage R S M True 1)"
  unfolding advances_def
proof (intro allI impI)
  fix st
  assume s: "stage R S M True 0 st"
  obtain c k where st: "st = (c, k)" by (cases st)
  note d = stageD [OF s [unfolded st]]
  let ?p = "fork_result env 0"
  let ?c = "c\<lparr>pids := (pids c)[0 := ?p]\<rparr>" and ?k = "k\<lparr>children := insert ?p (children k)\<rparr>"
  have "\<exists>a b e. pids c = [a, b, e]" using d(11) by (auto simp: numeral_3_eq_3 length_Suc_conv)
  then obtain a b e where p: "pids c = [a, b, e]" by blast
  have zero: "a = 0" "b = 0" "e = 0" using d(7) [of 0] d(7) [of 1] d(7) [of 2] by (simp_all add: p)
  have "children k \<subseteq> {x \<in> set (pids c) \<union> set (validators c). 0 < sint x}" using d(1) by (simp add: owns_def)
  moreover have "{x \<in> set (pids c) \<union> set (validators c). 0 < sint x} = {}" by (auto simp: p zero d(3))
  ultimately have none: "children k = {}" by (simp only: subset_empty)
  show "case fork_child env 0 st of Inl k \<Rightarrow> clean k | Inr s' \<Rightarrow> stage R S M True 1 s'"
  proof (cases "?p = - 1")
    case True
    have "owns ?c k" using d(1) by (auto simp: owns_def none p)
    moreover have "can_shut_down ?c k" using d(2) by (simp add: can_shut_down_def p zero)
    ultimately show ?thesis using exit_failure_clean True by (simp add: st fork_child_def)
  next
    case False
    then have pos: "0 < sint ?p" using assms(1) by (auto simp: results_ok_def)
    have re: "\<exists>posts. R ?p = Some posts \<and> SemPipeClosed \<in> set posts" using assms(2) by (simp add: children_react_def)
    have o: "owns ?c ?k" using d(1) pos by (auto simp: owns_def none p)
    have "can_shut_down ?c ?k" using d(2,4) re by (auto simp: can_shut_down_def p zero none)
    then have "stage R S M True 1 (?c, ?k)"
      using s o re pos assms(3) by (auto simp: st stage_def p zero less_Suc_eq numeral_3_eq_3)
    then show ?thesis using False by (simp add: st fork_child_def Let_def)
  qed
qed

lemma fork_later_advances:
  assumes "results_ok env" and "children_react env R" and "n = 1 \<or> n = 2"
  shows "advances (stage R S M True n) (fork_child env n) (stage R S M True (Suc n))"
  unfolding advances_def
proof (intro allI impI)
  fix st
  assume s: "stage R S M True n st"
  obtain c k where st: "st = (c, k)" by (cases st)
  note d = stageD [OF s [unfolded st]]
  let ?p = "fork_result env n"
  let ?c = "c\<lparr>pids := (pids c)[n := ?p]\<rparr>" and ?k = "k\<lparr>children := insert ?p (children k)\<rparr>"
  have n: "n < length (pids c)" "n \<noteq> 0" "0 < n" using assms(3) d(11) by auto
  have zero: "pids c ! n = 0" using d(7) [of n] n(1) d(11) by simp
  have miner: "SemPipeClosed \<in> S" "0 < sint (pids c ! 0)" "pids c ! 0 \<in> children k"
    "\<exists>posts. R (pids c ! 0) = Some posts \<and> SemPipeClosed \<in> set posts"
    using s n(3) by (simp_all add: st stage_def)
  have first: "(pids c)[n := x] ! 0 = pids c ! 0" for x using n(2) by simp
  have kids: "children k \<subseteq> {x \<in> set ((pids c)[n := p]) \<union> set (validators c). 0 < sint x}" for p
  proof
    fix x
    assume "x \<in> children k"
    then have x: "x \<in> set (pids c) \<union> set (validators c)" "0 < sint x" using d(1) by (auto simp: owns_def)
    have "x \<in> set ((pids c)[n := p])" if "x \<in> set (pids c)"
    proof -
      from that obtain j where j: "j < length (pids c)" "pids c ! j = x" by (auto simp: in_set_conv_nth)
      with x(2) zero have "j \<noteq> n" by auto
      with j show ?thesis by (metis length_list_update nth_list_update_neq nth_mem)
    qed
    with x show "x \<in> {x \<in> set ((pids c)[n := p]) \<union> set (validators c). 0 < sint x}" by blast
  qed
  have base: "sem_handle c SemPipeClosed" using d(5) miner(1) by blast
  have shut: "can_shut_down (c\<lparr>pids := (pids c)[n := p]\<rparr>) k'"
    if "k' = k \<or> k' = ?k" for p k'
  proof -
    have "\<forall>x\<in>children k'. reacts k' x \<noteq> None"
      using that d(2,4) assms(2) by (auto simp: can_shut_down_def children_react_def)
    moreover have "pids c ! 0 \<in> children k'" "reacts k' = R" "ended k' = ended k" using that miner(3) d(4) by auto
    moreover have "status k' = Running" "sem_value k' = sem_value k" using that d(8) by auto
    moreover have "pids c ! 0 \<noteq> 0" using miner(2) by auto
    ultimately show ?thesis
      using d(2,3) miner(2,4) base by (simp add: can_shut_down_def first)
  qed
  show "case fork_child env n st of Inl k \<Rightarrow> clean k | Inr s' \<Rightarrow> stage R S M True (Suc n) s'"
  proof (cases "?p = - 1")
    case True
    have "owns ?c k" using d(1) kids [of ?p] by (simp add: owns_def)
    then show ?thesis using exit_failure_clean [OF shut] True by (simp add: st fork_child_def Let_def)
  next
    case False
    then have pos: "0 < sint ?p" using assms(1) by (auto simp: results_ok_def)
    have "?p \<in> set ((pids c)[n := ?p])" using n(1) by (rule set_update_memI)
    then have "owns ?c ?k" using d(1) kids [of ?p] pos by (simp add: owns_def)
    moreover have "(pids c)[n := ?p] ! i = 0" if "i < 3" "Suc n \<le> i" for i
      using that d(7) [of i] by simp
    ultimately have "stage R S M True (Suc n) (?c, ?k)"
      using s shut [of ?k ?p] miner by (simp add: st stage_def first)
    then show ?thesis using False by (simp add: st fork_child_def Let_def)
  qed
qed

lemma fork_others_advance:
  assumes "results_ok env" and "children_react env R"
  shows "advances (stage R S M True 1) (fork_child env 1) (stage R S M True 2)"
    and "advances (stage R S M True 2) (fork_child env 2) (stage R S M True 3)"
  using fork_later_advances [OF assms, of 1 S M] fork_later_advances [OF assms, of 2 S M]
  by (simp_all add: eval_nat_numeral)

lemma start_launcher_advances:
  "advances (stage R S M True 3) (start_launcher env) (\<lambda>(c, k). owns c k \<and> can_shut_down c k)"
  unfolding advances_def
proof (intro allI impI)
  fix st
  assume s: "stage R S M True 3 st"
  obtain c k where st: "st = (c, k)" by (cases st)
  note d = stageD [OF s [unfolded st]]
  let ?c = "c\<lparr>validator_thread_created := True\<rparr>" and ?k = "k\<lparr>threads := insert 0 (threads k)\<rparr>"
  have "exec (log_info c) ?k = ?k" using d(8,9,12) by (simp add: log_info_handle exec_def)
  moreover have "owns ?c ?k" using d(1) by (simp add: owns_def)
  moreover have "can_shut_down ?c ?k" using d(2) by (simp add: can_shut_down_def)
  ultimately show "case start_launcher env st of Inl k \<Rightarrow> clean k | Inr (c, k) \<Rightarrow> owns c k \<and> can_shut_down c k"
    using exit_failure_clean [OF d(2,1)] by (simp add: st start_launcher_def)
qed

text \<open>The first three semaphores, on a system without objects of the program.\<close>

definition fresh :: "Kernel \<Rightarrow> bool" where
  "fresh k \<longleftrightarrow> status k = Running \<and> object_names k = {} \<and> open_fds k = {0, 1, 2} \<and> mappings k = {} \<and>
     open_sems k = {} \<and> \<not> log_open k \<and> threads k = {} \<and> children k = {} \<and> signalled k = [] \<and> ended k = {}"

definition first_semaphores :: "StartEnv \<Rightarrow> bool" where
  "first_semaphores env \<longleftrightarrow>
     sem_open_ok env SemLogFile \<and> sem_open_ok env SemTransactionsPool \<and> sem_open_ok env SemLedger"

lemma first_steps:
  assumes "fresh k" and "first_semaphores env"
  shows "\<exists>s. run_steps (start_steps env) (controller0\<lparr>log_file := True\<rparr>, k\<lparr>log_open := True\<rparr>) =
      run_steps (drop 3 (start_steps env)) s \<and>
    stage (reacts k) {SemLogFile, SemTransactionsPool, SemLedger} {} False 0 s"
proof -
  let ?c = "controller0\<lparr>log_file := True,
    sem_handle := (\<lambda>_. False)(SemLogFile := True, SemTransactionsPool := True, SemLedger := True)\<rparr>"
  let ?S = "{SemLogFile, SemTransactionsPool, SemLedger}"
  let ?k = "create_sem SemLedger 1 (create_sem SemTransactionsPool 1 (create_sem SemLogFile 1 (k\<lparr>log_open := True\<rparr>)))"
  have "status k = Running" "object_names k = {}" using assms(1) by (simp_all add: fresh_def)
  then have "run_steps (create_log_semaphore env # create_semaphore env SemTransactionsPool 1 # create_semaphore env SemLedger 1 # rest)
      (controller0\<lparr>log_file := True\<rparr>, k\<lparr>log_open := True\<rparr>) = run_steps rest (?c, ?k)" for rest
    using assms(2)
    by (simp add: create_log_semaphore_def create_semaphore_def first_semaphores_def log_info_def
        exec_def create_sem_def controller0_def)
  moreover have "start_steps env = create_log_semaphore env # create_semaphore env SemTransactionsPool 1 #
      create_semaphore env SemLedger 1 # drop 3 (start_steps env)"
    by (simp add: start_steps_def numeral_3_eq_3)
  ultimately have "run_steps (start_steps env) (controller0\<lparr>log_file := True\<rparr>, k\<lparr>log_open := True\<rparr>) =
      run_steps (drop 3 (start_steps env)) (?c, ?k)" by metis
  moreover have "stage (reacts k) ?S {} False 0 (?c, ?k)"
    using assms(1) by (auto simp: fresh_def stage_def owns_def can_shut_down_def create_sem_def controller0_def
        less_Suc_eq numeral_3_eq_3)
  ultimately show ?thesis by blast
qed

lemma controller_start_good:
  assumes "fresh k" and "first_semaphores env" and "results_ok env" and "children_react env (reacts k)" and "fopen_ok env"
  shows "well_started (controller_start env k)"
proof -
  let ?R = "reacts k"
  let ?S = "{SemLogFile, SemTransactionsPool, SemLedger}"
  from first_steps [OF assms(1,2)] obtain s where
    s: "run_steps (start_steps env) (controller0\<lparr>log_file := True\<rparr>, k\<lparr>log_open := True\<rparr>) =
      run_steps (drop 3 (start_steps env)) s" and st: "stage ?R ?S {} False 0 s" by blast
  have "well_started (run_steps (drop 3 (start_steps env)) s)"
    unfolding start_steps_def
    apply (simp only: numeral_3_eq_3 drop_Suc_Cons drop_0)
    apply (rule run_steps_advance [OF st create_semaphore_advances], simp, simp)
    apply (erule run_steps_advance [OF _ create_semaphore_advances], simp, simp)
    apply (erule run_steps_advance [OF _ create_segment_advances], simp)
    apply (erule run_steps_advance [OF _ create_segment_advances], simp)
    apply (erule run_steps_advance [OF _ create_pipe_advances])
    apply (erule run_steps_advance [OF _ create_queue_advances])
    apply (erule run_steps_advance [OF _ fork_miner_advances [OF assms(3,4)]], simp)
    apply (erule run_steps_advance [OF _ fork_others_advance(1) [OF assms(3,4)]])
    apply (erule run_steps_advance [OF _ fork_others_advance(2) [OF assms(3,4)]])
    apply (erule run_steps_advance [OF _ start_launcher_advances])
    apply (auto simp: well_started_def)
    done
  then show ?thesis using assms(5) s by (simp add: controller_start_def)
qed

text \<open>SIGUSR1 changes nothing, when the two semaphores are free.\<close>

lemma handle_sigusr1_no_effect:
  assumes "logs c" and "sem_handle c SemLedger" and "status k = Running" and "0 < sem_value k SemLogFile"
    and "0 < sem_value k SemLedger"
  shows "execs (handle_sigusr1 c) k = k"
  using assms by (simp add: handle_sigusr1_def locked_dump_def log_info_handle exec_def)

section \<open>The order of a shutdown\<close>

lemma append_prefix_cases:
  assumes "xs @ ys = as @ bs"
  obtains (short) zs where "as = xs @ zs" | (long) zs where "xs = as @ zs" and "bs = zs @ ys"
  using assms by (auto simp: append_eq_append_conv2)

lemma release_resources_calls: "WaitPid p \<notin> set (release_resources c)"
  by (auto simp: release_resources_def release_segment_def locked_dump_def close_handles_def unlink_objects_def
      unmap_def close_fd_def close_semaphore_def close_log_def logged_def log_info_def split: if_splits)

lemma names_kept_until_children_ended:
  assumes "can_shut_down c k" and "owns c k" and "snd (cleanup c) = xs @ ys"
  shows "children (execs xs k) = {} \<or> object_names (execs xs k) = object_names k"
proof -
  have "xs @ ys = end_processes c @ release_resources c"
    using assms(1,3) by (simp add: cleanup_def can_shut_down_def split: if_splits)
  then show ?thesis
  proof (cases rule: append_prefix_cases)
    case (short zs)
    then have "\<forall>x\<in>set xs. \<not> releases x" using end_processes_calls [of c] by simp
    then show ?thesis using execs_keeps_objects(1) by blast
  next
    case (long zs)
    then have "WaitPid p \<notin> set zs" for p using release_resources_calls [of p c] by auto
    then have "children (execs xs k) = children (execs (end_processes c) k)"
      using execs_children [of zs] long(1) by simp
    then show ?thesis using end_processes_effect [OF assms(1,2)] by simp
  qed
qed

text \<open>A positive \<open>sem_pipeclosed\<close> comes from the miner, when nobody else posts it.\<close>

definition only_poster :: "c_int \<Rightarrow> Kernel \<Rightarrow> bool" where
  "only_poster m k \<longleftrightarrow>
     (\<forall>p posts. p \<noteq> m \<longrightarrow> reacts k p = Some posts \<longrightarrow> SemPipeClosed \<notin> set posts) \<and>
     (0 < sem_value k SemPipeClosed \<longrightarrow> m \<in> ended k)"

lemma only_poster_react: "only_poster m k \<Longrightarrow> only_poster m (react p k)"
  by (auto simp: only_poster_def react_def count_list_0_iff split: option.splits)

lemma only_poster_exec: "only_poster m k \<Longrightarrow> c \<noteq> SemPost SemPipeClosed \<Longrightarrow> only_poster m (exec c k)"
proof -
  assume a: "only_poster m k" "c \<noteq> SemPost SemPipeClosed"
  show ?thesis
  proof (cases c)
    case (WaitPid p)
    then show ?thesis using a(1) only_poster_react [OF a(1), of p]
      by (auto simp: exec_def Let_def only_poster_def)
  next
    case (SemWait h s)
    then show ?thesis using a(1) only_poster_react [OF a(1)]
      by (auto simp: exec_def Let_def only_poster_def split: option.splits)
  qed (use a in \<open>auto simp: exec_def only_poster_def\<close>)
qed

lemma only_poster_execs: "only_poster m k \<Longrightarrow> SemPost SemPipeClosed \<notin> set cs \<Longrightarrow> only_poster m (execs cs k)"
  by (induction cs arbitrary: k) (auto simp: only_poster_exec)

lemma pipe_wait_passed:
  assumes "only_poster m k" and "status (exec (SemWait h SemPipeClosed) k) = Running"
  shows "m \<in> ended (exec (SemWait h SemPipeClosed) k)"
proof -
  have run: "status k = Running" using assms(2) by (auto simp: exec_def split: if_splits)
  let ?k = "if 0 < sem_value k SemPipeClosed then k else case poster SemPipeClosed k of None \<Rightarrow> k | Some p \<Rightarrow> react p k"
  have "only_poster m ?k" using assms(1) only_poster_react by (auto split: option.split)
  moreover have "0 < sem_value ?k SemPipeClosed" and e: "ended (exec (SemWait h SemPipeClosed) k) = ended ?k"
    using assms(2) run by (auto simp: exec_def Let_def split: if_splits)
  ultimately show ?thesis by (simp only: only_poster_def e)
qed

definition before_pipe_wait :: "Controller \<Rightarrow> Call list" where
  "before_pipe_wait c = signal_validators c @ wait_validators c @ stop_launcher c @ signal_miner c"

lemma cleanup_around_pipe_wait:
  assumes "\<not> cleanup_called c" and "0 < sint (pids c ! 1)"
  shows "snd (cleanup c) = before_pipe_wait c @ SemWait (sem_handle c SemPipeClosed) SemPipeClosed #
    signal_rest c @ wait_children c @ release_resources c"
  using assms by (simp add: cleanup_def end_processes_def before_pipe_wait_def signal_children_parts wait_for_miner_def)

lemma before_pipe_wait_calls:
  "SemPost s \<notin> set (before_pipe_wait c)"
  "p \<notin> set (validators c) \<Longrightarrow> p \<noteq> pids c ! 0 \<Longrightarrow> Kill p \<notin> set (before_pipe_wait c)"
  by (auto simp: before_pipe_wait_def signal_validators_def wait_validators_def stop_launcher_def signal_miner_def
      signal_child_def logged_def log_info_def split: if_splits)

lemma validator_signalled_after_miner:
  assumes "\<not> cleanup_called c" and "0 < sint (pids c ! 1)" and "pids c ! 1 \<notin> set (validators c)"
    and "pids c ! 1 \<noteq> pids c ! 0" and "only_poster (pids c ! 0) k" and "pids c ! 1 \<notin> set (signalled k)"
    and "snd (cleanup c) = xs @ ys" and "pids c ! 1 \<in> set (signalled (execs xs k))"
  shows "pids c ! 0 \<in> ended (execs xs k)"
proof -
  let ?wait = "SemWait (sem_handle c SemPipeClosed) SemPipeClosed"
  have eq: "xs @ ys = before_pipe_wait c @ ?wait # signal_rest c @ wait_children c @ release_resources c"
    using cleanup_around_pipe_wait [OF assms(1,2)] assms(7) by simp
  have no_kill: "Kill (pids c ! 1) \<notin> set (before_pipe_wait c)" by (rule before_pipe_wait_calls(2) [OF assms(3,4)])
  from eq show ?thesis
  proof (cases rule: append_prefix_cases)
    case (short zs)
    then have "Kill (pids c ! 1) \<notin> set xs" using no_kill by simp
    with execs_not_signalled [OF this assms(6)] assms(8) show ?thesis by simp
  next
    case (long zs)
    let ?k1 = "execs (before_pipe_wait c) k"
    have not1: "pids c ! 1 \<notin> set (signalled ?k1)" by (rule execs_not_signalled [OF no_kill assms(6)])
    show ?thesis
    proof (cases zs)
      case Nil
      then show ?thesis using long(1) not1 assms(8) by simp
    next
      case (Cons z ws)
      then have z: "z = ?wait" using long(2) by simp
      have x: "execs xs k = execs ws (exec ?wait ?k1)" by (simp add: long(1) Cons z)
      have "signalled (exec ?wait ?k1) = signalled ?k1" by (rule exec_children(4)) simp
      then have "status (exec ?wait ?k1) = Running"
        using execs_stopped [of "exec ?wait ?k1" ws] not1 assms(8) x by (cases "status (exec ?wait ?k1) = Running") simp_all
      moreover have "only_poster (pids c ! 0) ?k1"
        by (rule only_poster_execs [OF assms(5) before_pipe_wait_calls(1)])
      ultimately have "pids c ! 0 \<in> ended (exec ?wait ?k1)" using pipe_wait_passed by blast
      then show ?thesis using execs_ended x by auto
    qed
  qed
qed

section \<open>Shutdowns that fail\<close>

text \<open>When the miner has ended without posting \<open>sem_pipeclosed\<close>.\<close>

lemma dead_miner_blocks:
  assumes c: "\<not> cleanup_called c" "logs c" "sem_handle c SemPipeClosed" "0 < sint (pids c ! 1)"
      "validators c = [0, 0]"
    and k: "status k = Running" "0 < sem_value k SemLogFile" "sem_value k SemPipeClosed = 0"
      "\<forall>t\<in>threads k. t = 0 \<and> validator_thread_created c"
    and nobody: "\<And>p posts. p \<in> children k \<Longrightarrow> p \<notin> ended k \<Longrightarrow> reacts k p = Some posts \<Longrightarrow> SemPipeClosed \<notin> set posts"
  shows "status (execs (snd (cleanup c)) k) = Blocked \<and> object_names (execs (snd (cleanup c)) k) = object_names k"
proof -
  define k1 where "k1 = execs (stop_launcher c) k"
  define k2 where "k2 = execs (signal_miner c) k1"
  let ?wait = "SemWait True SemPipeClosed"
  note e1 = stop_launcher_effect [OF c(2) k(1,2,4), folded k1_def]
  have "0 < sem_value k1 SemLogFile" "status k1 = Running" using e1 k(2) by simp_all
  note e2 = execs_kills [OF signal_parts_kills(1) [OF c(2)] this(2,1), folded k2_def]
  have "execs (before_pipe_wait c) k = k2"
    using k(1,2) by (simp add: before_pipe_wait_def signal_validators_def wait_validators_def c(5) log_info_handle [OF c(2)]
        exec_def k1_def k2_def)
  then have all: "execs (snd (cleanup c)) k = execs (signal_rest c @ wait_children c @ release_resources c) (exec ?wait k2)"
    by (simp add: cleanup_around_pipe_wait [OF c(1,4)] c(3))
  have r: "reacts k2 = reacts k" by (simp add: k2_def k1_def execs_reacts)
  have "\<not> (p \<in> children k2 \<and> p \<notin> ended k2 \<and> (case reacts k2 p of None \<Rightarrow> False | Some posts \<Rightarrow> SemPipeClosed \<in> set posts))" for p
    using nobody [of p] e1 e2 r by (auto split: option.splits)
  then have "poster SemPipeClosed k2 = None" unfolding poster_def find_None_iff by blast
  then have b: "exec ?wait k2 = k2\<lparr>status := Blocked\<rparr>" using e1 e2 k(3) by (simp add: exec_def)
  have "\<forall>x\<in>set (stop_launcher c @ signal_miner c). \<not> releases x"
    by (auto simp: stop_launcher_def signal_miner_def signal_child_def logged_def log_info_def)
  then have "object_names k2 = object_names k" using execs_keeps_objects(1) [of "stop_launcher c @ signal_miner c" k]
    by (simp add: k2_def k1_def)
  then show ?thesis by (simp add: all b execs_stopped)
qed

text \<open>When the semaphore of the ledger does not exist yet: the clean-up closes descriptor 0, the initial
  value of the static variable, and crashes before it removes a semaphore.\<close>

lemma early_cleanup_crashes:
  assumes c: "\<not> cleanup_called c" "logs c" "\<not> sem_handle c SemLedger" "pids c = [0, 0, 0]"
      "validators c = [0, 0]" "\<not> validator_thread_created c" "shm_base c PoolSegment = Null" "shm_fd c PoolSegment = 0"
    and k: "status k = Running" "0 < sem_value k SemLogFile"
  shows "exit_failure c k = k\<lparr>open_fds := open_fds k - {0}, object_names := object_names k - {ShmName PoolSegment},
    status := Crashed\<rparr>"
proof -
  obtain rest where rest: "rest = [log_info c, SemPost SemLedger] @ release_segment c LedgerSegment @ close_handles c @ unlink_objects c"
    by blast
  let ?k = "k\<lparr>open_fds := open_fds k - {0}, object_names := object_names k - {ShmName PoolSegment}\<rparr>"
  have l: "log_info c = LogInfo True" by (rule log_info_handle [OF c(2)])
  have a: "execs (end_processes c) (exec (log_info c) k) = k"
    using k by (simp add: end_processes_def signal_validators_def wait_validators_def stop_launcher_def
        signal_children_def signal_child_def wait_children_def c l exec_def)
  have b: "execs (release_segment c PoolSegment @ [log_info c]) k = ?k"
    using k by (simp add: release_segment_def unmap_def close_fd_def logged_def c l exec_def)
  have d: "exec (SemWait False SemLedger) ?k = ?k\<lparr>status := Crashed\<rparr>" using k by (simp add: exec_def)
  have "log_info c # snd (cleanup c) =
      (log_info c # end_processes c) @ (release_segment c PoolSegment @ [log_info c]) @ SemWait False SemLedger # rest"
    using c(1,3) by (simp add: cleanup_def release_resources_def locked_dump_def rest)
  then have "exit_failure c k = execs (SemWait False SemLedger # rest)
      (execs (release_segment c PoolSegment @ [log_info c]) (execs (end_processes c) (exec (log_info c) k)))"
    by (simp only: exit_failure_def execs_append execs.simps)
  also have "\<dots> = execs rest (?k\<lparr>status := Crashed\<rparr>)" by (simp only: a b execs.simps d)
  also have "\<dots> = ?k\<lparr>status := Crashed\<rparr>" by (rule execs_stopped) simp
  finally show ?thesis by simp
qed

lemma early_failure:
  assumes "fresh k" and "fopen_ok env" and "\<not> first_semaphores env"
  shows "\<exists>k'. controller_start env k = Inl k' \<and> status k' = Crashed \<and>
    (sem_open_ok env SemLogFile \<longrightarrow> SemName SemLogFile \<in> object_names k' \<and> 0 \<notin> open_fds k')"
proof -
  have f: "status k = Running" "object_names k = {}" using assms(1) by (simp_all add: fresh_def)
  let ?c = "controller0\<lparr>log_file := True\<rparr>" and ?k = "k\<lparr>log_open := True\<rparr>"
  let ?k1 = "create_sem SemLogFile 1 ?k"
  let ?c1 = "?c\<lparr>sem_handle := (\<lambda>_. False)(SemLogFile := True)\<rparr>"
  let ?k2 = "create_sem SemTransactionsPool 1 ?k1"
  let ?c2 = "?c\<lparr>sem_handle := (\<lambda>_. False)(SemLogFile := True, SemTransactionsPool := True)\<rparr>"
  have start: "controller_start env k = run_steps (create_log_semaphore env # create_semaphore env SemTransactionsPool 1 #
      create_semaphore env SemLedger 1 # drop 3 (start_steps env)) (?c, ?k)"
    using assms(2) by (simp add: controller_start_def start_steps_def)
  consider "\<not> sem_open_ok env SemLogFile" | "sem_open_ok env SemLogFile" "\<not> sem_open_ok env SemTransactionsPool"
    | "sem_open_ok env SemLogFile" "sem_open_ok env SemTransactionsPool" "\<not> sem_open_ok env SemLedger"
    using assms(3) by (auto simp: first_semaphores_def)
  then show ?thesis
  proof cases
    case 1
    let ?d = "?c\<lparr>sem_handle := (\<lambda>_. False)(SemLogFile := False)\<rparr>"
    obtain rest where "snd (cleanup ?d) = LogInfo False # rest"
      by (simp add: cleanup_def controller0_def end_processes_def signal_validators_def log_info_def)
    then have "execs (snd (cleanup ?d)) ?k = ?k\<lparr>status := Crashed\<rparr>"
      using f by (simp add: exec_def execs_stopped)
    then show ?thesis using 1 by (simp add: start create_log_semaphore_def controller0_def)
  next
    case 2
    have "exit_failure (?c1\<lparr>sem_handle := (sem_handle ?c1)(SemTransactionsPool := False)\<rparr>) ?k1 =
        ?k1\<lparr>open_fds := open_fds ?k1 - {0}, object_names := object_names ?k1 - {ShmName PoolSegment}, status := Crashed\<rparr>"
      by (rule early_cleanup_crashes) (use f in \<open>simp_all add: controller0_def create_sem_def\<close>)
    moreover have "run_steps [create_log_semaphore env] (?c, ?k) = Inr (?c1, ?k1)"
      using 2 f by (simp add: create_log_semaphore_def log_info_def exec_def create_sem_def controller0_def)
    ultimately show ?thesis using 2 f
      by (simp add: start create_log_semaphore_def create_semaphore_def controller0_def log_info_def exec_def create_sem_def)
  next
    case 3
    have "exit_failure (?c2\<lparr>sem_handle := (sem_handle ?c2)(SemLedger := False)\<rparr>) ?k2 =
        ?k2\<lparr>open_fds := open_fds ?k2 - {0}, object_names := object_names ?k2 - {ShmName PoolSegment}, status := Crashed\<rparr>"
      by (rule early_cleanup_crashes) (use f in \<open>simp_all add: controller0_def create_sem_def\<close>)
    then show ?thesis using 3 f
      by (simp add: start create_log_semaphore_def create_semaphore_def controller0_def log_info_def exec_def create_sem_def)
  qed
qed

section \<open>Properties\<close>


definition demo_env :: StartEnv where
  "demo_env =
     \<lparr>fopen_ok = True, sem_open_ok = (\<lambda>_. True), shm_open_result = (\<lambda>seg. if seg = PoolSegment then 4 else 5),
      ftruncate_ok = (\<lambda>_. True), mmap_ok = (\<lambda>_. True), mkfifo_ok = True, mq_open_result = 6,
      fork_result = (\<lambda>i. of_nat (100 + i mod 3)), thread_ok = True\<rparr>"

definition demo_kernel :: Kernel where
  "demo_kernel =
     \<lparr>object_names = {}, open_fds = {0, 1, 2}, mappings = {}, open_sems = {}, log_open = False, sem_value = (\<lambda>_. 0),
      threads = {}, cancelled = {}, children = {}, signalled = [], ended = {},
      reacts = (\<lambda>p. Some (if p = 100 then [SemPipeClosed] else [])), status = Running\<rparr>"

lemma small_pid: "n < 3 \<Longrightarrow> 0 < sint (word_of_nat (100 + n) :: c_int)"
  by (auto simp: less_Suc_eq numeral_3_eq_3)

lemma demo_start_ok:
  "fresh demo_kernel" "fopen_ok demo_env" "first_semaphores demo_env" "results_ok demo_env"
  "children_react demo_env (reacts demo_kernel)"
proof -
  show "results_ok demo_env" unfolding results_ok_def
  proof
    fix i :: nat
    show "fork_result demo_env i = - 1 \<or> 0 < sint (fork_result demo_env i)"
      using small_pid [of "i mod 3"] by (simp add: demo_env_def)
  qed
qed (simp_all add: fresh_def demo_kernel_def first_semaphores_def demo_env_def children_react_def)


lemma demo_started: "\<exists>c k. controller_start demo_env demo_kernel = Inr (c, k) \<and> owns c k \<and> can_shut_down c k"
proof -
  have "\<exists>s. controller_start demo_env demo_kernel = Inr s"
    by (simp add: controller_start_def start_steps_def create_log_semaphore_def create_semaphore_def create_segment_def
        create_pipe_def create_queue_def fork_child_def start_launcher_def Let_def demo_env_def)
  then obtain c k where "controller_start demo_env demo_kernel = Inr (c, k)" by auto
  with controller_start_good [OF demo_start_ok(1,3,4,5,2)] show ?thesis by (simp add: well_started_def)
qed




definition demo_controller :: Controller where
  "demo_controller = controller0\<lparr>log_file := True, sem_handle := (\<lambda>_. True), pids := [100, 101, 102]\<rparr>"

definition demo_running :: Kernel where
  "demo_running = demo_kernel\<lparr>sem_value := (\<lambda>s. if s \<in> {SemLogFile, SemLedger} then 1 else 0), children := {100, 101, 102},
     object_names := {SemName SemLogFile, SemName SemLedger, SemName SemPipeClosed}\<rparr>"

text \<open>The first nine calls of its clean-up.\<close>

lemma demo_cleanup_calls:
  "take 9 (snd (cleanup demo_controller)) =
    [LogInfo True, LogInfo True, LogInfo True, LogInfo True, Kill 100, SemWait True SemPipeClosed, LogInfo True, Kill 101,
     LogInfo True]"
  by (simp add: demo_controller_def controller0_def cleanup_def end_processes_def signal_validators_def wait_validators_def
      stop_launcher_def signal_children_def signal_child_def log_info_def logged_def)


text \<open>C37: the shutdown hangs when the miner cannot answer. If no running child posts \<open>sem_pipeclosed\<close> on SIGTERM
  (the miner has died, or it still ignores SIGTERM) and its value is 0, then the clean-up blocks before it
  signals the validator and removes nothing.\<close>

theorem shutdown_hangs_without_miner:
  assumes "\<not> cleanup_called c" and "logs c" and "sem_handle c SemPipeClosed" and "0 < sint (pids c ! 1)"
    and "validators c = [0, 0]" and "status k = Running" and "0 < sem_value k SemLogFile" and "sem_value k SemPipeClosed = 0"
    and "\<forall>t\<in>threads k. t = 0 \<and> validator_thread_created c"
    and "\<And>p posts. p \<in> children k \<Longrightarrow> p \<notin> ended k \<Longrightarrow> reacts k p = Some posts \<Longrightarrow> SemPipeClosed \<notin> set posts"
  shows "status (execs (snd (cleanup c)) k) = Blocked \<and> object_names (execs (snd (cleanup c)) k) = object_names k"
  by (rule dead_miner_blocks [OF assms])

theorem shutdown_hangs_without_miner_witness:
  "status (execs (snd (cleanup demo_controller)) (demo_running\<lparr>ended := {100}\<rparr>)) = Blocked"
proof -
  let ?k = "demo_running\<lparr>ended := {100}\<rparr>"
  have "status (execs (snd (cleanup demo_controller)) ?k) = Blocked \<and>
    object_names (execs (snd (cleanup demo_controller)) ?k) = object_names ?k"
    by (rule shutdown_hangs_without_miner)
      (auto simp: demo_controller_def controller0_def demo_running_def demo_kernel_def)
  then show ?thesis by simp
qed

text \<open>C38: a start-up that fails at one of the first three semaphores crashes in its own clean-up: the clean-up
  uses a semaphore that was not opened, so it removes nothing but a segment name, the semaphores created before
  stay behind, and descriptor 0 is closed.\<close>

theorem early_failure_crashes:
  assumes "fresh k" and "fopen_ok env" and "\<not> first_semaphores env"
  shows "\<exists>k'. controller_start env k = Inl k' \<and> status k' = Crashed \<and>
    (sem_open_ok env SemLogFile \<longrightarrow> SemName SemLogFile \<in> object_names k' \<and> 0 \<notin> open_fds k')"
  by (rule early_failure [OF assms])

theorem early_failure_crashes_witness:
  "\<exists>k'. controller_start (demo_env\<lparr>sem_open_ok := (\<lambda>s. s = SemLogFile)\<rparr>) demo_kernel = Inl k' \<and> status k' = Crashed \<and>
    SemName SemLogFile \<in> object_names k'"
proof -
  let ?env = "demo_env\<lparr>sem_open_ok := (\<lambda>s. s = SemLogFile)\<rparr>"
  have "fopen_ok ?env" "\<not> first_semaphores ?env" "sem_open_ok ?env SemLogFile"
    by (simp_all add: demo_env_def first_semaphores_def)
  then show ?thesis using early_failure_crashes [OF demo_start_ok(1), of ?env] by blast
qed

end
