(* ===== verification/Workers.thy ===== *)
theory Workers
  imports Processes TxGen
begin

text \<open>
  Start-up and shutdown of the miner, the validators, the statistics and the generator (\<open>src/Miner.c\<close>,
  \<open>src/Validator.c\<close>, \<open>src/Statistics.c\<close>, \<open>src/txGen.c\<close>), each as the list of steps and calls of its code. A
  blocking \<open>open\<close> of the pipe is taken to return. The objects in \<open>open_fds\<close>, \<open>mappings\<close>, \<open>open_sems\<close> and
  \<open>log_open\<close> are those of the process itself; what it inherits from the controller on \<open>fork\<close> stays as it is.
  The locale \<open>worker\<close> is what the controller relies on: a worker never removes a shared object, and on
  SIGTERM it releases what it has acquired and reacts as the controller's clean-up expects.
\<close>

section \<open>Steps\<close>

record WorkerEnv =
  sem_result :: "Semaphore \<Rightarrow> bool"
  log_result :: bool
  seg_result :: "Segment \<Rightarrow> c_int"
  map_result :: "Segment \<Rightarrow> bool"
  unmap_result :: bool
  remap_result :: bool
  pipe_result :: c_int
  mq_result :: c_int
  getattr_result :: bool
  malloc_result :: bool
  signal_thread_result :: bool
  miner_thread_result :: "nat \<Rightarrow> bool"

type_synonym WorkerState = "Proc \<times> Kernel"
type_synonym WorkerStep = "WorkerState \<Rightarrow> Kernel + WorkerState"

text \<open>Each step gets the calls that its error branch makes before it exits.\<close>

definition open_semaphore :: "WorkerEnv \<Rightarrow> Semaphore \<Rightarrow> (Proc \<Rightarrow> Call list) \<Rightarrow> WorkerStep" where
  "open_semaphore env s fail = (\<lambda>(p, k).
     (let ok = sem_result env s; p' = p\<lparr>sem_handle := (sem_handle p)(s := ok)\<rparr>
      in if ok then Inr (p', open_sem s k) else Inl (execs (fail p') k)))"

definition open_log :: "WorkerEnv \<Rightarrow> (Proc \<Rightarrow> Call list) \<Rightarrow> WorkerStep" where
  "open_log env fail = (\<lambda>(p, k).
     if log_result env then Inr (p\<lparr>log_file := True\<rparr>, k\<lparr>log_open := True\<rparr>) else Inl (execs (fail p) k))"

definition open_segment :: "WorkerEnv \<Rightarrow> Segment \<Rightarrow> (Proc \<Rightarrow> Call list) \<Rightarrow> (Proc \<Rightarrow> Call list) \<Rightarrow> WorkerStep" where
  "open_segment env seg announce fail = (\<lambda>(p, k).
     (let fd = seg_result env seg; p' = p\<lparr>shm_fd := (shm_fd p)(seg := fd)\<rparr>
      in if fd = - 1 then Inl (execs (fail p') k) else Inr (p', execs (announce p') (add_fd fd k))))"

definition map_segment :: "WorkerEnv \<Rightarrow> Segment \<Rightarrow> (Proc \<Rightarrow> Call list) \<Rightarrow> (Proc \<Rightarrow> Call list) \<Rightarrow> WorkerStep" where
  "map_segment env seg announce fail = (\<lambda>(p, k).
     (let ok = map_result env seg;
          p' = p\<lparr>shm_base := (shm_base p)(seg := (if ok then Mapped else MapFailed))\<rparr>
      in if ok then Inr (p', execs (announce p') (add_mapping seg k)) else Inl (execs (fail p') k)))"

definition open_pipe :: "WorkerEnv \<Rightarrow> (Proc \<Rightarrow> Call list) \<Rightarrow> WorkerStep" where
  "open_pipe env fail = (\<lambda>(p, k).
     (let fd = pipe_result env; p' = p\<lparr>pipe_fd := fd\<rparr>
      in if sint fd < 0 then Inl (execs (fail p') k) else Inr (p', exec (log_info p') (add_fd fd k))))"

definition open_queue :: "WorkerEnv \<Rightarrow> (Proc \<Rightarrow> Call list) \<Rightarrow> WorkerStep" where
  "open_queue env fail = (\<lambda>(p, k).
     (let fd = mq_result env; p' = p\<lparr>queue_fd := fd\<rparr>
      in if fd = - 1 then Inl (execs (fail p') k) else Inr (p', add_fd fd k)))"

lemmas worker_step_defs = open_semaphore_def open_log_def open_segment_def map_segment_def open_pipe_def open_queue_def

definition close_logging :: "Proc \<Rightarrow> Call list" where
  "close_logging p = close_log p @ (if sem_handle p SemLogFile then [SemClose SemLogFile] else [])"

section \<open>The miner\<close>

definition miner0 :: Proc where
  "miner0 = \<lparr>log_file = False, sem_handle = (\<lambda>_. False), shm_fd = (\<lambda>_. - 1), shm_base = (\<lambda>_. Null),
     pipe_fd = - 1, queue_fd = - 1\<rparr>"

definition miner_cleanup :: "Proc \<Rightarrow> Call list" where
  "miner_cleanup p =
     close_fd p (shm_fd p PoolSegment) @ unmap p PoolSegment @
     close_fd p (shm_fd p LedgerSegment) @ unmap p LedgerSegment @ close_fd p (pipe_fd p) @
     close_semaphore p SemTransactionsPool @ close_semaphore p SemMinerWork @ close_semaphore p SemLedger @
     close_semaphore p SemPipeClosed @ close_logging p"

definition miner_fail :: "Proc \<Rightarrow> Call list" where
  "miner_fail p = log_info p # miner_cleanup p"

text \<open>\<open>sem_open\<close> of \<open>sem_pipeclosed\<close> has \<open>O_CREAT\<close>.\<close>

definition open_pipe_closed :: "WorkerEnv \<Rightarrow> WorkerStep" where
  "open_pipe_closed env = (\<lambda>(p, k).
     (let ok = sem_result env SemPipeClosed; p' = p\<lparr>sem_handle := (sem_handle p)(SemPipeClosed := ok)\<rparr>
      in if ok then Inr (p', create_sem SemPipeClosed 0 k) else Inl (execs (miner_fail p') k)))"

definition start_signal_thread :: "WorkerEnv \<Rightarrow> WorkerStep" where
  "start_signal_thread env = (\<lambda>(p, k).
     if signal_thread_result env then Inr (p, exec (log_info p) k) else Inl (exec (log_info p) k))"

definition start_miner_thread :: "WorkerEnv \<Rightarrow> nat \<Rightarrow> WorkerStep" where
  "start_miner_thread env i = (\<lambda>(p, k).
     if miner_thread_result env i then Inr (p, k\<lparr>threads := insert i (threads k)\<rparr>) else Inl (exec (log_info p) k))"

definition num_threads :: "Config \<Rightarrow> nat" where
  "num_threads cfg = nat (sint (NUM_MINERS cfg))"

definition miner_open :: "WorkerEnv \<Rightarrow> WorkerStep list" where
  "miner_open env =
     [open_semaphore env SemLogFile (\<lambda>p. []), open_log env (\<lambda>p. [SemClose SemLogFile]),
      open_semaphore env SemTransactionsPool miner_fail, open_semaphore env SemMinerWork miner_fail,
      open_semaphore env SemLedger miner_fail, open_pipe_closed env, open_pipe env miner_fail,
      open_segment env PoolSegment (\<lambda>p. [log_info p]) miner_fail,
      map_segment env PoolSegment (\<lambda>p. [log_info p]) (\<lambda>p. log_info p # Close (shm_fd p PoolSegment) # miner_cleanup p),
      open_segment env LedgerSegment (\<lambda>p. [log_info p]) miner_fail,
      map_segment env LedgerSegment (\<lambda>p. [log_info p]) (\<lambda>p. [log_info p, Close (shm_fd p LedgerSegment)])]"

definition miner_start :: "Config \<Rightarrow> WorkerEnv \<Rightarrow> Kernel \<Rightarrow> Kernel + WorkerState" where
  "miner_start cfg env k =
     run_steps (miner_open env @ start_signal_thread env # map (start_miner_thread env) [0..<num_threads cfg]) (miner0, k)"

text \<open>On SIGTERM the signal thread ends the miner threads and tells the controller; \<open>miner\<close> joins it and
  cleans up.\<close>

definition signal_handler_thread :: "Config \<Rightarrow> Proc \<Rightarrow> Call list" where
  "signal_handler_thread cfg p =
     log_info p # concat (map (\<lambda>i. [log_info p, CancelThread i]) [0..<num_threads cfg]) @
     log_info p # concat (map (\<lambda>i. logged p (JoinThread i)) [0..<num_threads cfg]) @
     logged p (SemPost SemPipeClosed) @ [log_info p]"

definition miner_finish :: "Config \<Rightarrow> Proc \<Rightarrow> Call list" where
  "miner_finish cfg p = signal_handler_thread cfg p @ [log_info p]"

section \<open>The validators\<close>

definition validator0 :: Proc where
  "validator0 = \<lparr>log_file = False, sem_handle = (\<lambda>_. False), shm_fd = (\<lambda>_. - 1), shm_base = (\<lambda>_. Null),
     pipe_fd = - 1, queue_fd = 0\<rparr>"

definition validator_cleanup :: "Proc \<Rightarrow> Call list" where
  "validator_cleanup p =
     close_semaphore p SemTransactionsPool @ close_semaphore p SemLedger @
     close_fd p (shm_fd p LedgerSegment) @ unmap p LedgerSegment @
     close_fd p (shm_fd p PoolSegment) @ unmap p PoolSegment @ close_fd p (pipe_fd p) @ close_fd p (queue_fd p) @
     close_logging p"

definition validator_fail :: "Proc \<Rightarrow> Call list" where
  "validator_fail p = log_info p # validator_cleanup p"

definition validator_open :: "WorkerEnv \<Rightarrow> WorkerStep list" where
  "validator_open env =
     [open_semaphore env SemLogFile validator_cleanup, open_log env validator_cleanup,
      open_segment env PoolSegment (\<lambda>p. []) validator_fail, map_segment env PoolSegment (\<lambda>p. []) validator_fail,
      open_segment env LedgerSegment (\<lambda>p. []) validator_fail, map_segment env LedgerSegment (\<lambda>p. []) validator_fail,
      open_semaphore env SemTransactionsPool validator_cleanup, open_semaphore env SemLedger validator_fail,
      open_pipe env validator_fail, open_queue env validator_fail]"

definition validator_start :: "WorkerEnv \<Rightarrow> Kernel \<Rightarrow> Kernel + WorkerState" where
  "validator_start env k = run_steps (validator_open env) (validator0, k)"

definition validator_sigterm :: "Proc \<Rightarrow> Call list" where
  "validator_sigterm p = log_info p # validator_cleanup p"

section \<open>The statistics\<close>

definition statistics0 :: Proc where
  "statistics0 = \<lparr>log_file = False, sem_handle = (\<lambda>_. False), shm_fd = (\<lambda>_. - 1), shm_base = (\<lambda>_. Null),
     pipe_fd = - 1, queue_fd = 0\<rparr>"

definition statistics_cleanup :: "Proc \<Rightarrow> Call list" where
  "statistics_cleanup p =
     close_fd p (queue_fd p) @ close_fd p (shm_fd p LedgerSegment) @ unmap p LedgerSegment @
     close_semaphore p SemLedger @ close_logging p"

definition statistics_fail :: "Proc \<Rightarrow> Call list" where
  "statistics_fail p = log_info p # statistics_cleanup p"

definition check_result :: "bool \<Rightarrow> WorkerStep" where
  "check_result ok = (\<lambda>(p, k). if ok then Inr (p, k) else Inl (execs (statistics_fail p) k))"

definition announce_receiving :: WorkerStep where
  "announce_receiving = (\<lambda>(p, k). Inr (p, exec (log_info p) k))"

definition statistics_open :: "WorkerEnv \<Rightarrow> WorkerStep list" where
  "statistics_open env =
     [open_semaphore env SemLogFile statistics_cleanup, open_log env statistics_cleanup, open_queue env statistics_fail,
      open_segment env LedgerSegment (\<lambda>p. [log_info p]) (\<lambda>p. [log_info p]),
      map_segment env LedgerSegment (\<lambda>p. [log_info p]) (\<lambda>p. [log_info p, Close (shm_fd p LedgerSegment)]),
      open_semaphore env SemLedger statistics_fail,
      check_result (getattr_result env), check_result (malloc_result env), announce_receiving]"

definition statistics_start :: "WorkerEnv \<Rightarrow> Kernel \<Rightarrow> Kernel + WorkerState" where
  "statistics_start env k = run_steps (statistics_open env) (statistics0, k)"

text \<open>The handler prints the report first: four lines and one for every miner.\<close>

definition report_lines :: "Config \<Rightarrow> Proc \<Rightarrow> Call list" where
  "report_lines cfg p = replicate (4 + num_threads cfg) (log_info p)"

definition statistics_finish :: "Config \<Rightarrow> Proc \<Rightarrow> Call list" where
  "statistics_finish cfg p = log_info p # report_lines cfg p"

definition statistics_sigterm :: "Config \<Rightarrow> Proc \<Rightarrow> Call list" where
  "statistics_sigterm cfg p = statistics_finish cfg p @ statistics_cleanup p"

definition statistics_sigusr1 :: "Config \<Rightarrow> Proc \<Rightarrow> Call list" where
  "statistics_sigusr1 cfg p = log_info p # report_lines cfg p"

section \<open>The generator\<close>

text \<open>It has no log; \<open>shm_fd\<close> starts as 0. The first mapping is the header of the pool, the second one the
  whole pool.\<close>

definition txgen0 :: Proc where
  "txgen0 = \<lparr>log_file = False, sem_handle = (\<lambda>_. False),
     shm_fd = (\<lambda>seg. if seg = PoolSegment then 0 else - 1), shm_base = (\<lambda>_. Null), pipe_fd = - 1, queue_fd = - 1\<rparr>"

definition txgen_cleanup :: "Proc \<Rightarrow> Call list" where
  "txgen_cleanup p =
     (if sem_handle p SemTransactionsPool then [SemClose SemTransactionsPool] else []) @
     (if sem_handle p SemMinerWork then [SemClose SemMinerWork] else []) @
     (if shm_fd p PoolSegment \<noteq> - 1
      then (if shm_base p PoolSegment \<noteq> Null then [Munmap PoolSegment (shm_base p PoolSegment)] else []) @
           [Close (shm_fd p PoolSegment)]
      else [])"

definition read_arguments :: "bytes list \<Rightarrow> WorkerStep" where
  "read_arguments argv = (\<lambda>(p, k).
     (case txgen_args argv of
        Inl BadUsage \<Rightarrow> Inl k
      | Inl _ \<Rightarrow> Inl (execs (txgen_cleanup p) k)
      | Inr _ \<Rightarrow> Inr (p, k)))"

definition remap_pool :: "WorkerEnv \<Rightarrow> WorkerStep" where
  "remap_pool env = (\<lambda>(p, k).
     if \<not> unmap_result env then Inl (execs (txgen_cleanup p) k)
     else let k' = exec (Munmap PoolSegment (shm_base p PoolSegment)) k
          in if remap_result env then Inr (p\<lparr>shm_base := (shm_base p)(PoolSegment := Mapped)\<rparr>, add_mapping PoolSegment k')
             else Inl (execs (txgen_cleanup (p\<lparr>shm_base := (shm_base p)(PoolSegment := MapFailed)\<rparr>)) k'))"

definition txgen_open :: "bytes list \<Rightarrow> WorkerEnv \<Rightarrow> WorkerStep list" where
  "txgen_open argv env =
     [read_arguments argv, open_semaphore env SemTransactionsPool txgen_cleanup, open_semaphore env SemMinerWork txgen_cleanup,
      open_segment env PoolSegment (\<lambda>p. []) txgen_cleanup, map_segment env PoolSegment (\<lambda>p. []) txgen_cleanup,
      remap_pool env]"

definition txgen_start :: "bytes list \<Rightarrow> WorkerEnv \<Rightarrow> Kernel \<Rightarrow> Kernel + WorkerState" where
  "txgen_start argv env k = run_steps (txgen_open argv env) (txgen0, k)"

section \<open>No step removes an object\<close>

definition harmless :: "Call list \<Rightarrow> bool" where
  "harmless cs \<longleftrightarrow> (\<forall>c\<in>set cs. \<not> removes c)"

lemma harmless_simps [simp]:
  "harmless []" "harmless (c # cs) \<longleftrightarrow> \<not> removes c \<and> harmless cs" "harmless (xs @ ys) \<longleftrightarrow> harmless xs \<and> harmless ys"
  "harmless (concat xss) \<longleftrightarrow> (\<forall>xs\<in>set xss. harmless xs)"
  by (auto simp: harmless_def)

lemma harmless_parts [simp]:
  "\<not> removes (log_info p)" "harmless (logged p c) \<longleftrightarrow> \<not> removes c" "harmless (close_semaphore p s)" "harmless (close_fd p d)"
  "harmless (unmap p seg)" "harmless (close_logging p)"
  by (simp_all add: log_info_def logged_def close_semaphore_def close_fd_def unmap_def close_logging_def close_log_def)

lemma harmless_cleanups [simp]:
  "harmless (miner_cleanup p)" "harmless (miner_fail p)" "harmless (validator_cleanup p)" "harmless (validator_fail p)"
  "harmless (statistics_cleanup p)" "harmless (statistics_fail p)" "harmless (txgen_cleanup p)"
  by (simp_all add: miner_cleanup_def miner_fail_def validator_cleanup_def validator_fail_def statistics_cleanup_def
      statistics_fail_def txgen_cleanup_def)

lemma execs_harmless: "harmless cs \<Longrightarrow> object_names (execs cs k) = object_names k"
  by (simp add: harmless_def execs_names)

definition result_names :: "Kernel + WorkerState \<Rightarrow> ObjectName set" where
  "result_names r = (case r of Inl k \<Rightarrow> object_names k | Inr (p, k) \<Rightarrow> object_names k)"

definition keeps_names :: "ObjectName set \<Rightarrow> WorkerStep \<Rightarrow> bool" where
  "keeps_names N f \<longleftrightarrow> (\<forall>p k. object_names k = N \<longrightarrow> result_names (f (p, k)) = N)"

lemma run_steps_names:
  "(\<And>f. f \<in> set fs \<Longrightarrow> keeps_names N f) \<Longrightarrow> object_names k = N \<Longrightarrow> result_names (run_steps fs (p, k)) = N"
proof (induction fs arbitrary: p k)
  case Nil
  then show ?case by (simp add: result_names_def)
next
  case (Cons f fs)
  have r: "result_names (f (p, k)) = N" using Cons.prems by (simp add: keeps_names_def)
  show ?case
  proof (cases "f (p, k)")
    case (Inl k')
    with r show ?thesis by (simp add: result_names_def)
  next
    case (Inr s)
    obtain p' k' where "s = (p', k')" by (cases s)
    with r Inr Cons show ?thesis by (simp add: result_names_def)
  qed
qed

lemma exec_log_names [simp]: "object_names (exec (log_info (p :: Proc)) k) = object_names k"
  by (rule exec_frame(2)) simp

lemma steps_keep_names:
  "(\<And>p. harmless (fail p)) \<Longrightarrow> keeps_names N (open_semaphore env s fail)"
  "(\<And>p. harmless (fail p)) \<Longrightarrow> keeps_names N (open_log env fail)"
  "(\<And>p. harmless (fail p)) \<Longrightarrow> (\<And>p. harmless (announce p)) \<Longrightarrow> keeps_names N (open_segment env seg announce fail)"
  "(\<And>p. harmless (fail p)) \<Longrightarrow> (\<And>p. harmless (announce p)) \<Longrightarrow> keeps_names N (map_segment env seg announce fail)"
  "(\<And>p. harmless (fail p)) \<Longrightarrow> keeps_names N (open_pipe env fail)"
  "(\<And>p. harmless (fail p)) \<Longrightarrow> keeps_names N (open_queue env fail)"
  "SemName SemPipeClosed \<in> N \<Longrightarrow> keeps_names N (open_pipe_closed env)"
  "keeps_names N (start_signal_thread env)" "keeps_names N (start_miner_thread env i)"
  "keeps_names N (check_result ok)" "keeps_names N announce_receiving"
  "keeps_names N (read_arguments argv)" "keeps_names N (remap_pool env)"
  by (auto simp: keeps_names_def result_names_def worker_step_defs acquire_defs Let_def execs_harmless
      open_pipe_closed_def start_signal_thread_def start_miner_thread_def check_result_def announce_receiving_def
      read_arguments_def remap_pool_def exec_frame split: sum.split TxGenError.split)

section \<open>The contract of a worker\<close>

text \<open>The state of the system when a worker starts, what it holds once it runs, and what its end leaves.\<close>

definition ready :: "Kernel \<Rightarrow> bool" where
  "ready k \<longleftrightarrow> status k = Running \<and> 0 < sem_value k SemLogFile \<and> SemName SemPipeClosed \<in> object_names k \<and> threads k = {}"

definition fds :: "Proc \<Rightarrow> c_int set" where
  "fds p = {shm_fd p PoolSegment, shm_fd p LedgerSegment, pipe_fd p, queue_fd p} - {- 1}"

definition holds :: "Kernel \<Rightarrow> WorkerState \<Rightarrow> bool" where
  "holds k0 = (\<lambda>(p, k).
     status k = Running \<and> sem_value k = sem_value k0 \<and> open_fds k \<subseteq> open_fds k0 \<union> fds p \<and>
     mappings k \<subseteq> mappings k0 \<union> {seg. shm_base p seg = Mapped} \<and> open_sems k \<subseteq> open_sems k0 \<union> {s. sem_handle p s} \<and>
     (log_open k \<longrightarrow> log_open k0 \<or> log_file p))"

definition ends_threads :: "Semaphore list \<Rightarrow> Kernel \<Rightarrow> Kernel \<Rightarrow> bool" where
  "ends_threads posts k k' \<longleftrightarrow>
     status k' = status k \<and> sem_value k' = (\<lambda>s. sem_value k s + count_list posts s) \<and> threads k' = {} \<and>
     object_names k' = object_names k \<and> open_fds k' = open_fds k \<and> mappings k' = mappings k \<and>
     open_sems k' = open_sems k \<and> log_open k' = log_open k"

definition releases_all :: "Proc \<Rightarrow> Call list \<Rightarrow> bool" where
  "releases_all p cs \<longleftrightarrow>
     quiet cs \<and> harmless cs \<and> (\<forall>d\<in>fds p. Close d \<in> set cs) \<and>
     (\<forall>seg. shm_base p seg = Mapped \<longrightarrow> Munmap seg Mapped \<in> set cs) \<and>
     (\<forall>s. sem_handle p s \<longrightarrow> SemClose s \<in> set cs) \<and> (log_file p \<longrightarrow> CloseLog \<in> set cs)"

definition ended_well :: "Semaphore list \<Rightarrow> Kernel \<Rightarrow> Kernel \<Rightarrow> bool" where
  "ended_well posts k0 k \<longleftrightarrow>
     status k = Running \<and> object_names k = object_names k0 \<and> open_fds k \<subseteq> open_fds k0 \<and> mappings k \<subseteq> mappings k0 \<and>
     open_sems k \<subseteq> open_sems k0 \<and> (log_open k \<longrightarrow> log_open k0) \<and> threads k = {} \<and>
     sem_value k = (\<lambda>s. sem_value k0 s + count_list posts s)"

locale worker =
  fixes start :: "WorkerEnv \<Rightarrow> Kernel \<Rightarrow> Kernel + WorkerState"
    and finish :: "Proc \<Rightarrow> Call list"
    and cleanup :: "Proc \<Rightarrow> Call list"
    and posts :: "Semaphore list"
  assumes start_names: "ready k \<Longrightarrow> result_names (start env k) = object_names k"
    and start_holds: "ready k \<Longrightarrow> start env k = Inr s \<Longrightarrow> holds k s"
    and finish_ends_threads: "ready k \<Longrightarrow> start env k = Inr (p, k') \<Longrightarrow> ends_threads posts k' (execs (finish p) k')"
    and cleanup_releases: "ready k \<Longrightarrow> start env k = Inr (p, k') \<Longrightarrow> releases_all p (cleanup p)"
begin

lemma failed_start_names: "ready k \<Longrightarrow> start env k = Inl k' \<Longrightarrow> object_names k' = object_names k"
  using start_names [of k env] by (simp add: result_names_def)

text \<open>A worker that was started and told to stop.\<close>

lemma stopped_ends_well:
  assumes "ready k" and "start env k = Inr (p, k')"
  shows "ended_well posts k (execs (finish p @ cleanup p) k')"
proof -
  let ?k1 = "execs (finish p) k'"
  have n: "object_names k' = object_names k" using start_names [OF assms(1), of env] assms(2) by (simp add: result_names_def)
  have h: "holds k (p, k')" by (rule start_holds [OF assms])
  have t: "ends_threads posts k' ?k1" by (rule finish_ends_threads [OF assms])
  have r: "releases_all p (cleanup p)" by (rule cleanup_releases [OF assms])
  have pos: "0 < sem_value ?k1 SemLogFile" and run: "status ?k1 = Running"
    using h t assms(1) by (simp_all add: ready_def holds_def ends_threads_def)
  have q: "quiet (cleanup p)" using r by (simp add: releases_all_def)
  have names: "object_names (execs (cleanup p) ?k1) = object_names ?k1"
    by (rule execs_harmless) (use r in \<open>simp add: releases_all_def\<close>)
  note same = execs_quiet [OF q pos, unfolded same_processes_def]
  note objs = execs_quiet_objects [OF q pos run]
  have "open_fds (execs (cleanup p) ?k1) \<subseteq> open_fds k" "mappings (execs (cleanup p) ?k1) \<subseteq> mappings k"
    "open_sems (execs (cleanup p) ?k1) \<subseteq> open_sems k" "log_open (execs (cleanup p) ?k1) \<longrightarrow> log_open k"
    unfolding objs(2-5) using h t r by (auto simp: holds_def ends_threads_def releases_all_def)
  then show ?thesis using same names n h t run by (simp add: ended_well_def ends_threads_def holds_def)
qed

text \<open>So the end of a worker is what the model of the controller assumes of a child that reacts with these
  posts.\<close>

lemma stopped_reacts:
  assumes "ready k" and "start env k = Inr (p, k')" and "reacts k q = Some posts"
  shows "sem_value (execs (finish p @ cleanup p) k') = sem_value (react q k)"
  using stopped_ends_well [OF assms(1,2)] assms(3) by (simp add: ended_well_def react_def)

end

lemma ends_no_threads:
  assumes "logs p" and "status k = Running" and "0 < sem_value k SemLogFile" and "threads k = {}"
    and "set cs \<subseteq> {log_info p}"
  shows "ends_threads [] k (execs cs k)"
proof -
  have "exec (log_info p) k = k" using assms(2,3) by (simp add: exec_def log_info_handle [OF assms(1)])
  then have "execs cs k = k" using assms(5) by (induction cs) auto
  then show ?thesis by (simp add: ends_threads_def assms(4))
qed

section \<open>The workers satisfy it\<close>

lemma message_no_effect:
  "logs p \<Longrightarrow> status k = Running \<Longrightarrow> 0 < sem_value k SemLogFile \<Longrightarrow> exec (log_info p) k = k"
  by (simp add: log_info_handle exec_def)

lemma run_steps_append: "run_steps (fs @ gs) s = (case run_steps fs s of Inl k \<Rightarrow> Inl k | Inr t \<Rightarrow> run_steps gs t)"
  by (induction fs arbitrary: s) (simp_all split: sum.split)

lemma both_segments: "f(PoolSegment := g PoolSegment, LedgerSegment := g LedgerSegment) = g"
  by (rule ext) (metis (full_types) Segment.exhaust fun_upd_apply)

lemma both_mapped: "(\<lambda>_. Null)(PoolSegment := Mapped, LedgerSegment := Mapped) = (\<lambda>_. Mapped)"
  by (rule both_segments)

lemma all_segments: "(\<forall>seg. P seg) \<longleftrightarrow> P PoolSegment \<and> P LedgerSegment"
  by (metis (full_types) Segment.exhaust)

lemma pipe_opened: "\<not> sint (pipe_result env) < 0 \<Longrightarrow> pipe_result env \<noteq> - 1"
  by auto

lemmas starting = worker_step_defs acquire_defs Let_def message_no_effect ready_def

lemmas releasing = releases_all_def close_fd_def unmap_def close_semaphore_def logged_def close_logging_def close_log_def
  fds_def log_info_def all_segments

subsection \<open>Validator\<close>

lemma validator_started:
  assumes "ready k" and "validator_start env k = Inr (p, k')"
  shows "p = \<lparr>log_file = True, sem_handle = (\<lambda>_. False)(SemLogFile := True, SemTransactionsPool := True, SemLedger := True),
      shm_fd = seg_result env, shm_base = (\<lambda>_. Mapped), pipe_fd = pipe_result env, queue_fd = mq_result env\<rparr>"
    and "k' = k\<lparr>log_open := True, open_sems := insert SemLedger (insert SemTransactionsPool (insert SemLogFile (open_sems k))),
      open_fds := insert (mq_result env) (insert (pipe_result env) (insert (seg_result env LedgerSegment)
        (insert (seg_result env PoolSegment) (open_fds k)))),
      mappings := insert LedgerSegment (insert PoolSegment (mappings k))\<rparr>"
    and "- 1 \<notin> {seg_result env PoolSegment, seg_result env LedgerSegment, pipe_result env, mq_result env}"
  using assms pipe_opened [of env]
  by (auto simp: validator_start_def validator_open_def validator0_def starting both_segments both_mapped split: if_splits)

interpretation validator: worker validator_start "\<lambda>p. [log_info p]" validator_cleanup "[]"
proof unfold_locales
  fix env k p k' s
  assume k: "ready k"
  show "result_names (validator_start env k) = object_names k"
    unfolding validator_start_def by (rule run_steps_names) (auto simp: validator_open_def intro!: steps_keep_names)
  show "holds k s" if "validator_start env k = Inr s"
  proof (cases s)
    case (Pair p k')
    show ?thesis using validator_started [OF k that [unfolded Pair]] k
      by (auto simp: Pair holds_def ready_def fds_def)
  qed
  assume start: "validator_start env k = Inr (p, k')"
  note e = validator_started [OF k start]
  show "ends_threads [] k' (execs [log_info p] k')"
    by (rule ends_no_threads) (use k e in \<open>simp_all add: ready_def\<close>)
  show "releases_all p (validator_cleanup p)" using e by (auto simp: releasing validator_cleanup_def)
qed

subsection \<open>Statistics\<close>

lemma statistics_started:
  assumes "ready k" and "statistics_start env k = Inr (p, k')"
  shows "p = \<lparr>log_file = True, sem_handle = (\<lambda>_. False)(SemLogFile := True, SemLedger := True),
      shm_fd = (\<lambda>_. - 1)(LedgerSegment := seg_result env LedgerSegment), shm_base = (\<lambda>_. Null)(LedgerSegment := Mapped),
      pipe_fd = - 1, queue_fd = mq_result env\<rparr>"
    and "k' = k\<lparr>log_open := True, open_sems := insert SemLedger (insert SemLogFile (open_sems k)),
      open_fds := insert (seg_result env LedgerSegment) (insert (mq_result env) (open_fds k)),
      mappings := insert LedgerSegment (mappings k)\<rparr>"
    and "- 1 \<notin> {seg_result env LedgerSegment, mq_result env}"
  using assms
  by (auto simp: statistics_start_def statistics_open_def statistics0_def starting check_result_def announce_receiving_def
      split: if_splits)

text \<open>A report on SIGUSR1 changes nothing.\<close>

lemma statistics_sigusr1_no_effect:
  assumes "logs p" and "status k = Running" and "0 < sem_value k SemLogFile" and "threads k = {}"
  shows "ends_threads [] k (execs (statistics_sigusr1 cfg p) k)"
  by (rule ends_no_threads) (use assms in \<open>auto simp: statistics_sigusr1_def report_lines_def\<close>)

interpretation statistics: worker statistics_start "statistics_finish cfg" statistics_cleanup "[]" for cfg
proof unfold_locales
  fix env k p k' s
  assume k: "ready k"
  show "result_names (statistics_start env k) = object_names k"
    unfolding statistics_start_def by (rule run_steps_names) (auto simp: statistics_open_def intro!: steps_keep_names)
  show "holds k s" if "statistics_start env k = Inr s"
  proof (cases s)
    case (Pair p k')
    show ?thesis using statistics_started [OF k that [unfolded Pair]] k
      by (auto simp: Pair holds_def ready_def fds_def)
  qed
  assume start: "statistics_start env k = Inr (p, k')"
  note e = statistics_started [OF k start]
  show "ends_threads [] k' (execs (statistics_finish cfg p) k')"
    by (rule ends_no_threads) (use k e in \<open>auto simp: ready_def statistics_finish_def report_lines_def\<close>)
  show "releases_all p (statistics_cleanup p)" using e by (auto simp: releasing statistics_cleanup_def)
qed

subsection \<open>Generator\<close>

lemma txgen_started:
  assumes "ready k" and "txgen_start argv env k = Inr (p, k')"
  shows "p = \<lparr>log_file = False, sem_handle = (\<lambda>_. False)(SemTransactionsPool := True, SemMinerWork := True),
      shm_fd = (\<lambda>_. - 1)(PoolSegment := seg_result env PoolSegment), shm_base = (\<lambda>_. Null)(PoolSegment := Mapped),
      pipe_fd = - 1, queue_fd = - 1\<rparr>"
    and "k' = k\<lparr>open_sems := insert SemMinerWork (insert SemTransactionsPool (open_sems k)),
      open_fds := insert (seg_result env PoolSegment) (open_fds k), mappings := insert PoolSegment (mappings k)\<rparr>"
    and "- 1 \<noteq> seg_result env PoolSegment"
  using assms
  by (auto simp: txgen_start_def txgen_open_def txgen0_def starting read_arguments_def remap_pool_def exec_def fun_eq_iff
      split: if_splits sum.splits TxGenError.splits)

interpretation txgen: worker "txgen_start argv" "\<lambda>p. []" txgen_cleanup "[]" for argv
proof unfold_locales
  fix env k p k' s
  assume k: "ready k"
  show "result_names (txgen_start argv env k) = object_names k"
    unfolding txgen_start_def by (rule run_steps_names) (auto simp: txgen_open_def intro!: steps_keep_names)
  show "holds k s" if "txgen_start argv env k = Inr s"
  proof (cases s)
    case (Pair p k')
    show ?thesis using txgen_started [OF k that [unfolded Pair]] k
      by (auto simp: Pair holds_def ready_def fds_def)
  qed
  assume start: "txgen_start argv env k = Inr (p, k')"
  note e = txgen_started [OF k start]
  show "ends_threads [] k' (execs [] k')" using k e by (simp add: ends_threads_def ready_def)
  show "releases_all p (txgen_cleanup p)" using e by (auto simp: releasing txgen_cleanup_def)
qed

subsection \<open>Miner\<close>

lemma start_miner_threads:
  "run_steps (map (start_miner_thread env) ids) (p, k) = Inr (p', k') \<Longrightarrow> p' = p \<and> k' = k\<lparr>threads := set ids \<union> threads k\<rparr>"
proof (induction ids arbitrary: k)
  case Nil
  then show ?case by simp
next
  case (Cons i ids)
  have step: "start_miner_thread env i (p, k) =
      (if miner_thread_result env i then Inr (p, k\<lparr>threads := insert i (threads k)\<rparr>) else Inl (exec (log_info p) k))"
    by (simp add: start_miner_thread_def)
  have "run_steps (map (start_miner_thread env) ids) (p, k\<lparr>threads := insert i (threads k)\<rparr>) = Inr (p', k')"
    using Cons.prems by (cases "miner_thread_result env i") (simp_all add: step)
  from Cons.IH [OF this] show ?case by simp
qed

lemma miner_opened:
  assumes "ready k" and "run_steps (miner_open env) (miner0, k) = Inr (p, k')"
  shows "p = \<lparr>log_file = True, sem_handle = (\<lambda>_. False)(SemLogFile := True, SemTransactionsPool := True,
        SemMinerWork := True, SemLedger := True, SemPipeClosed := True),
      shm_fd = seg_result env, shm_base = (\<lambda>_. Mapped), pipe_fd = pipe_result env, queue_fd = - 1\<rparr>"
    and "k' = k\<lparr>log_open := True, open_sems := insert SemPipeClosed (insert SemLedger (insert SemMinerWork
        (insert SemTransactionsPool (insert SemLogFile (open_sems k))))),
      open_fds := insert (seg_result env LedgerSegment) (insert (seg_result env PoolSegment)
        (insert (pipe_result env) (open_fds k))),
      mappings := insert LedgerSegment (insert PoolSegment (mappings k))\<rparr>"
    and "- 1 \<notin> {seg_result env PoolSegment, seg_result env LedgerSegment, pipe_result env}"
  using assms pipe_opened [of env]
  by (auto simp: miner_open_def miner0_def open_pipe_closed_def starting both_segments both_mapped split: if_splits)

lemma miner_started:
  assumes k: "ready k" and start: "miner_start cfg env k = Inr (p, k')"
  shows "\<exists>k1. run_steps (miner_open env) (miner0, k) = Inr (p, k1) \<and> k' = k1\<lparr>threads := {0..<num_threads cfg}\<rparr>"
proof -
  obtain p1 k1 where o: "run_steps (miner_open env) (miner0, k) = Inr (p1, k1)"
    and r: "run_steps (start_signal_thread env # map (start_miner_thread env) [0..<num_threads cfg]) (p1, k1) = Inr (p, k')"
    using start by (auto simp: miner_start_def run_steps_append split: sum.splits)
  note e = miner_opened [OF k o]
  have l: "exec (log_info p1) k1 = k1" by (rule message_no_effect) (use k e in \<open>simp_all add: ready_def\<close>)
  have "run_steps (map (start_miner_thread env) [0..<num_threads cfg]) (p1, k1) = Inr (p, k')"
    using r l by (cases "signal_thread_result env") (simp_all add: start_signal_thread_def)
  from start_miner_threads [OF this] have t: "p = p1" "k' = k1\<lparr>threads := {0..<num_threads cfg} \<union> threads k1\<rparr>" by simp_all
  have "threads k1 = {}" using k e(2) by (simp add: ready_def)
  then show ?thesis using o t by auto
qed

lemma cancel_threads:
  assumes "logs p" and "status k = Running" and "0 < sem_value k SemLogFile"
  shows "execs (concat (map (\<lambda>i. [log_info p, CancelThread i]) ids)) k = k\<lparr>cancelled := set ids \<union> cancelled k\<rparr>"
  using assms(2,3)
proof (induction ids arbitrary: k)
  case Nil
  then show ?case by simp
next
  case (Cons i ids)
  have "exec (CancelThread i) (exec (log_info p) k) = k\<lparr>cancelled := insert i (cancelled k)\<rparr>"
    using message_no_effect [OF assms(1) Cons.prems] Cons.prems by (simp add: exec_def)
  with Cons.IH [of "k\<lparr>cancelled := insert i (cancelled k)\<rparr>"] Cons.prems show ?case by simp
qed

lemma join_threads:
  assumes "logs p" and "status k = Running" and "0 < sem_value k SemLogFile" and "set ids \<subseteq> cancelled k"
  shows "execs (concat (map (\<lambda>i. logged p (JoinThread i)) ids)) k = k\<lparr>threads := threads k - set ids\<rparr>"
  using assms(2-4)
proof (induction ids arbitrary: k)
  case Nil
  then show ?case by simp
next
  case (Cons i ids)
  have "exec (JoinThread i) k = k\<lparr>threads := threads k - {i}\<rparr>" using Cons.prems by (simp add: exec_def)
  moreover have "exec (log_info p) (k\<lparr>threads := threads k - {i}\<rparr>) = k\<lparr>threads := threads k - {i}\<rparr>"
    by (rule message_no_effect [OF assms(1)]) (use Cons.prems in simp_all)
  ultimately show ?case using Cons.IH [of "k\<lparr>threads := threads k - {i}\<rparr>"] Cons.prems
    by (simp add: logged_def Diff_insert2 [symmetric] insert_Diff_if)
qed

lemma signal_handler_thread_effect:
  assumes "logs p" and "status k = Running" and "0 < sem_value k SemLogFile" and "threads k = {0..<num_threads cfg}"
  shows "ends_threads [SemPipeClosed] k (execs (miner_finish cfg p) k)"
proof -
  let ?n = "[0..<num_threads cfg]"
  let ?k1 = "k\<lparr>cancelled := set ?n \<union> cancelled k\<rparr>"
  let ?k2 = "?k1\<lparr>threads := {}\<rparr>"
  let ?k3 = "?k2\<lparr>sem_value := (sem_value k)(SemPipeClosed := sem_value k SemPipeClosed + 1)\<rparr>"
  note m = message_no_effect [OF assms(1)]
  have a: "exec (log_info p) k = k" by (rule m [OF assms(2,3)])
  have b: "execs (concat (map (\<lambda>i. [log_info p, CancelThread i]) ?n)) k = ?k1" by (rule cancel_threads [OF assms(1-3)])
  have c: "exec (log_info p) ?k1 = ?k1" by (rule m) (use assms(2,3) in simp_all)
  have "execs (concat (map (\<lambda>i. logged p (JoinThread i)) ?n)) ?k1 = ?k1\<lparr>threads := threads ?k1 - set ?n\<rparr>"
    by (rule join_threads [OF assms(1)]) (use assms(2,3) in simp_all)
  then have d: "execs (concat (map (\<lambda>i. logged p (JoinThread i)) ?n)) ?k1 = ?k2" using assms(4) by simp
  have e: "exec (SemPost SemPipeClosed) ?k2 = ?k3" using assms(2) by (simp add: exec_def)
  have f: "exec (log_info p) ?k3 = ?k3" by (rule m) (use assms(2,3) in simp_all)
  have "execs (miner_finish cfg p) k = ?k3"
    by (simp only: miner_finish_def signal_handler_thread_def execs_append execs.simps append_Cons append_Nil logged_def [of p "SemPost SemPipeClosed"]
        a b c d e f)
  then show ?thesis by (auto simp: ends_threads_def)
qed

interpretation miner: worker "miner_start cfg" "miner_finish cfg" miner_cleanup "[SemPipeClosed]" for cfg
proof unfold_locales
  fix env k p k' s
  assume k: "ready k"
  show "result_names (miner_start cfg env k) = object_names k"
    unfolding miner_start_def
    by (rule run_steps_names) (use k in \<open>auto simp: miner_open_def ready_def intro!: steps_keep_names\<close>)
  show "holds k s" if run: "miner_start cfg env k = Inr s"
  proof (cases s)
    case (Pair p k')
    obtain k1 where o: "run_steps (miner_open env) (miner0, k) = Inr (p, k1)" "k' = k1\<lparr>threads := {0..<num_threads cfg}\<rparr>"
      using miner_started [OF k run [unfolded Pair]] by blast
    then show ?thesis using miner_opened [OF k o(1)] k by (auto simp: Pair holds_def ready_def fds_def)
  qed
  assume start: "miner_start cfg env k = Inr (p, k')"
  obtain k1 where o: "run_steps (miner_open env) (miner0, k) = Inr (p, k1)" "k' = k1\<lparr>threads := {0..<num_threads cfg}\<rparr>"
    using miner_started [OF k start] by blast
  note e = miner_opened [OF k o(1)]
  show "ends_threads [SemPipeClosed] k' (execs (miner_finish cfg p) k')"
    by (rule signal_handler_thread_effect) (use k e o(2) in \<open>simp_all add: ready_def\<close>)
  show "releases_all p (miner_cleanup p)" using e by (auto simp: releasing miner_cleanup_def)
qed

section \<open>Properties\<close>

text \<open>A worker never removes a shared object. Whatever the results of the calls of its start-up, a miner,
  validator, statistics process or generator that fails to start leaves every semaphore, segment, pipe and
  queue in place, and so does one that starts and is told to stop.\<close>

theorem workers_keep_shared_objects:
  assumes "ready k"
  shows "result_names (miner_start cfg env k) = object_names k \<and> result_names (validator_start env k) = object_names k \<and>
    result_names (statistics_start env k) = object_names k \<and> result_names (txgen_start argv env k) = object_names k"
  using miner.start_names [OF assms] validator.start_names [OF assms] statistics.start_names [OF assms]
    txgen.start_names [OF assms] by blast

definition demo_worker_env :: WorkerEnv where
  "demo_worker_env =
     \<lparr>sem_result = (\<lambda>_. True), log_result = True, seg_result = (\<lambda>seg. if seg = PoolSegment then 7 else 8),
      map_result = (\<lambda>_. True), unmap_result = True, remap_result = True, pipe_result = 9, mq_result = 10,
      getattr_result = True, malloc_result = True, signal_thread_result = True, miner_thread_result = (\<lambda>_. True)\<rparr>"

definition demo_system :: Kernel where
  "demo_system =
     \<lparr>object_names = {SemName SemPipeClosed, PipeName}, open_fds = {0, 1, 2}, mappings = {}, open_sems = {}, log_open = False,
      sem_value = (\<lambda>s. if s = SemLogFile then 1 else 0), threads = {}, cancelled = {}, children = {}, signalled = [], ended = {},
      reacts = (\<lambda>_. None), status = Running\<rparr>"

lemma demo_system_ready: "ready demo_system"
  by (simp add: ready_def demo_system_def)

definition shutdown_config :: Config where
  "shutdown_config = \<lparr>NUM_MINERS = 2, TRANSACTION_POOL_SIZE = 5, TRANSACTIONS_PER_BLOCK = 2, BLOCKCHAIN_BLOCKS = 3\<rparr>"

theorem workers_keep_shared_objects_witness:
  "result_names (miner_start shutdown_config demo_worker_env demo_system) = {SemName SemPipeClosed, PipeName}"
proof -
  have "result_names (miner_start shutdown_config demo_worker_env demo_system) = object_names demo_system"
    using workers_keep_shared_objects [OF demo_system_ready] by blast
  then show ?thesis by (simp add: demo_system_def)
qed

text \<open>C10: a worker that was started and is told to stop (SIGTERM, SIGINT for the generator) ends in order: its
  threads are joined, it holds no descriptor, mapping, semaphore or log that it did not hold before, all shared
  objects are still there, and the semaphores have the values they had, except that the miner has posted
  \<open>sem_pipeclosed\<close> once.\<close>

theorem stopped_workers_release_everything:
  assumes "ready k"
  shows "(miner_start cfg env k = Inr (p, k') \<longrightarrow> ended_well [SemPipeClosed] k (execs (miner_finish cfg p @ miner_cleanup p) k')) \<and>
    (validator_start env k = Inr (p, k') \<longrightarrow> ended_well [] k (execs (validator_sigterm p) k')) \<and>
    (statistics_start env k = Inr (p, k') \<longrightarrow> ended_well [] k (execs (statistics_sigterm cfg p) k')) \<and>
    (txgen_start argv env k = Inr (p, k') \<longrightarrow> ended_well [] k (execs (txgen_cleanup p) k'))"
  using miner.stopped_ends_well [OF assms, of cfg env p k'] validator.stopped_ends_well [OF assms, of env p k']
    statistics.stopped_ends_well [OF assms, of env p k' cfg] txgen.stopped_ends_well [OF assms, of argv env p k']
  by (simp add: validator_sigterm_def statistics_sigterm_def)

lemma demo_validator_starts: "\<exists>p k. validator_start demo_worker_env demo_system = Inr (p, k)"
  by (simp add: validator_start_def validator_open_def validator0_def starting demo_worker_env_def demo_system_def)

theorem stopped_workers_release_everything_witness:
  "\<exists>p k. validator_start demo_worker_env demo_system = Inr (p, k) \<and> open_fds (execs (validator_sigterm p) k) \<subseteq> {0, 1, 2}"
proof -
  obtain p k where s: "validator_start demo_worker_env demo_system = Inr (p, k)" using demo_validator_starts by blast
  have "ended_well [] demo_system (execs (validator_sigterm p) k)"
    using stopped_workers_release_everything [OF demo_system_ready] s by blast
  then show ?thesis using s by (auto simp: ended_well_def demo_system_def)
qed



text \<open>A miner thread that was cancelled inside a message stops the shutdown. The first three calls of the
  signal thread are two messages and the cancellation of the first miner thread. If that thread ends inside
  \<open>log_info\<close>, between its \<open>sem_wait\<close> and \<open>sem_post\<close> (the output functions are cancellation points), the
  semaphore of the log stays 0, the signal thread blocks at its next message and never posts
  \<open>sem_pipeclosed\<close>.\<close>

theorem lost_log_semaphore_blocks_miner:
  assumes "logs p" and "status k = Running" and "sem_value k SemLogFile = 1" and "0 < num_threads cfg"
  defines "k' \<equiv> k\<lparr>sem_value := (sem_value k)(SemLogFile := 0)\<rparr>"
  shows "status (execs (drop 3 (miner_finish cfg p)) k') = Blocked \<and>
    sem_value (execs (drop 3 (miner_finish cfg p)) k') SemPipeClosed = sem_value k SemPipeClosed"
proof -
  obtain n where n: "num_threads cfg = Suc n" using assms(4) by (cases "num_threads cfg") simp_all
  have "[0..<Suc n] = 0 # [Suc 0..<Suc n]" by (simp add: upt_rec)
  then obtain rest where "drop 3 (miner_finish cfg p) = log_info p # rest"
    by (cases "[Suc 0..<Suc n]") (auto simp: miner_finish_def signal_handler_thread_def n simp del: upt_Suc)
  then show ?thesis using assms(1-3)
    by (simp add: log_info_handle exec_def k'_def execs_stopped)
qed

theorem lost_log_semaphore_blocks_miner_witness:
  "status (execs (drop 3 (miner_finish shutdown_config (miner0\<lparr>log_file := True, sem_handle := (\<lambda>_. True)\<rparr>)))
     (demo_system\<lparr>sem_value := (sem_value demo_system)(SemLogFile := 0)\<rparr>)) = Blocked"
proof -
  have "0 < num_threads shutdown_config" by (simp add: num_threads_def shutdown_config_def)
  then show ?thesis
    using lost_log_semaphore_blocks_miner [of "miner0\<lparr>log_file := True, sem_handle := (\<lambda>_. True)\<rparr>" demo_system shutdown_config]
    by (simp add: demo_system_def)
qed

end
