(* ===== verification/Printing.thy ===== *)
theory Printing
  imports TxGen Ledger StatisticsProc
begin

text \<open>
  What the program prints: messages of the log and their colour (\<open>log_info\<close>, the same in
  \<open>src/Controller.c\<close>, \<open>src/Miner.c\<close>, \<open>src/Validator.c\<close> and \<open>src/Statistics.c\<close>), the dump of the ledger and
  the size of its buffer (\<open>dump_ledger\<close>), and the functions of \<open>src/SHMManagement.c\<close> that print the shared data.
  \<open>%.2f\<close> is exact decimal rounding, ties to even, as in glibc. The lemmas show that the values of
  generated transactions are printed as they were drawn, for which blocks the buffer of the dump is large
  enough, and for which it is not.
\<close>

section \<open>Numbers and lines\<close>

abbreviation NL :: char where "NL \<equiv> CHR 0x0A"
abbreviation ESC :: char where "ESC \<equiv> CHR 0x1B"

definition two_digits :: "nat \<Rightarrow> string" where
  "two_digits n = [digit_char (n div 10), digit_char (n mod 10)]"

text \<open>\<open>m * 2^e\<close> in hundredths.\<close>

definition hundredths :: "nat \<Rightarrow> int \<Rightarrow> nat" where
  "hundredths m e = rne_div (m * 100 * 2 ^ nat e) (2 ^ nat (- e))"

definition print_fixed2 :: "32 word \<Rightarrow> string" where
  "print_fixed2 w =
     (let n = unat w; e = n div 2 ^ 23 mod 256; f = n mod 2 ^ 23
      in (if 2 ^ 31 \<le> n then ''-'' else '''') @
         (if e = 255 then (if f = 0 then ''inf'' else ''nan'')
          else let h = (if e = 0 then hundredths f (- 149) else hundredths (f + 2 ^ 23) (int e - 150))
               in dec_nat (h div 100) @ ''.'' @ two_digits (h mod 100)))"

definition print_uint :: "32 word \<Rightarrow> string" where "print_uint w = dec_nat (unat w)"
definition print_int :: "32 word \<Rightarrow> string" where "print_int w = dec_int (sint w)"
definition print_long :: "64 word \<Rightarrow> string" where "print_long w = dec_int (sint w)"

section \<open>The log\<close>

definition lower :: "char \<Rightarrow> char" where
  "lower c = (if 65 \<le> (of_char c :: nat) \<and> (of_char c :: nat) \<le> 90 then char_of ((of_char c :: nat) + 32) else c)"

fun prefix_nocase :: "string \<Rightarrow> string \<Rightarrow> bool" where
  "prefix_nocase [] hay = True"
| "prefix_nocase (n # ns) [] = False"
| "prefix_nocase (n # ns) (c # cs) \<longleftrightarrow> lower n = lower c \<and> prefix_nocase ns cs"

fun strcasestr :: "string \<Rightarrow> string \<Rightarrow> bool" where
  "strcasestr [] needle = (needle = [])"
| "strcasestr (c # cs) needle \<longleftrightarrow> prefix_nocase needle (c # cs) \<or> strcasestr cs needle"

datatype Color = DefaultColor | Red | Green

fun color_code :: "Color \<Rightarrow> string" where
  "color_code DefaultColor = ESC # ''[0m''"
| "color_code Red = ESC # ''[31m''"
| "color_code Green = ESC # ''[32m''"

text \<open>The second word for success has a cedilla and a tilde, written in UTF-8.\<close>

definition message_color :: "string \<Rightarrow> Color" where
  "message_color msg =
     (if strcasestr msg ''erro'' \<or> strcasestr msg ''rejeitado'' then Red
      else if strcasestr msg ''sucesso'' \<or>
              strcasestr msg (''execu'' @ [CHR 0xC3, CHR 0xA7, CHR 0xC3, CHR 0xA3] @ ''o'') \<or>
              strcasestr msg ''iniciado''
      then Green else DefaultColor)"

text \<open>The time as \<open>strftime\<close> prints it and the name of the process are arguments; the results are what is
  written to the file and to the terminal.\<close>

definition log_message :: "string \<Rightarrow> string \<Rightarrow> string \<Rightarrow> string \<times> string" where
  "log_message time_str process msg =
     (time_str @ '' '' @ process @ '' > '' @ msg @ [NL],
      NL # ESC # ''[33m'' @ time_str @ '' '' @ process @ '' > '' @ (ESC # ''[0m'') @ color_code (message_color msg) @ msg @
        (ESC # ''[0m''))"

section \<open>The dump of the ledger\<close>

definition temp_size :: nat where "temp_size = 256"

definition in_temp :: "string \<Rightarrow> string" where
  "in_temp s = take (temp_size - 1) s"

definition dump_start :: string where
  "dump_start = NL # replicate 19 CHR ''='' @ '' Start Ledger '' @ replicate 19 CHR ''='' @ [NL]"

definition dump_end :: string where
  "dump_end = replicate 19 CHR ''='' @ '' End Ledger '' @ replicate 19 CHR ''='' @ [NL]"

definition dump_block_head :: "nat \<Rightarrow> TransactionBlock \<Rightarrow> string" where
  "dump_block_head i b =
     ''||---- Block  '' @ dec_nat i @ '' --'' @ [NL] @ ''Block ID='' @ c_str (txb_id b) @ [NL] @
     ''Previous Hash='' @ c_str (previous_block_hash b) @ [NL] @ ''Block Timestamp='' @ print_long (blk_timestamp b) @ [NL] @
     ''Nonce='' @ print_uint (nonce b) @ [NL] @ ''Transactions:'' @ [NL]"

definition dump_tx_line :: "nat \<Rightarrow> Transaction \<Rightarrow> string" where
  "dump_tx_line j t =
     ''    ['' @ dec_nat j @ '']: ID='' @ c_str (tx_id t) @ '' | Reward='' @ print_uint (reward t) @
     '' | Value='' @ print_fixed2 (tx_value t) @ '' | Timestamp='' @ print_long (tx_timestamp t) @ [NL]"

definition dump_block_end :: string where
  "dump_block_end = ''||'' @ replicate 37 CHR ''-'' @ [NL]"

definition dump_block :: "nat \<Rightarrow> nat \<Rightarrow> TransactionBlock \<Rightarrow> string" where
  "dump_block tpb i b =
     (if c_str (txb_id b) = [] then []
      else in_temp (dump_block_head i b) @
           concat (map (\<lambda>j. in_temp (dump_tx_line j (transactions b ! j))) [0..<tpb]) @ dump_block_end)"

definition dump_text :: "c_size \<Rightarrow> Ledger \<Rightarrow> string" where
  "dump_text tpb L =
     dump_start @ concat (map (\<lambda>i. dump_block (unat tpb) i (blocks L ! i)) [0..<unat (ledger_count L)]) @ dump_end"

definition estimated_size :: "c_size \<Rightarrow> Ledger \<Rightarrow> c_size" where
  "estimated_size tpb L = 256 + ucast (ledger_count L) * (word_of_nat sizeof_Transaction + 100) * tpb"

datatype Dump = NotInitialised | NoMemory | BufferOverrun | Dumped string

definition dump_ledger :: "c_size \<Rightarrow> bool \<Rightarrow> Ledger option \<Rightarrow> Dump" where
  "dump_ledger tpb allocated ledger =
     (case ledger of
        None \<Rightarrow> NotInitialised
      | Some L \<Rightarrow>
          if \<not> allocated then NoMemory
          else if unat (estimated_size tpb L) \<le> length (dump_text tpb L) then BufferOverrun
          else Dumped (dump_text tpb L))"

section \<open>Printing the shared data\<close>

definition tx_fields :: "string \<Rightarrow> Transaction \<Rightarrow> string" where
  "tx_fields printed_reward t =
     ''ID='' @ c_str (tx_id t) @ '', Reward='' @ printed_reward @ '', Value='' @ print_fixed2 (tx_value t) @
     '', Timestamp='' @ print_long (tx_timestamp t)"

definition print_transaction :: "Transaction option \<Rightarrow> string" where
  "print_transaction t =
     (case t of
        None \<Rightarrow> ''Transaction is NULL.'' @ [NL]
      | Some t \<Rightarrow> ''Transaction: '' @ tx_fields (print_int (reward t)) t @ [NL])"

text \<open>A block with the pointer to its transactions; \<open>None\<close> for null pointers.\<close>

definition print_block_fields :: "string \<Rightarrow> TransactionBlock \<Rightarrow> string" where
  "print_block_fields title b =
     title @ [NL] @ ''  Block ID: '' @ c_str (txb_id b) @ [NL] @
     ''  Previous Block Hash: '' @ c_str (previous_block_hash b) @ [NL] @
     ''  Timestamp: '' @ print_long (blk_timestamp b) @ [NL] @ ''  Nonce: '' @ print_uint (nonce b) @ [NL]"

definition print_block_txs :: "nat \<Rightarrow> (Transaction \<Rightarrow> string) \<Rightarrow> Transaction list option \<Rightarrow> string" where
  "print_block_txs tpb print_reward txs =
     (case txs of
        None \<Rightarrow> ''  Transactions: NULL'' @ [NL]
      | Some ts \<Rightarrow> ''  Transactions:'' @ [NL] @
          concat (map (\<lambda>i. ''    Transaction '' @ dec_nat (i + 1) @ '': '' @ tx_fields (print_reward (ts ! i)) (ts ! i) @ [NL])
            [0..<tpb]))"

definition print_transaction_block_interface ::
    "c_size \<Rightarrow> (TransactionBlock \<times> Transaction list option) option \<Rightarrow> string" where
  "print_transaction_block_interface tpb block =
     (case block of
        None \<Rightarrow> ''TransactionBlockInterface is NULL.'' @ [NL]
      | Some (b, txs) \<Rightarrow>
          print_block_fields ''Transaction Block Interface:'' b @ print_block_txs (unat tpb) (\<lambda>t. print_int (reward t)) txs)"

definition print_transaction_block :: "c_size \<Rightarrow> (TransactionBlock \<times> Transaction list option) option \<Rightarrow> string" where
  "print_transaction_block tpb block =
     (case block of
        None \<Rightarrow> ''TransactionBlock is NULL.'' @ [NL]
      | Some (b, txs) \<Rightarrow>
          print_block_fields (NL # ''Transaction Block:'') b @
          print_block_txs (nat (sint (ucast tpb :: c_int))) (\<lambda>t. print_uint (reward t)) txs)"

definition print_ledger_block :: "nat \<Rightarrow> nat \<Rightarrow> TransactionBlock \<Rightarrow> string" where
  "print_ledger_block tpb i b =
     (if c_str (txb_id b) = [] then []
      else ''Block '' @ dec_nat i @ '': ID='' @ c_str (txb_id b) @ '', Previous Hash='' @ c_str (previous_block_hash b) @
           '', Timestamp='' @ print_long (blk_timestamp b) @ '', Nonce='' @ print_uint (nonce b) @ [NL] @
           concat (map (\<lambda>j. ''    Transaction '' @ dec_nat j @ '': '' @
             tx_fields (print_uint (reward (transactions b ! j))) (transactions b ! j) @ [NL]) [0..<tpb]))"

definition print_ledger :: "c_size \<Rightarrow> Ledger option \<Rightarrow> string" where
  "print_ledger tpb ledger =
     (case ledger of
        None \<Rightarrow> ''Ledger is empty or not initialized.'' @ [NL]
      | Some L \<Rightarrow>
          NL # ''Ledger:'' @ [NL] @ ''Last Block Index: '' @ print_uint (last_block_index L) @ [NL] @
          ''Last Block Hash: '' @ c_str (last_block_hash L) @ [NL] @ ''Number of Blocks: '' @ print_uint (num_blocks L) @ [NL] @
          ''Count: '' @ print_uint (ledger_count L) @ [NL] @
          concat (map (\<lambda>i. print_ledger_block (unat tpb) i (blocks L ! i)) [0..<unat (ledger_count L)]))"

definition print_slot :: "nat \<Rightarrow> PendingTransaction \<Rightarrow> string" where
  "print_slot i pt =
     ''  Transaction '' @ dec_nat (i + 1) @
     (if filled pt \<noteq> 0
      then '': '' @ tx_fields (print_uint (reward (tx pt))) (tx pt) @ '', Age='' @ print_uint (age pt) @ [NL]
      else '': Empty'' @ [NL])"

definition print_transaction_pool :: "TransactionPool option \<Rightarrow> string" where
  "print_transaction_pool P =
     (case P of
        None \<Rightarrow> ''Transaction pool is not initialized.'' @ [NL]
      | Some P \<Rightarrow>
          NL # ''Transaction Pool:'' @ [NL] @ ''  Size: '' @ print_uint (pool_size P) @ [NL] @
          ''  Count: '' @ print_uint (pool_count P) @ [NL] @
          concat (map (\<lambda>i. print_slot i (slots P ! i)) [0..<unat (pool_size P)]))"

section \<open>Printed values\<close>

lemma print_fixed2_normal:
  assumes "f < 2 ^ 23" and "0 < e" and "e < 255"
  shows "print_fixed2 (word_of_int (int e * 2 ^ 23 + int f)) =
    (let h = hundredths (f + 2 ^ 23) (int e - 150) in dec_nat (h div 100) @ ''.'' @ two_digits (h mod 100))"
proof -
  have "int e * 2 ^ 23 + int f = int (e * 2 ^ 23 + f)" by simp
  moreover have "e * 2 ^ 23 + f < 2 ^ LENGTH(32)" using assms by simp
  ultimately have n: "unat (word_of_int (int e * 2 ^ 23 + int f) :: 32 word) = e * 2 ^ 23 + f"
    by (simp only: of_int_of_nat_eq unat_of_nat mod_less)
  have "(e * 2 ^ 23 + f) div 2 ^ 23 mod 256 = e" "(e * 2 ^ 23 + f) mod 2 ^ 23 = f" "\<not> 2 ^ 31 \<le> e * 2 ^ 23 + f"
    using assms by simp_all
  moreover have "e \<noteq> 255" "e \<noteq> 0" using assms(2,3) by simp_all
  ultimately show ?thesis unfolding print_fixed2_def Let_def n by (simp only: if_False append_Nil refl)
qed

text \<open>A rounded value that is closer to \<open>h\<close> hundredths than to any other number of hundredths.\<close>

lemma print_fixed2_near:
  assumes "2 ^ 23 \<le> k" and "k \<le> 2 ^ 24" and "8 \<le> v" and "v \<le> 35"
    and "200 * k < 2 * h * 2 ^ v + 2 ^ v" and "2 * h * 2 ^ v < 200 * k + 2 ^ v"
  shows "print_fixed2 (f32_bits (k, int v)) = dec_nat (h div 100) @ ''.'' @ two_digits (h mod 100)"
proof (cases "k = 2 ^ 24")
  case True
  obtain w where w: "v = Suc w" using assms(3) by (cases v) simp_all
  have "f32_bits (k, int v) = word_of_int (int (151 - v) * 2 ^ 23 + int 0)"
    using assms(4) by (simp add: True of_nat_diff)
  moreover have "hundredths (0 + 2 ^ 23) (int (151 - v) - 150) = h"
  proof -
    have "2 * (2 ^ 23 * 100) < 2 * h * 2 ^ w + 2 ^ w" "2 * h * 2 ^ w < 2 * (2 ^ 23 * 100) + 2 ^ w"
      using assms(5,6) by (simp_all add: True w)
    then have "rne_div (2 ^ 23 * 100) (2 ^ w) = h" by (rule rne_div_unique)
    moreover have "nat (int (151 - v) - 150) = 0" "nat (- (int (151 - v) - 150)) = w" using assms(3,4) w by simp_all
    ultimately show ?thesis by (simp add: hundredths_def)
  qed
  ultimately show ?thesis using print_fixed2_normal [of 0 "151 - v"] assms(3,4) by simp
next
  case False
  define f where "f = k - 2 ^ 23"
  have f: "k = f + 2 ^ 23" "f < 2 ^ 23" using assms(1,2) False by (simp_all add: f_def)
  have "(149 - int v) * 2 ^ 23 + int k = int (150 - v) * 2 ^ 23 + int f"
    using assms(4) by (simp add: f(1) of_nat_diff algebra_simps)
  moreover have "k \<noteq> 0" using assms(1) by (cases k) simp_all
  ultimately have b: "f32_bits (k, int v) = word_of_int (int (150 - v) * 2 ^ 23 + int f)" by (simp only: f32_bits.simps if_False)
  have "2 * (k * 100) < 2 * h * 2 ^ v + 2 ^ v" "2 * h * 2 ^ v < 2 * (k * 100) + 2 ^ v" using assms(5,6) by simp_all
  then have "rne_div (k * 100) (2 ^ v) = h" by (rule rne_div_unique)
  moreover have "nat (int (150 - v) - 150) = 0" "nat (- (int (150 - v) - 150)) = v" using assms(3,4) by simp_all
  ultimately have h: "hundredths (f + 2 ^ 23) (int (150 - v) - 150) = h" by (simp add: hundredths_def f(1))
  have e: "0 < 150 - v" "150 - v < 255" using assms(4) by simp_all
  show ?thesis unfolding b print_fixed2_normal [OF f(2) e] Let_def h by (rule refl)
qed

lemma near_value:
  "print_fixed2 (random_value r) = dec_nat (r mod 10000 div 100) @ ''.'' @ two_digits (r mod 100)"
proof (cases "r mod 10000 = 0")
  case True
  have "r mod 100 = 0" using mod_mod_cancel [of 100 10000 r] True by simp
  moreover have "print_fixed2 0 = dec_nat 0 @ ''.'' @ two_digits 0"
    by (simp add: print_fixed2_def hundredths_def rne_div_def)
  ultimately show ?thesis by (simp add: random_value_zero [OF True] True)
next
  case False
  then have "0 < r mod 10000" by simp
  then obtain k v where kv: "random_value r = f32_bits (k, int v)" "2 ^ 23 \<le> k" "k \<le> 2 ^ 24" "8 \<le> v" "v \<le> 35"
    "200 * k < 2 * (r mod 10000) * 2 ^ v + 2 ^ v" "2 * (r mod 10000) * 2 ^ v < 200 * k + 2 ^ v"
    using random_value_rounded by blast
  have "r mod 10000 mod 100 = r mod 100" by (rule mod_mod_cancel) simp
  then show ?thesis using print_fixed2_near [OF kv(2-7)] by (simp add: kv(1))
qed

text \<open>C40: the value of a generated transaction is printed as it was drawn. The \<open>float\<close> that the generator stores for
  \<open>rand() % 10000\<close> hundredths, rounded to \<open>double\<close> and then to \<open>float\<close>, appears in every print-out with exactly
  these two decimals.\<close>

theorem generated_value_prints_exactly:
  "print_fixed2 (random_value r) = dec_nat (r mod 10000 div 100) @ ''.'' @ two_digits (r mod 100)"
  by (rule near_value)

section \<open>The size of a dump\<close>

lemma length_concat_le: "(\<And>x. x \<in> set xs \<Longrightarrow> length (f x) \<le> c) \<Longrightarrow> length (concat (map f xs)) \<le> length xs * c"
  by (induction xs) (auto intro: add_mono)

lemma length_concat_ge: "(\<And>x. x \<in> set xs \<Longrightarrow> c \<le> length (f x)) \<Longrightarrow> length xs * c \<le> length (concat (map f xs))"
  by (induction xs) (auto intro: add_mono)

lemma length_in_temp: "length (in_temp s) = min 255 (length s)"
  by (simp add: in_temp_def temp_size_def min.commute)

lemma length_print_long: "length (print_long w) \<le> 20"
proof -
  have s: "- (2 ^ 63) \<le> sint w" "sint w < 2 ^ 63" using sint_ge [of w] sint_lt [of w] by simp_all
  show ?thesis
  proof (cases "sint w < 0")
    case True
    have "nat (- sint w) < 10 ^ Suc 18" using s(1) by simp
    from dec_nat_length_le [OF this] True show ?thesis by (simp add: print_long_def dec_int_def)
  next
    case False
    have "nat (sint w) < 10 ^ Suc 18" using s(2) by simp
    from dec_nat_length_le [OF this] False show ?thesis by (simp add: print_long_def dec_int_def)
  qed
qed

lemma length_print_uint: "length (print_uint w) \<le> 10"
proof -
  have "unat w < 4294967296" using unsigned_less [of w] by simp
  then show ?thesis unfolding print_uint_def by (rule dec_nat_length_32)
qed

lemma dump_size_constants: "length dump_start = 54" "length dump_end = 51" "length dump_block_end = 40"
  by (simp_all add: dump_start_def dump_end_def dump_block_end_def)

text \<open>A transaction as the generators make them: a short identifier, a value below 100.\<close>

definition small_tx :: "Transaction \<Rightarrow> bool" where
  "small_tx t \<longleftrightarrow> length (c_str (tx_id t)) \<le> 26 \<and> length (print_fixed2 (tx_value t)) \<le> 5"

lemma generated_small:
  assumes "length (env_stack env) = TX_ID_LEN"
  shows "small_tx (tx (fst (generate_transaction env n r)))"
proof -
  have "length (dec_nat (env_rand env mod 10000 div 100)) \<le> Suc 1" by (rule dec_nat_length_le) simp
  then have "length (print_fixed2 (random_value (env_rand env))) \<le> 5"
    unfolding near_value by (simp add: two_digits_def)
  moreover have "length (tx_id_text (env_pid env) n) \<le> 26" by (rule length_tx_id_text)
  ultimately show ?thesis using generated_id(1) [OF assms, of n r]
    by (simp add: small_tx_def) (simp add: generate_transaction_def Let_def)
qed

lemma length_dump_tx_line: "small_tx t \<Longrightarrow> j < 2 ^ 32 \<Longrightarrow> length (dump_tx_line j t) \<le> 115"
  using dec_nat_length_32 [of j] length_print_uint [of "reward t"] length_print_long [of "tx_timestamp t"]
  by (simp add: dump_tx_line_def small_tx_def)

lemma length_dump_block:
  assumes "n < 2 ^ 32" and "\<And>j. j < n \<Longrightarrow> small_tx (transactions b ! j)"
  shows "length (dump_block n i b) \<le> 295 + n * 115"
proof -
  have "length (concat (map (\<lambda>j. in_temp (dump_tx_line j (transactions b ! j))) [0..<n])) \<le> length [0..<n] * 115"
  proof (rule length_concat_le)
    fix j
    assume "j \<in> set [0..<n]"
    then have "j < n" by simp
    then show "length (in_temp (dump_tx_line j (transactions b ! j))) \<le> 115"
      using length_dump_tx_line [OF assms(2), of j j] assms(1) by (simp add: length_in_temp)
  qed
  then show ?thesis by (auto simp: dump_block_def length_in_temp dump_size_constants intro!: add_mono)
qed

lemma unat_estimated_size:
  assumes "256 + unat (ledger_count L) * (180 * unat tpb) < 2 ^ 64"
  shows "unat (estimated_size tpb L) = 256 + unat (ledger_count L) * (180 * unat tpb)"
proof -
  have "estimated_size tpb L = word_of_nat (256 + unat (ledger_count L) * (180 * unat tpb))"
    by (simp add: estimated_size_def sizeof_Transaction unsigned_ucast_eq algebra_simps)
  then show ?thesis using assms by (simp only: unat_of_nat) simp
qed

text \<open>C14: the buffer of a ledger dump is large enough for blocks of five or more transactions. When the sizes do not
  wrap around and the transactions are like the generated ones (identifiers of at most 26 characters, values
  below 100), \<open>dump_ledger\<close> stays inside the memory it has allocated and logs the whole text.\<close>

theorem dump_ledger_fits:
  assumes "5 \<le> unat tpb" and "unat tpb < 2 ^ 32" and "256 + unat (ledger_count L) * (180 * unat tpb) < 2 ^ 64"
    and "\<And>i j. i < unat (ledger_count L) \<Longrightarrow> j < unat tpb \<Longrightarrow> small_tx (transactions (blocks L ! i) ! j)"
  shows "dump_ledger tpb True (Some L) = Dumped (dump_text tpb L)"
proof -
  let ?n = "unat (ledger_count L)" and ?t = "unat tpb"
  have "length (concat (map (\<lambda>i. dump_block ?t i (blocks L ! i)) [0..<?n])) \<le> length [0..<?n] * (295 + ?t * 115)"
    by (rule length_concat_le) (use assms(2,4) length_dump_block in auto)
  then have "length (dump_text tpb L) \<le> 105 + ?n * (295 + ?t * 115)"
    by (simp add: dump_text_def dump_size_constants)
  also have "\<dots> < 256 + ?n * (180 * ?t)"
  proof -
    have "?n * (295 + ?t * 115) \<le> ?n * (180 * ?t)" using assms(1) by (intro mult_le_mono2) simp
    then show ?thesis by linarith
  qed
  finally show ?thesis by (simp add: dump_ledger_def unat_estimated_size [OF assms(3)])
qed

definition demo_dump_ledger :: "nat \<Rightarrow> nat \<Rightarrow> Ledger" where
  "demo_dump_ledger n tpb =
     \<lparr>last_block_index = word_of_nat n - 1, last_block_hash = replicate 64 CHR ''0'' @ [NUL], num_blocks = 10,
      ledger_count = word_of_nat n,
      blocks = replicate n \<lparr>txb_id = ''BLOCK-1-0'' @ replicate 55 NUL, previous_block_hash = replicate 64 CHR ''0'' @ [NUL],
        blk_timestamp = 0, nonce = 0, transactions = replicate tpb zero_tx\<rparr>\<rparr>"

lemma small_zero_tx: "small_tx zero_tx"
  by (simp add: small_tx_def zero_tx_def print_fixed2_def hundredths_def rne_div_def two_digits_def dec_nat.simps)

theorem dump_ledger_fits_witness:
  "dump_ledger 5 True (Some (demo_dump_ledger 7 5)) = Dumped (dump_text 5 (demo_dump_ledger 7 5))"
  by (rule dump_ledger_fits) (simp_all add: demo_dump_ledger_def small_zero_tx)

text \<open>With one transaction per block it is not.\<close>

lemma length_dump_block_single:
  assumes "c_str (txb_id b) \<noteq> []" and "length (c_str (previous_block_hash b)) = 64"
  shows "239 \<le> length (dump_block 1 i b)"
proof -
  have pos: "1 \<le> length (dec_nat m)" "1 \<le> length (dec_int x)" "1 \<le> length (c_str (txb_id b))" for m x
    using assms(1) by (simp_all add: Suc_le_eq)
  have v: "3 \<le> length (print_fixed2 w)" for w
    using pos(1) by (auto simp: print_fixed2_def Let_def two_digits_def)
  have l: "50 \<le> length (dump_tx_line 0 t)" for t
    using pos(1) [of 0] pos(1) [of "unat (reward t)"] pos(2) [of "sint (tx_timestamp t)"] v [of "tx_value t"]
    by (simp add: dump_tx_line_def print_uint_def print_long_def)
  have h: "149 \<le> length (dump_block_head i b)"
    using pos(1) [of i] pos(3) pos(2) [of "sint (blk_timestamp b)"] pos(1) [of "unat (nonce b)"] assms(2)
    by (simp add: dump_block_head_def print_uint_def print_long_def)
  have "149 \<le> min 255 (length (dump_block_head i b))" "50 \<le> min 255 (length (dump_tx_line 0 (transactions b ! 0)))"
    using h l by simp_all
  then show ?thesis using assms(1) by (simp add: dump_block_def length_in_temp dump_size_constants)
qed

text \<open>C39: the buffer of a ledger dump overflows with one transaction per block. With seven blocks or more, all but the
  first with an identifier and a previous hash of 64 digits (as every block that a miner adds to the chain), the
  text is longer than the memory that \<open>dump_ledger\<close> allocates for it, whatever the blocks contain.\<close>

theorem dump_ledger_overflows:
  assumes "7 \<le> unat (ledger_count L)"
    and "\<And>i. 0 < i \<Longrightarrow> i < unat (ledger_count L) \<Longrightarrow>
      c_str (txb_id (blocks L ! i)) \<noteq> [] \<and> length (c_str (previous_block_hash (blocks L ! i))) = 64"
  shows "dump_ledger 1 True (Some L) = BufferOverrun"
proof -
  let ?n = "unat (ledger_count L)"
  let ?f = "\<lambda>i. dump_block 1 i (blocks L ! i)"
  have "[0..<?n] = 0 # [1..<?n]" using assms(1) by (simp add: upt_conv_Cons)
  moreover have "length [1..<?n] * 239 \<le> length (concat (map ?f [1..<?n]))"
    by (rule length_concat_ge) (use assms(2) length_dump_block_single in auto)
  ultimately have "(?n - 1) * 239 \<le> length (concat (map ?f [0..<?n]))" by simp
  then have "105 + (?n - 1) * 239 \<le> length (dump_text 1 L)" by (simp add: dump_text_def dump_size_constants)
  moreover have "?n < 4294967296" using unsigned_less [of "ledger_count L"] by simp
  then have "256 + ?n * 180 < 18446744073709551616" by linarith
  then have "256 + ?n * (180 * unat (1 :: c_size)) < 2 ^ 64" by simp
  from unat_estimated_size [OF this] have "unat (estimated_size 1 L) = 256 + ?n * 180" by simp
  ultimately show ?thesis using assms(1) by (simp add: dump_ledger_def)
qed

theorem dump_ledger_overflows_witness: "dump_ledger 1 True (Some (demo_dump_ledger 7 1)) = BufferOverrun"
proof (rule dump_ledger_overflows)
  have c: "unat (ledger_count (demo_dump_ledger 7 1)) = 7" by (simp add: demo_dump_ledger_def)
  then show "7 \<le> unat (ledger_count (demo_dump_ledger 7 1))" by simp
  fix i
  assume "i < unat (ledger_count (demo_dump_ledger 7 1))"
  then show "c_str (txb_id (blocks (demo_dump_ledger 7 1) ! i)) \<noteq> [] \<and>
    length (c_str (previous_block_hash (blocks (demo_dump_ledger 7 1) ! i))) = 64"
    using c_str_append_NUL [of "replicate 64 CHR ''0''" "[]"] by (simp only: c) (simp add: demo_dump_ledger_def c_str_def)
qed

end
