(* ===== verification/Spec2Isabelle.thy ===== *)
theory Spec2Isabelle
  imports ConfigFile Launcher ShmLayout WholeSystem ControllerProc Workers Printing
begin

text \<open>
  DEIChain (\<open>src/\<close>): a simulation of a block chain by processes that share memory. The controller
  creates the shared objects and starts a miner process with several threads, a validator and a
  statistics process; a thread of the controller adds and removes validators with the load. Transaction
  generators are started by hand. Generators put transactions into a pool in shared memory, miner
  threads select some of them, search a nonce and write the block into a pipe, validators check it,
  take its transactions out of the pool and append it to the ledger in shared memory, and report to the
  statistics process through a message queue.

  \<^bold>\<open>Reading order, and what models what.\<close>

  \<^item> \<open>Prelude\<close>, \<open>CStrings\<close>, \<open>Decimals\<close>, \<open>Codec\<close>, \<open>Rounding\<close>: machine integers at their x86-64 widths,
    byte arrays with \<open>strcpy\<close>, \<open>strncpy\<close>, \<open>snprintf\<close>, printing and \<open>atoi\<close>, memory images of structs
    (locales \<open>fixed_codec\<close> and \<open>sized_codec\<close>), and IEEE rounding as integer arithmetic.
  \<^item> \<open>SharedTypes\<close> (\<open>include/Controller.h\<close>): the structs as records, with the layout a C compiler gives
    them; \<open>ShmLayout\<close> (\<open>src/SHMManagement.c\<close> and \<open>main\<close> of \<open>src/Controller.c\<close>): addresses, sizes and
    initial contents of the two segments.
  \<^item> \<open>ProofOfWork\<close> (\<open>src/PoW/pow.c\<close>): serialisation, difficulty, search for the nonce.
  \<^item> \<open>TxPool\<close>, \<open>TxGen\<close> (\<open>src/txGen.c\<close>): the invariant of the pool, the generator and one pass of its
    loop. The generator satisfies the locale \<open>bounded_store\<close> of \<open>TxPool\<close>.
  \<^item> \<open>Miner\<close> (\<open>miner_thread\<close> in \<open>src/Miner.c\<close>): one pass of a miner thread, its critical sections one
    definition each. \<open>Pipe\<close>: the message it writes and how a validator reads it.
  \<^item> \<open>Ledger\<close>, \<open>Validator\<close> (\<open>validator\<close> in \<open>src/Validator.c\<close>): the origin block, the checks of a block, the
    two critical sections on the pool and on the ledger, the message to the statistics. The ledger
    satisfies the locale \<open>hash_chain\<close>.
  \<^item> \<open>StatisticsProc\<close> (\<open>src/Statistics.c\<close>), \<open>ConfigFile\<close> (\<open>parse_config\<close> and the checks in \<open>main\<close>),
    \<open>Launcher\<close> (\<open>validator_launcher\<close>).
  \<^item> \<open>Simulation\<close>, \<open>WholeSystem\<close>: all of them together. A state holds the shared pool and ledger, the pipe,
    the queue and what every process keeps in local variables; a step is one critical section or one
    use of the pipe or the queue by one process, so every interleaving of critical sections is a path of
    the relation \<open>step\<close>; validators that are ended and miner threads that are cancelled between their
    critical sections included.
  \<^item> \<open>SystemCalls\<close>, \<open>Processes\<close>, \<open>ControllerProc\<close>, \<open>Workers\<close>: start-up, signals and shutdown. A state of the
    operating system holds the named objects, what a process has open, its threads and its children;
    \<open>controller_start\<close>, \<open>cleanup\<close> and \<open>sigint_handler\<close> are \<open>main\<close>, \<open>cleanup\<close> and \<open>sigint\<close> of
    \<open>src/Controller.c\<close>, and \<open>miner_start\<close>, \<open>validator_start\<close>, \<open>statistics_start\<close>, \<open>txgen_start\<close> with their
    clean-ups those of the other programs. The locale \<open>worker\<close> is what the controller relies on.
  \<^item> \<open>Printing\<close>: the messages of \<open>log_info\<close>, \<open>dump_ledger\<close> of \<open>src/Controller.c\<close> with its buffer, the
    functions of \<open>src/SHMManagement.c\<close> that print the shared data.

  \<^bold>\<open>What is shown.\<close> In every reachable state of the system the pool is well formed and the ledger a valid
  chain; no transaction is spent twice; the chain only grows; the last hash commits to the history;
  every step refines an abstract protocol of arriving, taking out, appending and dropping; an
  undisturbed miner gets its block into the chain. For the components: the verdict on a block on every
  branch, the nonce search as a least solution, the serialisation as an injection, the selection as the
  first hits of the draws, the round trips through pipe, queue and configuration file, the thresholds of
  the launcher as exact fractions, the closed form of ageing, the address arithmetic of the segments. For
  the processes: a shutdown removes every object and ends every process in the right order, each worker
  releases what it holds and answers the controller, and the start-ups and shutdowns that fail do so as
  stated; the buffer of a ledger dump is large enough for blocks of five transactions and too small for
  blocks of one. Properties that name a defect (a lost race that loses transactions, a transaction paid for
  several times, sizes that wrap around, a shutdown that hangs) are proved in the same way.

  \<^bold>\<open>Bounds and inputs.\<close> Random draws, clocks, results of \<open>fork\<close>, \<open>kill\<close>, \<open>waitpid\<close> and the calls that may fail
  are arguments. The search of a nonce is bounded by the code itself (\<open>POW_MAX_OPS\<close>) and is a recursion on
  the remaining tries. The \<open>while\<close> of the selection runs over the list of draws it is given and returns
  \<open>None\<close> when the list is used up; a miner iteration runs over the clock values of its attempts and the
  launcher over a list of ticks, one element per pass of the loop, so any finite number of passes is
  covered and nothing is cut off. SHA-256 is the parameter \<open>sha\<close>: it is assumed to return 32 bytes, and where
  a property would need collision resistance, it says \<open>or there is a collision\<close>.

  \<^bold>\<open>Assumptions of the whole system.\<close> A configuration that \<open>startup\<close> accepts, with at most 49 transactions per
  block, so that a write into the pipe is atomic; a process number belongs to one generator, and a
  generator makes fewer than \<open>2^32\<close> transactions; semaphores exclude each other as POSIX says; between
  processes that run, the reaction to signals is that of \<open>SystemCalls\<close>: a signalled child reacts at the
  latest when the parent waits for it.

  \<^bold>\<open>Not modelled.\<close> The wording of the messages, except those of \<open>Printing\<close>; the time a call takes, and the fairness of the
  scheduler; memory exhaustion where the code does not test for it; a signal that arrives inside a
  critical section, except for a lost semaphore of the log (\<open>Workers\<close>); \<open>src/PoW/hash_block_sample.c\<close>, a
  stand-alone demonstration that the Makefile does not build and whose header is not in the repository.
\<close>

end
